(* ===== verification/Ants_Prelude.thy ===== *)
theory Ants_Prelude
  imports Main "HOL-Library.Word"
begin

text \<open>
  The vocabulary every component of the client shares: the fixed-width integers, the
  project-wide return codes of \<^verbatim>\<open>src/include/ants_common.h\<close>, the C library's
  \<^verbatim>\<open>memcmp\<close> on byte ranges, the idiom of running fallible steps until the first one
  that fails, and the list, word and order lemmas the component theories rely on.

  Conventions of the models. A pointer and its length are one byte list, so a
  caller buffer of capacity \<open>n\<close> is a list of length \<open>n\<close>. A pointer argument is
  passed as the value it points to: the guards that answer a NULL pointer with
  \<^verbatim>\<open>ANTS_ERROR_INVALID_ARG\<close> and touch nothing have no counterpart. A
  \<^verbatim>\<open>size_t\<close> that counts bytes or entries of an object in memory is a \<open>nat\<close> (no
  object is near \<open>2^64\<close> bytes long), a \<^verbatim>\<open>uint64_t\<close> quantity is a \<open>64 word\<close>.
\<close>

unbundle bit_operations_syntax

type_synonym u8 = "8 word"
type_synonym u16 = "16 word"
type_synonym u32 = "32 word"
type_synonym u64 = "64 word"
type_synonym bytes = "u8 list"

text \<open>Rules that decompose or establish the outcome of a step, and the laws of the
  byte order.\<close>

named_theorems step_simps \<open>equations of the step combinators\<close>
named_theorems order_facts \<open>the byte order of map keys and identifiers\<close>

section \<open>Return codes\<close>

datatype ants_error =
    ANTS_OK
  | ANTS_ERROR_INVALID_ARG
  | ANTS_ERROR_BUFFER_TOO_SMALL
  | ANTS_ERROR_NOT_IMPLEMENTED
  | ANTS_ERROR_MALFORMED
  | ANTS_ERROR_NON_CANONICAL
  | ANTS_ERROR_UNSUPPORTED_TYPE
  | ANTS_ERROR_OVERFLOW
  | ANTS_ERROR_PEER_UNREACHABLE
  | ANTS_ERROR_HANDSHAKE_FAILED
  | ANTS_ERROR_PEER_MISMATCH
  | ANTS_ERROR_STREAM_RESET
  | ANTS_ERROR_NOT_FOUND

text \<open>A call that delivers a value through an out-parameter: \<open>Inl\<close> carries the error
  code (never \<open>ANTS_OK\<close>), \<open>Inr\<close> the value delivered together with \<open>ANTS_OK\<close>.\<close>

type_synonym 'a res = "ants_error + 'a"

definition rc_of :: "'a res \<Rightarrow> ants_error" where
  "rc_of r = (case r of Inl e \<Rightarrow> e | Inr _ \<Rightarrow> ANTS_OK)"

lemma rc_of_simps [simp]: "rc_of (Inl e) = e" "rc_of (Inr x) = ANTS_OK"
  by (simp_all add: rc_of_def)

section \<open>Sequences of fallible steps\<close>

text \<open>\<^verbatim>\<open>rc = step(s); if (rc != ANTS_OK) return rc;\<close> repeated: the steps run in
  order on the mutable state, the first code other than \<open>ANTS_OK\<close> ends the run and the
  state is left as that step left it.\<close>

type_synonym 's step = "'s \<Rightarrow> ants_error \<times> 's"

fun run_steps :: "'s step list \<Rightarrow> 's step" where
  "run_steps [] s = (ANTS_OK, s)"
| "run_steps (f # fs) s =
     (case f s of (rc, s') \<Rightarrow> if rc = ANTS_OK then run_steps fs s' else (rc, s'))"

lemma run_steps_append:
  "run_steps (xs @ ys) s =
     (case run_steps xs s of (rc, s') \<Rightarrow> if rc = ANTS_OK then run_steps ys s' else (rc, s'))"
  by (induction xs arbitrary: s) (auto split: prod.splits)

lemma run_steps_nest [step_simps]: "run_steps (run_steps xs # ys) = run_steps (xs @ ys)"
  by (rule ext) (simp add: run_steps_append)

lemma run_steps_singleton [step_simps]: "run_steps [f] = f"
  by (rule ext) (auto split: prod.splits)

text \<open>The reading counterpart: a step that also delivers a value, and its sequencing.\<close>

type_synonym ('s, 'a) reader = "'s \<Rightarrow> 'a res \<times> 's"

definition then_read :: "('s, 'a) reader \<Rightarrow> ('a \<Rightarrow> ('s, 'b) reader) \<Rightarrow> ('s, 'b) reader" where
  "then_read m f s = (case m s of (Inl e, s') \<Rightarrow> (Inl e, s') | (Inr x, s') \<Rightarrow> f x s')"

definition read_ret :: "'a \<Rightarrow> ('s, 'a) reader" where
  "read_ret x s = (Inr x, s)"

definition read_fail :: "ants_error \<Rightarrow> ('s, 'a) reader" where
  "read_fail e s = (Inl e, s)"

lemma then_read_Inr:
  "then_read m f s = (Inr y, s') \<longleftrightarrow> (\<exists>x s1. m s = (Inr x, s1) \<and> f x s1 = (Inr y, s'))"
  by (auto simp: then_read_def split: prod.splits sum.splits)

lemma read_ret_Inr [simp]: "read_ret x s = (Inr y, s') \<longleftrightarrow> y = x \<and> s' = s"
  by (auto simp: read_ret_def)

lemma read_fail_Inr [simp]: "read_fail e s = (Inr y, s') \<longleftrightarrow> False"
  by (simp add: read_fail_def)

lemma then_read_run [step_simps]:
  "m s = (Inl e, s1) \<Longrightarrow> then_read m f s = (Inl e, s1)"
  "m s = (Inr x, s1) \<Longrightarrow> then_read m f s = f x s1"
  by (simp_all add: then_read_def)

section \<open>Bytes and their order\<close>

text \<open>The C library's \<^verbatim>\<open>memcmp(a, b, n)\<close>, of which only the sign is specified.\<close>

fun memcmp :: "bytes \<Rightarrow> bytes \<Rightarrow> nat \<Rightarrow> int" where
  "memcmp (x # xs) (y # ys) (Suc n) =
     (if x < y then -1 else if y < x then 1 else memcmp xs ys n)"
| "memcmp xs ys n = 0"

lemma memcmp_eq_0:
  "n \<le> length xs \<Longrightarrow> n \<le> length ys \<Longrightarrow> memcmp xs ys n = 0 \<longleftrightarrow> take n xs = take n ys"
  by (induction xs ys n rule: memcmp.induct) auto

lemma memcmp_refl [simp]: "memcmp x x n = 0"
proof (induction x arbitrary: n)
  case (Cons a x)
  then show ?case by (cases n) simp_all
qed simp

lemma memcmp_key: "length a = n \<Longrightarrow> length b = n \<Longrightarrow> memcmp a b n = 0 \<longleftrightarrow> a = b"
  using memcmp_eq_0 [of n a b] by simp

lemma memcmp_swap: "memcmp ys xs n = - memcmp xs ys n"
  by (induction xs ys n rule: memcmp.induct) auto

text \<open>Bytes compared by \<^verbatim>\<open>memcmp\<close> over their whole common length.\<close>

definition bytes_less :: "bytes \<Rightarrow> bytes \<Rightarrow> bool" where
  "bytes_less xs ys = ord_class.lexordp xs ys"

lemma bytes_less_simps [simp]:
  "\<not> bytes_less xs []"
  "bytes_less [] (y # ys)"
  "bytes_less (x # xs) (y # ys) \<longleftrightarrow> x < y \<or> x = y \<and> bytes_less xs ys"
  by (auto simp: bytes_less_def)

lemma bytes_less_irrefl [simp, order_facts]: "\<not> bytes_less xs xs"
  by (simp add: bytes_less_def lexordp_irreflexive')

lemma bytes_less_trans [order_facts]:
  "bytes_less xs ys \<Longrightarrow> bytes_less ys zs \<Longrightarrow> bytes_less xs zs"
  unfolding bytes_less_def by (rule lexordp_trans)

lemma bytes_less_linear [order_facts]: "bytes_less xs ys \<or> xs = ys \<or> bytes_less ys xs"
  unfolding bytes_less_def by (rule lexordp_linear)

lemma bytes_less_asym [order_facts]: "bytes_less xs ys \<Longrightarrow> \<not> bytes_less ys xs"
  using bytes_less_trans bytes_less_irrefl by blast

lemma memcmp_less_iff:
  "length xs = n \<Longrightarrow> length ys = n \<Longrightarrow> memcmp xs ys n < 0 \<longleftrightarrow> bytes_less xs ys"
  by (induction xs ys n rule: memcmp.induct) auto

section \<open>Lists\<close>

definition byte_range :: "nat \<Rightarrow> nat \<Rightarrow> 'a list \<Rightarrow> 'a list" where
  "byte_range i j xs = take (j - i) (drop i xs)"

lemma byte_range_append_left: "j \<le> length xs \<Longrightarrow> byte_range i j (xs @ ys) = byte_range i j xs"
  by (cases "i \<le> j") (auto simp: byte_range_def)

lemma byte_range_suffix: "byte_range (length xs) (length xs + length ys) (xs @ ys @ zs) = ys"
  by (simp add: byte_range_def)

lemma byte_range_take: "j \<le> n \<Longrightarrow> byte_range i j (take n xs) = byte_range i j xs"
  by (simp add: byte_range_def drop_take min_def)

lemma length_byte_range: "j \<le> length xs \<Longrightarrow> length (byte_range i j xs) = j - i"
  by (simp add: byte_range_def)

lemma take_list_update_snoc:
  "n < length xs \<Longrightarrow> take (Suc n) (xs[n := x]) = take n xs @ [x]"
  by (simp add: take_Suc_conv_app_nth)

lemma drop_eq_Cons: "n < length xs \<Longrightarrow> drop n xs = xs ! n # drop (Suc n) xs"
  by (rule Cons_nth_drop_Suc [symmetric])

section \<open>Unsigned 64-bit arithmetic\<close>

definition UINT64_MAX :: u64 where
  "UINT64_MAX = 0xffffffffffffffff"

named_theorems word_arith \<open>64-bit arithmetic read as arithmetic on natural numbers\<close>

lemma unat_UINT64_MAX [word_arith]: "unat UINT64_MAX = 2 ^ 64 - 1"
  by (simp add: UINT64_MAX_def)

lemma unat_bound: "unat (a :: u64) < 2 ^ 64"
  using unsigned_less [of a, where 'a = nat] by simp

lemma le_UINT64_MAX [simp]: "a \<le> UINT64_MAX"
  using unat_bound [of a] by (simp add: word_le_nat_alt unat_UINT64_MAX)

lemma unat_diff [word_arith]: "b \<le> a \<Longrightarrow> unat (a - b :: u64) = unat a - unat b"
  by (simp add: unat_sub word_le_nat_alt)

lemma unat_add_fits [word_arith]: "unat a + unat b < 2 ^ 64 \<Longrightarrow> unat (a + b :: u64) = unat a + unat b"
  by (simp add: unat_word_ariths)

lemma unat_mult_fits [word_arith]: "unat a * unat b < 2 ^ 64 \<Longrightarrow> unat (a * b :: u64) = unat a * unat b"
  by (simp add: unat_word_ariths)

text \<open>The guards \<^verbatim>\<open>a > UINT64_MAX - t\<close> and \<^verbatim>\<open>q > UINT64_MAX / n\<close> detect exactly the overflows.\<close>

lemma add_overflow_iff [word_arith]: "a > UINT64_MAX - t \<longleftrightarrow> unat t + unat a \<ge> 2 ^ 64"
  using unat_bound [of t] by (auto simp: word_less_nat_alt unat_diff unat_UINT64_MAX)

lemma mult_overflow_iff [word_arith]:
  assumes "n \<noteq> 0"
  shows "q > UINT64_MAX div n \<longleftrightarrow> unat q * unat n \<ge> 2 ^ 64"
proof -
  have n: "0 < unat n" using assms by (simp add: unat_gt_0)
  have "q > UINT64_MAX div n \<longleftrightarrow> (2 ^ 64 - 1) div unat n < unat q"
    by (simp add: word_less_nat_alt unat_div unat_UINT64_MAX)
  also have "\<dots> \<longleftrightarrow> 2 ^ 64 - 1 < unat q * unat n"
    using n by (simp add: less_mult_imp_div_less div_less_iff_less_mult)
  finally show ?thesis by auto
qed

lemma unat_of_nat_fits [word_arith]: "n < 2 ^ 64 \<Longrightarrow> unat (of_nat n :: u64) = n"
  by (simp add: unsigned_of_nat take_bit_nat_eq_self_iff)

text \<open>Narrowing a value that was range-checked loses nothing.\<close>

lemma unat_ucast_up: "LENGTH('a) \<le> LENGTH('b) \<Longrightarrow> unat (ucast (q :: 'a :: len word) :: 'b :: len word) = unat q"
  by (simp add: unsigned_ucast_eq take_bit_nat_eq_self_iff) (meson less_le_trans one_le_numeral power_increasing unsigned_less)

lemma ucast_narrow_u16: "\<not> (u :: u64) > 0xffff \<Longrightarrow> ucast (ucast u :: u16) = u"
  by (simp add: word_unat_eq_iff unat_ucast_up unsigned_ucast_eq unsigned_take_bit_eq take_bit_nat_eq_self_iff word_less_nat_alt)

lemma ucast_wide_u16: "(ucast (q :: u16) :: u64) \<le> 0xffff"
  using unsigned_less [of q, where 'a = nat] by (simp add: word_le_nat_alt unat_ucast_up)

lemma ucast_u16_back: "ucast (ucast (q :: u16) :: u64) = q"
  using unsigned_less [of q, where 'a = nat]
  by (simp add: word_unat_eq_iff unsigned_ucast_eq unsigned_take_bit_eq take_bit_nat_eq_self_iff)

end
