(* ===== verification/Cbor_Codec.thy ===== *)
theory Cbor_Codec
  imports Ants_Prelude
begin

text \<open>
  The deterministic CBOR codec of \<^verbatim>\<open>src/foundation/cbor\<close>, operation by operation:
  the shortest-form header writer and the strict header reader, the container
  tracker with its fixed array of contexts, the encoder calls, the decoder calls
  and the whole-document validator. Encoder and decoder calls leave the state behind
  on failure too, so they return the code together with the state.
\<close>

section \<open>Encoder and decoder state\<close>

definition ANTS_CBOR_MAX_DEPTH :: nat where
  "ANTS_CBOR_MAX_DEPTH = 16"

datatype ants_cbor_ctx_kind = CTX_NONE | CTX_ARRAY | CTX_MAP_KEY | CTX_MAP_VALUE | CTX_TAG

record ants_cbor_ctx =
  ctx_kind :: ants_cbor_ctx_kind
  ctx_remaining :: nat
  ctx_container_begin :: nat
  ctx_last_key_begin :: nat
  ctx_last_key_end :: nat

definition ctx_none :: ants_cbor_ctx where
  "ctx_none = \<lparr>ctx_kind = CTX_NONE, ctx_remaining = 0, ctx_container_begin = 0,
     ctx_last_key_begin = 0, ctx_last_key_end = 0\<rparr>"

record ants_cbor_enc =
  enc_buf :: bytes
  enc_pos :: nat
  enc_stack :: "ants_cbor_ctx list"
  enc_depth :: int

record ants_cbor_dec =
  dec_buf :: bytes
  dec_pos :: nat
  dec_stack :: "ants_cbor_ctx list"
  dec_depth :: int

abbreviation enc_cap :: "ants_cbor_enc \<Rightarrow> nat" where
  "enc_cap e \<equiv> length (enc_buf e)"

abbreviation dec_len :: "ants_cbor_dec \<Rightarrow> nat" where
  "dec_len d \<equiv> length (dec_buf d)"

datatype ants_cbor_type =
  TYPE_UINT | TYPE_NEGINT | TYPE_BYTES | TYPE_TEXT | TYPE_ARRAY | TYPE_MAP | TYPE_TAG | TYPE_BOOL | TYPE_NULL

section \<open>Item headers\<close>

text \<open>\<^verbatim>\<open>enc->buf[enc->pos++] = b\<close>, once and for a run of bytes.\<close>

definition put_byte :: "u8 \<Rightarrow> ants_cbor_enc \<Rightarrow> ants_cbor_enc" where
  "put_byte b e = e\<lparr>enc_buf := (enc_buf e)[enc_pos e := b], enc_pos := enc_pos e + 1\<rparr>"

fun put_bytes :: "bytes \<Rightarrow> ants_cbor_enc \<Rightarrow> ants_cbor_enc" where
  "put_bytes [] e = e"
| "put_bytes (b # bs) e = put_bytes bs (put_byte b e)"

definition cbor_write_head :: "u8 \<Rightarrow> u64 \<Rightarrow> ants_cbor_enc step" where
  "cbor_write_head major value e =
    (if major > 7 then (ANTS_ERROR_INVALID_ARG, e) else
     let initial = push_bit 5 major in
     if value < 24 then
       if enc_pos e + 1 > enc_cap e then (ANTS_ERROR_BUFFER_TOO_SMALL, e)
       else (ANTS_OK, put_byte (initial OR ucast value) e)
     else if value < 256 then
       if enc_pos e + 2 > enc_cap e then (ANTS_ERROR_BUFFER_TOO_SMALL, e)
       else (ANTS_OK, put_bytes [initial OR 24, ucast value] e)
     else if value < 65536 then
       if enc_pos e + 3 > enc_cap e then (ANTS_ERROR_BUFFER_TOO_SMALL, e)
       else (ANTS_OK, put_bytes
         [initial OR 25, ucast (drop_bit 8 value), ucast (value AND 0xff)] e)
     else if value < 0x100000000 then
       if enc_pos e + 5 > enc_cap e then (ANTS_ERROR_BUFFER_TOO_SMALL, e)
       else (ANTS_OK, put_bytes
         [initial OR 26, ucast (drop_bit 24 value), ucast (drop_bit 16 value AND 0xff),
          ucast (drop_bit 8 value AND 0xff), ucast (value AND 0xff)] e)
     else if enc_pos e + 9 > enc_cap e then (ANTS_ERROR_BUFFER_TOO_SMALL, e)
     else (ANTS_OK, put_bytes
       ((initial OR 27) # map (\<lambda>i. ucast (drop_bit (i * 8) value AND 0xff)) [7, 6, 5, 4, 3, 2, 1, 0]) e))"

definition cbor_read_head :: "(ants_cbor_dec, u8 \<times> u64) reader" where
  "cbor_read_head d =
    (if dec_pos d \<ge> dec_len d then (Inl ANTS_ERROR_MALFORMED, d) else
     let b = dec_buf d ! dec_pos d;
         major = drop_bit 5 b;
         info = b AND 0x1f;
         pos = dec_pos d + 1;
         at = (\<lambda>i. ucast (dec_buf d ! (pos + i)) :: u64) in
     if info < 24 then (Inr (major, ucast info), d\<lparr>dec_pos := pos\<rparr>)
     else if info = 24 then
       if pos + 1 > dec_len d then (Inl ANTS_ERROR_MALFORMED, d\<lparr>dec_pos := pos\<rparr>) else
       let v = at 0; d' = d\<lparr>dec_pos := pos + 1\<rparr> in
       if v < 24 then (Inl ANTS_ERROR_NON_CANONICAL, d') else (Inr (major, v), d')
     else if info = 25 then
       if pos + 2 > dec_len d then (Inl ANTS_ERROR_MALFORMED, d\<lparr>dec_pos := pos\<rparr>) else
       let v = push_bit 8 (at 0) OR at 1; d' = d\<lparr>dec_pos := pos + 2\<rparr> in
       if v < 256 then (Inl ANTS_ERROR_NON_CANONICAL, d') else (Inr (major, v), d')
     else if info = 26 then
       if pos + 4 > dec_len d then (Inl ANTS_ERROR_MALFORMED, d\<lparr>dec_pos := pos\<rparr>) else
       let v = push_bit 24 (at 0) OR push_bit 16 (at 1) OR push_bit 8 (at 2) OR at 3;
           d' = d\<lparr>dec_pos := pos + 4\<rparr> in
       if v < 65536 then (Inl ANTS_ERROR_NON_CANONICAL, d') else (Inr (major, v), d')
     else if info = 27 then
       if pos + 8 > dec_len d then (Inl ANTS_ERROR_MALFORMED, d\<lparr>dec_pos := pos\<rparr>) else
       let v = fold (\<lambda>i v. push_bit 8 v OR at i) [0, 1, 2, 3, 4, 5, 6, 7] 0;
           d' = d\<lparr>dec_pos := pos + 8\<rparr> in
       if v < 0x100000000 then (Inl ANTS_ERROR_NON_CANONICAL, d') else (Inr (major, v), d')
     else (Inl ANTS_ERROR_NON_CANONICAL, d\<lparr>dec_pos := pos\<rparr>))"

section \<open>Container tracking\<close>

definition compare_keys :: "bytes \<Rightarrow> bytes \<Rightarrow> int" where
  "compare_keys a b =
    (let min_len = (if length a < length b then length a else length b);
         c = (if min_len > 0 then memcmp a b min_len else 0) in
     if c \<noteq> 0 then c
     else if length a < length b then -1
     else if length a > length b then 1
     else 0)"

text \<open>
  The loop of \<^verbatim>\<open>enc_track_item\<close>, which \<^verbatim>\<open>dec_track_item\<close> repeats over its own
  buffer: register the item \<open>[item_begin, pos)\<close> in the innermost open container,
  close the containers it completes, and register each closed container as one item
  of its parent. \<open>Inl\<close> is the \<^verbatim>\<open>TRACK_FAIL\<close> exit, which restores depth and stack.
\<close>

function track_loop ::
  "bytes \<Rightarrow> nat \<Rightarrow> ants_cbor_ctx list \<Rightarrow> int \<Rightarrow> nat \<Rightarrow> (ants_cbor_ctx list \<times> int) res" where
  "track_loop buf pos stack depth item_begin =
    (if depth < 0 then Inr (stack, depth) else
     let ctx = stack ! nat depth in
     case ctx_kind ctx of
       CTX_ARRAY \<Rightarrow>
         if ctx_remaining ctx = 0 then Inl ANTS_ERROR_MALFORMED else
         let ctx' = ctx\<lparr>ctx_remaining := ctx_remaining ctx - 1\<rparr>;
             stack' = stack[nat depth := ctx'] in
         if ctx_remaining ctx' = 0
         then track_loop buf pos stack' (depth - 1) (ctx_container_begin ctx')
         else Inr (stack', depth)
     | CTX_MAP_KEY \<Rightarrow>
         if ctx_remaining ctx = 0 then Inl ANTS_ERROR_MALFORMED else
         if ctx_last_key_end ctx > 0 \<and>
            compare_keys (byte_range (ctx_last_key_begin ctx) (ctx_last_key_end ctx) buf)
                         (byte_range item_begin pos buf) \<ge> 0
         then Inl ANTS_ERROR_NON_CANONICAL
         else Inr (stack[nat depth := ctx\<lparr>ctx_last_key_begin := item_begin,
                ctx_last_key_end := pos, ctx_kind := CTX_MAP_VALUE\<rparr>], depth)
     | CTX_MAP_VALUE \<Rightarrow>
         if ctx_remaining ctx = 0 then Inl ANTS_ERROR_MALFORMED else
         let ctx' = ctx\<lparr>ctx_remaining := ctx_remaining ctx - 1\<rparr> in
         if ctx_remaining ctx' = 0
         then track_loop buf pos (stack[nat depth := ctx']) (depth - 1) (ctx_container_begin ctx')
         else Inr (stack[nat depth := ctx'\<lparr>ctx_kind := CTX_MAP_KEY\<rparr>], depth)
     | CTX_TAG \<Rightarrow>
         if ctx_remaining ctx = 0 then Inl ANTS_ERROR_MALFORMED else
         let ctx' = ctx\<lparr>ctx_remaining := ctx_remaining ctx - 1\<rparr>;
             stack' = stack[nat depth := ctx'] in
         if ctx_remaining ctx' = 0
         then track_loop buf pos stack' (depth - 1) (ctx_container_begin ctx')
         else Inr (stack', depth)
     | CTX_NONE \<Rightarrow> Inl ANTS_ERROR_MALFORMED)"
  by pat_completeness auto
termination
  by (relation "measure (\<lambda>(buf, pos, stack, depth, item_begin). nat (depth + 1))") auto

declare track_loop.simps [simp del]

definition enc_track_item :: "nat \<Rightarrow> ants_cbor_enc step" where
  "enc_track_item item_begin e =
    (case track_loop (enc_buf e) (enc_pos e) (enc_stack e) (enc_depth e) item_begin of
       Inl rc \<Rightarrow> (rc, e)
     | Inr (stack, depth) \<Rightarrow> (ANTS_OK, e\<lparr>enc_stack := stack, enc_depth := depth\<rparr>))"

definition dec_track_item :: "nat \<Rightarrow> ants_cbor_dec step" where
  "dec_track_item item_begin d =
    (case track_loop (dec_buf d) (dec_pos d) (dec_stack d) (dec_depth d) item_begin of
       Inl rc \<Rightarrow> (rc, d)
     | Inr (stack, depth) \<Rightarrow> (ANTS_OK, d\<lparr>dec_stack := stack, dec_depth := depth\<rparr>))"

section \<open>Encoder calls\<close>

definition ants_cbor_enc_init :: "bytes \<Rightarrow> ants_cbor_enc res" where
  "ants_cbor_enc_init buf =
    (if length buf = 0 then Inl ANTS_ERROR_INVALID_ARG
     else Inr \<lparr>enc_buf = buf, enc_pos = 0,
       enc_stack = replicate ANTS_CBOR_MAX_DEPTH ctx_none, enc_depth = -1\<rparr>)"

text \<open>The tail every encoder call ends with: track the item, undo the write if that fails.\<close>

definition enc_track_or_undo :: "nat \<Rightarrow> ants_cbor_enc step" where
  "enc_track_or_undo item_begin e =
    (case enc_track_item item_begin e of
       (rc, e') \<Rightarrow> if rc \<noteq> ANTS_OK then (rc, e'\<lparr>enc_pos := item_begin\<rparr>) else (rc, e'))"

definition ants_cbor_enc_uint :: "u64 \<Rightarrow> ants_cbor_enc step" where
  "ants_cbor_enc_uint v e =
    (let item_begin = enc_pos e in
     case cbor_write_head 0 v e of (rc, e1) \<Rightarrow>
     if rc \<noteq> ANTS_OK then (rc, e1\<lparr>enc_pos := item_begin\<rparr>)
     else enc_track_or_undo item_begin e1)"

text \<open>\<open>v\<close> is an \<^verbatim>\<open>int64_t\<close>, a 64-bit word read as two's complement.\<close>

definition ants_cbor_enc_int :: "u64 \<Rightarrow> ants_cbor_enc step" where
  "ants_cbor_enc_int v e =
    (let item_begin = enc_pos e in
     case (if sint v \<ge> 0 then cbor_write_head 0 v e else cbor_write_head 1 (NOT v) e) of (rc, e1) \<Rightarrow>
     if rc \<noteq> ANTS_OK then (rc, e1\<lparr>enc_pos := item_begin\<rparr>)
     else enc_track_or_undo item_begin e1)"

definition ants_cbor_enc_bytes :: "bytes \<Rightarrow> ants_cbor_enc step" where
  "ants_cbor_enc_bytes b e =
    (let item_begin = enc_pos e in
     case cbor_write_head 2 (of_nat (length b)) e of (rc, e1) \<Rightarrow>
     if rc \<noteq> ANTS_OK then (rc, e1\<lparr>enc_pos := item_begin\<rparr>)
     else if length b > enc_cap e1 - enc_pos e1
     then (ANTS_ERROR_BUFFER_TOO_SMALL, e1\<lparr>enc_pos := item_begin\<rparr>)
     else enc_track_or_undo item_begin (put_bytes b e1))"

definition ants_cbor_enc_text :: "bytes \<Rightarrow> ants_cbor_enc step" where
  "ants_cbor_enc_text s e =
    (let item_begin = enc_pos e in
     case cbor_write_head 3 (of_nat (length s)) e of (rc, e1) \<Rightarrow>
     if rc \<noteq> ANTS_OK then (rc, e1\<lparr>enc_pos := item_begin\<rparr>)
     else if length s > enc_cap e1 - enc_pos e1
     then (ANTS_ERROR_BUFFER_TOO_SMALL, e1\<lparr>enc_pos := item_begin\<rparr>)
     else enc_track_or_undo item_begin (put_bytes s e1))"

text \<open>\<^verbatim>\<open>depth++\<close> followed by the five assignments that open a context.\<close>

definition enc_push_ctx :: "ants_cbor_ctx_kind \<Rightarrow> nat \<Rightarrow> nat \<Rightarrow> ants_cbor_enc \<Rightarrow> ants_cbor_enc" where
  "enc_push_ctx k n item_begin e =
    e\<lparr>enc_depth := enc_depth e + 1,
      enc_stack := (enc_stack e)[nat (enc_depth e + 1) :=
        \<lparr>ctx_kind = k, ctx_remaining = n, ctx_container_begin = item_begin,
         ctx_last_key_begin = 0, ctx_last_key_end = 0\<rparr>]\<rparr>"

definition ants_cbor_enc_array :: "nat \<Rightarrow> ants_cbor_enc step" where
  "ants_cbor_enc_array n e =
    (let item_begin = enc_pos e in
     case cbor_write_head 4 (of_nat n) e of (rc, e1) \<Rightarrow>
     if rc \<noteq> ANTS_OK then (rc, e1\<lparr>enc_pos := item_begin\<rparr>)
     else if n = 0 then enc_track_or_undo item_begin e1
     else if enc_depth e1 + 1 \<ge> int ANTS_CBOR_MAX_DEPTH
     then (ANTS_ERROR_OVERFLOW, e1\<lparr>enc_pos := item_begin\<rparr>)
     else (ANTS_OK, enc_push_ctx CTX_ARRAY n item_begin e1))"

definition ants_cbor_enc_map :: "nat \<Rightarrow> ants_cbor_enc step" where
  "ants_cbor_enc_map n e =
    (let item_begin = enc_pos e in
     case cbor_write_head 5 (of_nat n) e of (rc, e1) \<Rightarrow>
     if rc \<noteq> ANTS_OK then (rc, e1\<lparr>enc_pos := item_begin\<rparr>)
     else if n = 0 then enc_track_or_undo item_begin e1
     else if enc_depth e1 + 1 \<ge> int ANTS_CBOR_MAX_DEPTH
     then (ANTS_ERROR_OVERFLOW, e1\<lparr>enc_pos := item_begin\<rparr>)
     else (ANTS_OK, enc_push_ctx CTX_MAP_KEY n item_begin e1))"

definition ants_cbor_enc_bool :: "bool \<Rightarrow> ants_cbor_enc step" where
  "ants_cbor_enc_bool v e =
    (let item_begin = enc_pos e in
     if enc_pos e + 1 > enc_cap e then (ANTS_ERROR_BUFFER_TOO_SMALL, e)
     else enc_track_or_undo item_begin (put_byte (if v then 0xf5 else 0xf4) e))"

definition ants_cbor_enc_null :: "ants_cbor_enc step" where
  "ants_cbor_enc_null e =
    (let item_begin = enc_pos e in
     if enc_pos e + 1 > enc_cap e then (ANTS_ERROR_BUFFER_TOO_SMALL, e)
     else enc_track_or_undo item_begin (put_byte 0xf6 e))"

definition ants_cbor_enc_tag :: "u64 \<Rightarrow> ants_cbor_enc step" where
  "ants_cbor_enc_tag tag e =
    (if tag \<noteq> 0 \<and> tag \<noteq> 32 \<and> tag \<noteq> 42 then (ANTS_ERROR_UNSUPPORTED_TYPE, e)
     else if enc_depth e + 1 \<ge> int ANTS_CBOR_MAX_DEPTH then (ANTS_ERROR_OVERFLOW, e)
     else let item_begin = enc_pos e in
     case cbor_write_head 6 tag e of (rc, e1) \<Rightarrow>
     if rc \<noteq> ANTS_OK then (rc, e1\<lparr>enc_pos := item_begin\<rparr>)
     else (ANTS_OK, enc_push_ctx CTX_TAG 1 item_begin e1))"

definition ants_cbor_enc_size :: "ants_cbor_enc \<Rightarrow> nat" where
  "ants_cbor_enc_size e = enc_pos e"

definition ants_cbor_enc_finalise :: "ants_cbor_enc \<Rightarrow> ants_error" where
  "ants_cbor_enc_finalise e =
    (if enc_depth e \<noteq> -1 then ANTS_ERROR_MALFORMED
     else if enc_pos e = 0 then ANTS_ERROR_MALFORMED
     else ANTS_OK)"

section \<open>Decoder calls\<close>

definition SIZE_MAX :: u64 where
  "SIZE_MAX = 0xffffffffffffffff"

definition INT64_MAX :: u64 where
  "INT64_MAX = 0x7fffffffffffffff"

definition ants_cbor_dec_init :: "bytes \<Rightarrow> ants_cbor_dec" where
  "ants_cbor_dec_init buf =
    \<lparr>dec_buf = buf, dec_pos = 0, dec_stack = replicate ANTS_CBOR_MAX_DEPTH ctx_none, dec_depth = -1\<rparr>"

definition ants_cbor_dec_peek_type :: "ants_cbor_dec \<Rightarrow> ants_cbor_type res" where
  "ants_cbor_dec_peek_type d =
    (if dec_pos d \<ge> dec_len d then Inl ANTS_ERROR_MALFORMED else
     let b = dec_buf d ! dec_pos d; major = drop_bit 5 b; info = b AND 0x1f in
     if major = 0 then Inr TYPE_UINT
     else if major = 1 then Inr TYPE_NEGINT
     else if major = 2 then Inr TYPE_BYTES
     else if major = 3 then Inr TYPE_TEXT
     else if major = 4 then Inr TYPE_ARRAY
     else if major = 5 then Inr TYPE_MAP
     else if major = 6 then Inr TYPE_TAG
     else if major = 7 then
       if info = 20 \<or> info = 21 then Inr TYPE_BOOL
       else if info = 22 then Inr TYPE_NULL
       else Inl ANTS_ERROR_UNSUPPORTED_TYPE
     else Inl ANTS_ERROR_MALFORMED)"

definition ants_cbor_dec_uint :: "(ants_cbor_dec, u64) reader" where
  "ants_cbor_dec_uint d =
    (let saved = dec_pos d in
     case cbor_read_head d of
       (Inl e, d1) \<Rightarrow> (Inl e, d1\<lparr>dec_pos := saved\<rparr>)
     | (Inr (major, value), d1) \<Rightarrow>
         if major \<noteq> 0 then (Inl ANTS_ERROR_UNSUPPORTED_TYPE, d1\<lparr>dec_pos := saved\<rparr>)
         else case dec_track_item saved d1 of (rc, d2) \<Rightarrow>
         if rc \<noteq> ANTS_OK then (Inl rc, d2\<lparr>dec_pos := saved\<rparr>) else (Inr value, d2))"

text \<open>The \<^verbatim>\<open>int64_t\<close> delivered is again a 64-bit word, to be read with \<open>sint\<close>.\<close>

definition ants_cbor_dec_int :: "(ants_cbor_dec, u64) reader" where
  "ants_cbor_dec_int d =
    (let saved = dec_pos d in
     case cbor_read_head d of
       (Inl e, d1) \<Rightarrow> (Inl e, d1\<lparr>dec_pos := saved\<rparr>)
     | (Inr (major, value), d1) \<Rightarrow>
         if major \<noteq> 0 \<and> major \<noteq> 1 then (Inl ANTS_ERROR_UNSUPPORTED_TYPE, d1\<lparr>dec_pos := saved\<rparr>)
         else if value > INT64_MAX then (Inl ANTS_ERROR_OVERFLOW, d1\<lparr>dec_pos := saved\<rparr>)
         else let result = (if major = 0 then value else -1 - value) in
         case dec_track_item saved d1 of (rc, d2) \<Rightarrow>
         if rc \<noteq> ANTS_OK then (Inl rc, d2\<lparr>dec_pos := saved\<rparr>) else (Inr result, d2))"

definition ants_cbor_dec_bytes :: "(ants_cbor_dec, bytes) reader" where
  "ants_cbor_dec_bytes d =
    (let saved = dec_pos d in
     case cbor_read_head d of
       (Inl e, d1) \<Rightarrow> (Inl e, d1\<lparr>dec_pos := saved\<rparr>)
     | (Inr (major, value), d1) \<Rightarrow>
         if major \<noteq> 2 then (Inl ANTS_ERROR_UNSUPPORTED_TYPE, d1\<lparr>dec_pos := saved\<rparr>)
         else if value > SIZE_MAX then (Inl ANTS_ERROR_OVERFLOW, d1\<lparr>dec_pos := saved\<rparr>)
         else let len = unat value in
         if len > dec_len d1 - dec_pos d1 then (Inl ANTS_ERROR_MALFORMED, d1\<lparr>dec_pos := saved\<rparr>)
         else let bp = take len (drop (dec_pos d1) (dec_buf d1)) in
         case dec_track_item saved (d1\<lparr>dec_pos := dec_pos d1 + len\<rparr>) of (rc, d2) \<Rightarrow>
         if rc \<noteq> ANTS_OK then (Inl rc, d2\<lparr>dec_pos := saved\<rparr>) else (Inr bp, d2))"

definition ants_cbor_dec_text :: "(ants_cbor_dec, bytes) reader" where
  "ants_cbor_dec_text d =
    (let saved = dec_pos d in
     case cbor_read_head d of
       (Inl e, d1) \<Rightarrow> (Inl e, d1\<lparr>dec_pos := saved\<rparr>)
     | (Inr (major, value), d1) \<Rightarrow>
         if major \<noteq> 3 then (Inl ANTS_ERROR_UNSUPPORTED_TYPE, d1\<lparr>dec_pos := saved\<rparr>)
         else if value > SIZE_MAX then (Inl ANTS_ERROR_OVERFLOW, d1\<lparr>dec_pos := saved\<rparr>)
         else let len = unat value in
         if len > dec_len d1 - dec_pos d1 then (Inl ANTS_ERROR_MALFORMED, d1\<lparr>dec_pos := saved\<rparr>)
         else let bp = take len (drop (dec_pos d1) (dec_buf d1)) in
         case dec_track_item saved (d1\<lparr>dec_pos := dec_pos d1 + len\<rparr>) of (rc, d2) \<Rightarrow>
         if rc \<noteq> ANTS_OK then (Inl rc, d2\<lparr>dec_pos := saved\<rparr>) else (Inr bp, d2))"

definition dec_push_ctx :: "ants_cbor_ctx_kind \<Rightarrow> nat \<Rightarrow> nat \<Rightarrow> ants_cbor_dec \<Rightarrow> ants_cbor_dec" where
  "dec_push_ctx k n saved d =
    d\<lparr>dec_depth := dec_depth d + 1,
      dec_stack := (dec_stack d)[nat (dec_depth d + 1) :=
        \<lparr>ctx_kind = k, ctx_remaining = n, ctx_container_begin = saved,
         ctx_last_key_begin = 0, ctx_last_key_end = 0\<rparr>]\<rparr>"

definition ants_cbor_dec_array :: "(ants_cbor_dec, nat) reader" where
  "ants_cbor_dec_array d =
    (let saved = dec_pos d in
     case cbor_read_head d of
       (Inl e, d1) \<Rightarrow> (Inl e, d1\<lparr>dec_pos := saved\<rparr>)
     | (Inr (major, value), d1) \<Rightarrow>
         if major \<noteq> 4 then (Inl ANTS_ERROR_UNSUPPORTED_TYPE, d1\<lparr>dec_pos := saved\<rparr>)
         else if value > SIZE_MAX then (Inl ANTS_ERROR_OVERFLOW, d1\<lparr>dec_pos := saved\<rparr>)
         else let n = unat value in
         if n = 0 then
           case dec_track_item saved d1 of (rc, d2) \<Rightarrow>
           if rc \<noteq> ANTS_OK then (Inl rc, d2\<lparr>dec_pos := saved\<rparr>) else (Inr 0, d2)
         else if dec_depth d1 + 1 \<ge> int ANTS_CBOR_MAX_DEPTH
         then (Inl ANTS_ERROR_OVERFLOW, d1\<lparr>dec_pos := saved\<rparr>)
         else (Inr n, dec_push_ctx CTX_ARRAY n saved d1))"

definition ants_cbor_dec_map :: "(ants_cbor_dec, nat) reader" where
  "ants_cbor_dec_map d =
    (let saved = dec_pos d in
     case cbor_read_head d of
       (Inl e, d1) \<Rightarrow> (Inl e, d1\<lparr>dec_pos := saved\<rparr>)
     | (Inr (major, value), d1) \<Rightarrow>
         if major \<noteq> 5 then (Inl ANTS_ERROR_UNSUPPORTED_TYPE, d1\<lparr>dec_pos := saved\<rparr>)
         else if value > SIZE_MAX then (Inl ANTS_ERROR_OVERFLOW, d1\<lparr>dec_pos := saved\<rparr>)
         else let n = unat value in
         if n = 0 then
           case dec_track_item saved d1 of (rc, d2) \<Rightarrow>
           if rc \<noteq> ANTS_OK then (Inl rc, d2\<lparr>dec_pos := saved\<rparr>) else (Inr 0, d2)
         else if dec_depth d1 + 1 \<ge> int ANTS_CBOR_MAX_DEPTH
         then (Inl ANTS_ERROR_OVERFLOW, d1\<lparr>dec_pos := saved\<rparr>)
         else (Inr n, dec_push_ctx CTX_MAP_KEY n saved d1))"

definition ants_cbor_dec_tag :: "(ants_cbor_dec, u64) reader" where
  "ants_cbor_dec_tag d =
    (let saved = dec_pos d in
     case cbor_read_head d of
       (Inl e, d1) \<Rightarrow> (Inl e, d1\<lparr>dec_pos := saved\<rparr>)
     | (Inr (major, value), d1) \<Rightarrow>
         if major \<noteq> 6 then (Inl ANTS_ERROR_UNSUPPORTED_TYPE, d1\<lparr>dec_pos := saved\<rparr>)
         else if value \<noteq> 0 \<and> value \<noteq> 32 \<and> value \<noteq> 42
         then (Inl ANTS_ERROR_UNSUPPORTED_TYPE, d1\<lparr>dec_pos := saved\<rparr>)
         else if dec_depth d1 + 1 \<ge> int ANTS_CBOR_MAX_DEPTH
         then (Inl ANTS_ERROR_OVERFLOW, d1\<lparr>dec_pos := saved\<rparr>)
         else (Inr value, dec_push_ctx CTX_TAG 1 saved d1))"

definition ants_cbor_dec_bool :: "(ants_cbor_dec, bool) reader" where
  "ants_cbor_dec_bool d =
    (let saved = dec_pos d in
     if dec_pos d + 1 > dec_len d then (Inl ANTS_ERROR_MALFORMED, d) else
     let b = dec_buf d ! dec_pos d in
     if b \<noteq> 0xf4 \<and> b \<noteq> 0xf5 then (Inl ANTS_ERROR_UNSUPPORTED_TYPE, d) else
     let v = (b = 0xf5) in
     case dec_track_item saved (d\<lparr>dec_pos := dec_pos d + 1\<rparr>) of (rc, d2) \<Rightarrow>
     if rc \<noteq> ANTS_OK then (Inl rc, d2\<lparr>dec_pos := saved\<rparr>) else (Inr v, d2))"

definition ants_cbor_dec_null :: "(ants_cbor_dec, unit) reader" where
  "ants_cbor_dec_null d =
    (let saved = dec_pos d in
     if dec_pos d + 1 > dec_len d then (Inl ANTS_ERROR_MALFORMED, d) else
     if dec_buf d ! dec_pos d \<noteq> 0xf6 then (Inl ANTS_ERROR_UNSUPPORTED_TYPE, d) else
     case dec_track_item saved (d\<lparr>dec_pos := dec_pos d + 1\<rparr>) of (rc, d2) \<Rightarrow>
     if rc \<noteq> ANTS_OK then (Inl rc, d2\<lparr>dec_pos := saved\<rparr>) else (Inr (), d2))"

definition ants_cbor_dec_pos :: "ants_cbor_dec \<Rightarrow> nat" where
  "ants_cbor_dec_pos d = dec_pos d"

definition ants_cbor_dec_eof :: "ants_cbor_dec \<Rightarrow> bool" where
  "ants_cbor_dec_eof d = (dec_pos d \<ge> dec_len d)"

definition ants_cbor_dec_finalise :: "ants_cbor_dec \<Rightarrow> ants_error" where
  "ants_cbor_dec_finalise d =
    (if dec_depth d \<noteq> -1 then ANTS_ERROR_MALFORMED
     else if dec_pos d \<noteq> dec_len d then ANTS_ERROR_MALFORMED
     else ANTS_OK)"

section \<open>The whole-document validator\<close>

text \<open>
  \<^verbatim>\<open>walk_one_item\<close> recurses into containers. The fuel bounds the nesting; \<open>None\<close> is
  fuel exhausted, and \<open>Cbor_Canonical\<close> shows that one unit more than the bytes left is
  always enough. \<open>walk_items n\<close> is the loop over the items of a container; the loop
  over the pairs of a map walks a key and a value per turn, which is \<open>2 * n\<close> items.
\<close>

definition rc_step :: "('s, 'a) reader \<Rightarrow> 's step" where
  "rc_step m s = (case m s of (r, s') \<Rightarrow> (rc_of r, s'))"

function walk_one_item :: "nat \<Rightarrow> ants_cbor_dec \<Rightarrow> (ants_error \<times> ants_cbor_dec) option"
  and walk_items :: "nat \<Rightarrow> nat \<Rightarrow> ants_cbor_dec \<Rightarrow> (ants_error \<times> ants_cbor_dec) option" where
  "walk_one_item 0 d = None"
| "walk_one_item (Suc fuel) d =
    (if ants_cbor_dec_eof d then Some (ANTS_ERROR_MALFORMED, d) else
     case ants_cbor_dec_peek_type d of
       Inl e \<Rightarrow> Some (e, d)
     | Inr TYPE_UINT \<Rightarrow> Some (rc_step ants_cbor_dec_uint d)
     | Inr TYPE_NEGINT \<Rightarrow> Some (rc_step ants_cbor_dec_int d)
     | Inr TYPE_BYTES \<Rightarrow> Some (rc_step ants_cbor_dec_bytes d)
     | Inr TYPE_TEXT \<Rightarrow> Some (rc_step ants_cbor_dec_text d)
     | Inr TYPE_ARRAY \<Rightarrow>
         (case ants_cbor_dec_array d of
            (Inl e, d1) \<Rightarrow> Some (e, d1)
          | (Inr n, d1) \<Rightarrow> walk_items fuel n d1)
     | Inr TYPE_MAP \<Rightarrow>
         (case ants_cbor_dec_map d of
            (Inl e, d1) \<Rightarrow> Some (e, d1)
          | (Inr n, d1) \<Rightarrow> walk_items fuel (2 * n) d1)
     | Inr TYPE_TAG \<Rightarrow>
         (case ants_cbor_dec_tag d of
            (Inl e, d1) \<Rightarrow> Some (e, d1)
          | (Inr tag, d1) \<Rightarrow> walk_one_item fuel d1)
     | Inr TYPE_BOOL \<Rightarrow> Some (rc_step ants_cbor_dec_bool d)
     | Inr TYPE_NULL \<Rightarrow> Some (rc_step ants_cbor_dec_null d))"
| "walk_items fuel 0 d = Some (ANTS_OK, d)"
| "walk_items fuel (Suc n) d =
    (case walk_one_item fuel d of
       None \<Rightarrow> None
     | Some (rc, d1) \<Rightarrow> if rc \<noteq> ANTS_OK then Some (rc, d1) else walk_items fuel n d1)"
  by pat_completeness auto
termination
  by (relation "measures [\<lambda>x. case x of Inl (fuel, d) \<Rightarrow> fuel | Inr (fuel, n, d) \<Rightarrow> fuel,
                          \<lambda>x. case x of Inl (fuel, d) \<Rightarrow> 0 | Inr (fuel, n, d) \<Rightarrow> Suc n]") auto

definition ants_cbor_is_canonical :: "bytes \<Rightarrow> ants_error" where
  "ants_cbor_is_canonical buf =
    (if length buf = 0 then ANTS_ERROR_MALFORMED else
     case walk_one_item (Suc (length buf)) (ants_cbor_dec_init buf) of
       None \<Rightarrow> ANTS_ERROR_MALFORMED
     | Some (rc, d) \<Rightarrow>
         if rc \<noteq> ANTS_OK then rc
         else if \<not> ants_cbor_dec_eof d then ANTS_ERROR_MALFORMED
         else if dec_depth d \<noteq> -1 then ANTS_ERROR_MALFORMED
         else ANTS_OK)"

end
