(* ===== verification/Cbor_Head.thy ===== *)
theory Cbor_Head
  imports Cbor_Codec
begin

text \<open>
  Item headers. \<open>head_bytes\<close> is the one shortest-form header of a major type and a
  value; \<^verbatim>\<open>cbor_write_head\<close> writes exactly it, and \<^verbatim>\<open>cbor_read_head\<close> accepts exactly it.
\<close>

section \<open>The reference header\<close>

primrec be_bytes :: "nat \<Rightarrow> u64 \<Rightarrow> bytes" where
  "be_bytes 0 v = []"
| "be_bytes (Suc n) v = be_bytes n (drop_bit 8 v) @ [ucast v]"

definition head_bytes :: "u8 \<Rightarrow> u64 \<Rightarrow> bytes" where
  "head_bytes major v =
    (let i = push_bit 5 major in
     if v < 24 then [i OR ucast v]
     else if v < 256 then (i OR 24) # be_bytes 1 v
     else if v < 65536 then (i OR 25) # be_bytes 2 v
     else if v < 0x100000000 then (i OR 26) # be_bytes 4 v
     else (i OR 27) # be_bytes 8 v)"

lemma be_bytes_code:
  "be_bytes (Suc 0) v = [ucast v]"
  "be_bytes 1 v = [ucast v]"
  "be_bytes 2 v = [ucast (drop_bit 8 v), ucast v]"
  "be_bytes 4 v = [ucast (drop_bit 24 v), ucast (drop_bit 16 v), ucast (drop_bit 8 v), ucast v]"
  "be_bytes 8 v = [ucast (drop_bit 56 v), ucast (drop_bit 48 v), ucast (drop_bit 40 v),
     ucast (drop_bit 32 v), ucast (drop_bit 24 v), ucast (drop_bit 16 v), ucast (drop_bit 8 v), ucast v]"
  by (simp_all add: numeral_eq_Suc drop_bit_drop_bit)

lemma length_be_bytes [simp]: "length (be_bytes n v) = n"
  by (induction n arbitrary: v) simp_all

lemma length_head_bytes:
  "length (head_bytes m v) =
    (if v < 24 then 1 else if v < 256 then 2 else if v < 65536 then 3
     else if v < 0x100000000 then 5 else 9)"
  by (simp add: head_bytes_def Let_def)

lemma head_bytes_nonempty [simp]: "head_bytes m v \<noteq> []"
  by (simp add: head_bytes_def Let_def)

lemma length_head_bytes_pos [simp]: "0 < length (head_bytes m v)"
  by simp

lemma length_head_bytes_le: "length (head_bytes m v) \<le> 9"
  by (simp add: length_head_bytes)

section \<open>Bit facts\<close>

lemma bit_above: "(x :: 'a::len word) < 2 ^ n \<Longrightarrow> n \<le> k \<Longrightarrow> \<not> bit x k"
proof
  assume x: "x < 2 ^ n" and k: "n \<le> k" and b: "bit x k"
  have "x AND mask n = x" using x by (rule less_mask_eq)
  then have "bit (x AND mask n) k" using b by simp
  then show False using k by (simp add: bit_simps)
qed

lemma ucast_low_byte: "(ucast (x AND 0xff) :: u8) = ucast (x :: u64)"
proof (rule bit_word_eqI)
  fix n assume "n < LENGTH(8)"
  moreover have "bit (0xff :: u64) n \<longleftrightarrow> n < 8"
    using bit_mask_iff [where 'a="64 word", of 8 n] by (auto simp: mask_eq_exp_minus_1)
  ultimately show "bit (ucast (x AND 0xff) :: u8) n = bit (ucast x :: u8) n"
    by (simp add: bit_simps)
qed

lemma bit_31: "bit (31 :: u8) n \<longleftrightarrow> n < 5"
  using bit_mask_iff [where 'a="8 word", of 5 n] by (auto simp: mask_eq_exp_minus_1)

lemma initial_major:
  assumes "major \<le> (7 :: u8)" "info < (32 :: u8)"
  shows "drop_bit 5 (push_bit 5 major OR info) = major"
    and "(push_bit 5 major OR info) AND 0x1f = info"
proof -
  have m: "\<not> bit major k" if "3 \<le> k" for k
    using bit_above [of major 3 k] assms(1) that by (simp add: word_less_nat_alt word_le_nat_alt)
  have i: "\<not> bit info k" if "5 \<le> k" for k
    using bit_above [of info 5 k] assms(2) that by simp
  show "drop_bit 5 (push_bit 5 major OR info) = major"
  proof (rule bit_word_eqI)
    fix n assume "n < LENGTH(8)"
    then show "bit (drop_bit 5 (push_bit 5 major OR info)) n = bit major n"
      using m [of n] i [of "5 + n"] by (cases "n < 3") (simp_all add: bit_simps)
  qed
  show "(push_bit 5 major OR info) AND 0x1f = info"
  proof (rule bit_word_eqI)
    fix n assume "n < LENGTH(8)"
    then show "bit ((push_bit 5 major OR info) AND 0x1f) n = bit info n"
      using i [of n] bit_31 [of n] by (cases "n < 5") (simp_all add: bit_simps)
  qed
qed

lemma initial_split: "push_bit 5 (drop_bit 5 b) OR (b AND 0x1f) = (b :: u8)"
proof (rule bit_word_eqI)
  fix n assume "n < LENGTH(8)"
  then show "bit (push_bit 5 (drop_bit 5 b) OR (b AND 0x1f)) n = bit b n"
    using bit_31 [of n] by (cases "5 \<le> n") (auto simp: bit_simps)
qed

lemma drop_bit_5_le_7: "drop_bit 5 (b :: u8) \<le> 7"
proof -
  have "unat (drop_bit 5 b) = unat b div 32"
    by (simp only: unat_drop_bit_eq) (simp add: drop_bit_eq_div)
  moreover have "unat b < 256" using unsigned_less [of b, where 'a=nat] by simp
  ultimately have "unat (drop_bit 5 b) \<le> 7" by simp
  then show ?thesis by (simp add: word_le_nat_alt)
qed

lemma info_less_32: "(b :: u8) AND 0x1f < 32"
proof -
  have "b AND 0x1f \<le> 0x1f" by (rule word_and_le1)
  then show ?thesis by (simp add: word_less_nat_alt word_le_nat_alt)
qed

lemma byte_ucast_bit: "bit (ucast (b :: u8) :: u64) n \<longleftrightarrow> bit b n"
  using bit_imp_le_length [of b n] by (auto simp: bit_simps)

lemma byte_high: "8 \<le> n \<Longrightarrow> \<not> bit (b :: u8) n"
  using bit_imp_le_length [of b n] by auto

section \<open>Writing a header\<close>

lemma put_bytes_append: "put_bytes (xs @ ys) e = put_bytes ys (put_bytes xs e)"
  by (induction xs arbitrary: e) simp_all

lemma put_bytes_fields [simp]:
  "enc_stack (put_bytes bs e) = enc_stack e"
  "enc_depth (put_bytes bs e) = enc_depth e"
  "enc_pos (put_bytes bs e) = enc_pos e + length bs"
  "length (enc_buf (put_bytes bs e)) = length (enc_buf e)"
  by (induction bs arbitrary: e) (simp_all add: put_byte_def)

lemma put_bytes_written:
  "enc_pos e + length bs \<le> enc_cap e \<Longrightarrow>
   take (enc_pos e + length bs) (enc_buf (put_bytes bs e)) = take (enc_pos e) (enc_buf e) @ bs"
proof (induction bs arbitrary: e)
  case (Cons b bs)
  then show ?case
    using Cons.IH [of "put_byte b e"] by (simp add: put_byte_def take_list_update_snoc)
qed simp

lemma put_byte_as_bytes: "put_byte b e = put_bytes [b] e"
  by simp

lemma head_value_cases:
  fixes v :: u64
  obtains "v < 24" | "\<not> v < 24" "v < 256" | "\<not> v < 24" "\<not> v < 256" "v < 65536"
    | "\<not> v < 24" "\<not> v < 256" "\<not> v < 65536" "v < 0x100000000"
    | "\<not> v < 24" "\<not> v < 256" "\<not> v < 65536" "\<not> v < 0x100000000"
  by blast

lemma cbor_write_head_eq:
  assumes "major \<le> 7"
  shows "cbor_write_head major v e =
    (if enc_pos e + length (head_bytes major v) > enc_cap e then (ANTS_ERROR_BUFFER_TOO_SMALL, e)
     else (ANTS_OK, put_bytes (head_bytes major v) e))"
proof -
  have "\<not> 7 < major" using assms by simp
  then show ?thesis
    by (cases v rule: head_value_cases)
      (simp_all add: cbor_write_head_def head_bytes_def be_bytes_code ucast_low_byte Let_def)
qed

section \<open>Reading a header\<close>

definition dec_rest :: "ants_cbor_dec \<Rightarrow> bytes" where
  "dec_rest d = drop (dec_pos d) (dec_buf d)"

definition be_value :: "bytes \<Rightarrow> u64" where
  "be_value bs = fold (\<lambda>b v. push_bit 8 v OR ucast b) bs 0"

lemma be_value_simps:
  "be_value [] = 0"
  "be_value (bs @ [b]) = push_bit 8 (be_value bs) OR ucast b"
  by (simp_all add: be_value_def)

lemma byte_step:
  "push_bit 8 (take_bit n (drop_bit 8 v)) OR ucast (ucast v :: u8) = take_bit (n + 8) (v :: u64)"
proof (rule bit_word_eqI)
  fix k assume "k < LENGTH(64)"
  then show "bit (push_bit 8 (take_bit n (drop_bit 8 v)) OR ucast (ucast v :: u8)) k = bit (take_bit (n + 8) v) k"
    by (cases "k < 8") (auto simp: bit_simps)
qed

lemma be_value_be_bytes: "be_value (be_bytes n v) = take_bit (8 * n) v"
proof (induction n arbitrary: v)
  case 0
  then show ?case by (simp add: be_value_simps)
next
  case (Suc n)
  then show ?case
    using byte_step [of "8 * n" v] by (simp add: be_value_simps add.commute)
qed

lemma byte_unstep:
  "drop_bit 8 (push_bit 8 x OR ucast (b :: u8)) = take_bit 56 (x :: u64)"
  "ucast (push_bit 8 x OR ucast (b :: u8)) = b"
proof -
  show "drop_bit 8 (push_bit 8 x OR ucast b) = take_bit 56 x"
  proof (rule bit_word_eqI)
    fix k assume "k < LENGTH(64)"
    then show "bit (drop_bit 8 (push_bit 8 x OR ucast b)) k = bit (take_bit 56 x) k"
      using byte_high [of "8 + k" b] by (auto simp: bit_simps)
  qed
  show "ucast (push_bit 8 x OR ucast b) = b"
    by (rule bit_word_eqI) (auto simp: bit_simps)
qed

lemma be_value_bound: "take_bit (8 * length bs) (be_value bs) = be_value bs"
proof (induction bs rule: rev_induct)
  case Nil
  then show ?case by (simp add: be_value_simps)
next
  case (snoc b bs)
  have "take_bit (8 * length (bs @ [b])) (push_bit 8 (take_bit (8 * length bs) (be_value bs)) OR ucast b)
      = push_bit 8 (take_bit (8 * length bs) (be_value bs)) OR ucast b"
    by (rule bit_word_eqI) (use byte_high [of _ b] in \<open>auto simp: bit_simps not_less\<close>)
  then show ?case using snoc by (simp add: be_value_simps)
qed

lemma be_bytes_be_value: "length bs \<le> 8 \<Longrightarrow> be_bytes (length bs) (be_value bs) = bs"
proof (induction bs rule: rev_induct)
  case Nil
  then show ?case by simp
next
  case (snoc b bs)
  have "take_bit 56 (be_value bs) = take_bit 56 (take_bit (8 * length bs) (be_value bs))"
    by (simp only: be_value_bound)
  also have "\<dots> = take_bit (8 * length bs) (be_value bs)"
    using snoc.prems by (simp only: take_bit_take_bit) (simp add: min_def)
  also have "\<dots> = be_value bs" by (rule be_value_bound)
  finally have "drop_bit 8 (be_value (bs @ [b])) = be_value bs" "ucast (be_value (bs @ [b])) = b"
    by (simp_all only: be_value_simps byte_unstep)
  then show ?case using snoc by simp
qed

lemma take_bit_below: "(v :: 'a::len word) < 2 ^ n \<Longrightarrow> take_bit n v = v"
  by (simp add: take_bit_eq_mask less_mask_eq)

lemma be_value_less: "n = length bs \<Longrightarrow> n < 8 \<Longrightarrow> be_value bs < 2 ^ (8 * n)"
  using and_mask_less_size [of "8 * n" "be_value bs"] be_value_bound [of bs]
  by (simp add: take_bit_eq_mask word_size)

lemma be_value_4:
  "be_value [b0, b1, b2, b3] =
     push_bit 24 (ucast b0) OR push_bit 16 (ucast b1) OR push_bit 8 (ucast b2) OR ucast b3"
proof -
  have "be_value [b0, b1, b2, b3] =
      push_bit 8 (push_bit 8 (push_bit 8 (ucast b0) OR ucast b1) OR ucast b2) OR ucast b3"
    by (simp add: be_value_def)
  then show ?thesis
    by (simp only: push_bit_or push_bit_push_bit or.assoc) simp
qed

text \<open>The reader as a function of the unread bytes.\<close>

lemma cbor_read_head_rest:
  assumes "dec_rest d = b # r"
  shows "cbor_read_head d =
    (let major = drop_bit 5 b; info = b AND 0x1f; pos = dec_pos d + 1;
         long = (\<lambda>n least.
           if length r < n then (Inl ANTS_ERROR_MALFORMED, d\<lparr>dec_pos := pos\<rparr>)
           else let v = be_value (take n r); d' = d\<lparr>dec_pos := pos + n\<rparr> in
             if v < least then (Inl ANTS_ERROR_NON_CANONICAL, d') else (Inr (major, v), d')) in
     if info < 24 then (Inr (major, ucast info), d\<lparr>dec_pos := pos\<rparr>)
     else if info = 24 then long 1 24
     else if info = 25 then long 2 256
     else if info = 26 then long 4 65536
     else if info = 27 then long 8 0x100000000
     else (Inl ANTS_ERROR_NON_CANONICAL, d\<lparr>dec_pos := pos\<rparr>))"
proof -
  define p where "p = take (dec_pos d) (dec_buf d)"
  have pos: "dec_pos d = length p" and buf: "dec_buf d = p @ b # r"
    using assms by (auto simp: p_def dec_rest_def min_def) (metis append_take_drop_id)+
  have nth: "(p @ b # r) ! (length p + 1 + i) = r ! i" for i
    by (simp add: nth_append)
  consider (short) "b AND 0x1f < 24" | (w1) "b AND 0x1f = 24" | (w2) "b AND 0x1f = 25"
    | (w4) "b AND 0x1f = 26" | (w8) "b AND 0x1f = 27"
    | (other) "\<not> b AND 0x1f < 24" "b AND 0x1f \<noteq> 24" "b AND 0x1f \<noteq> 25" "b AND 0x1f \<noteq> 26" "b AND 0x1f \<noteq> 27"
    by blast
  then show ?thesis
  proof cases
    case w1
    then show ?thesis
      unfolding cbor_read_head_def Let_def pos buf nth by (cases r) (simp_all add: be_value_def)
  next
    case w2
    show ?thesis
    proof (cases "length r < 2")
      case True
      with w2 show ?thesis unfolding cbor_read_head_def Let_def pos buf by simp
    next
      case False
      then obtain b0 b1 r' where "r = b0 # b1 # r'"
        by (auto simp: not_less numeral_eq_Suc Suc_le_length_iff)
      with w2 show ?thesis
        unfolding cbor_read_head_def Let_def pos buf nth by (simp add: be_value_def)
    qed
  next
    case w4
    show ?thesis
    proof (cases "length r < 4")
      case True
      with w4 show ?thesis unfolding cbor_read_head_def Let_def pos buf by simp
    next
      case False
      then obtain b0 b1 b2 b3 r' where "r = b0 # b1 # b2 # b3 # r'"
        by (auto simp: not_less numeral_eq_Suc Suc_le_length_iff)
      with w4 show ?thesis
        unfolding cbor_read_head_def Let_def pos buf nth by (simp add: be_value_4)
    qed
  next
    case w8
    show ?thesis
    proof (cases "length r < 8")
      case True
      with w8 show ?thesis unfolding cbor_read_head_def Let_def pos buf by simp
    next
      case False
      then obtain b0 b1 b2 b3 b4 b5 b6 b7 r' where "r = b0 # b1 # b2 # b3 # b4 # b5 # b6 # b7 # r'"
        by (auto simp: not_less numeral_eq_Suc Suc_le_length_iff)
      with w8 show ?thesis
        unfolding cbor_read_head_def Let_def pos buf nth by (simp add: be_value_def)
    qed
  qed (simp_all add: cbor_read_head_def pos buf Let_def)
qed

text \<open>
  The four long forms: the additional-information value, the number of value bytes
  that follow, and the least value the form is the shortest one for.
\<close>

definition head_forms :: "(u8 \<times> nat \<times> u64) set" where
  "head_forms = {(24, 1, 24), (25, 2, 256), (26, 4, 65536), (27, 8, 0x100000000)}"

lemma head_forms_bounds: "(info, n, least) \<in> head_forms \<Longrightarrow> \<not> info < 24 \<and> info < 32 \<and> n \<le> 8"
  by (auto simp: head_forms_def)

lemma head_bytes_short: "v < 24 \<Longrightarrow> head_bytes major v = [push_bit 5 major OR ucast v]"
  by (simp add: head_bytes_def)

lemma head_bytes_long:
  assumes "(info, n, least) \<in> head_forms" "\<not> v < least" "n = 8 \<or> v < 2 ^ (8 * n)"
  shows "head_bytes major v = (push_bit 5 major OR info) # be_bytes n v"
proof -
  have "v < 65536" if "v < 256" using that by (rule less_trans) simp
  moreover have "v < 256" if "v < 24" using that by (rule less_trans) simp
  moreover have "v < 0x100000000" if "v < 65536" using that by (rule less_trans) simp
  ultimately show ?thesis
    using assms unfolding head_forms_def head_bytes_def Let_def by auto
qed

lemma long_value_form:
  assumes "\<not> v < (24 :: u64)"
  obtains info n least where "(info, n, least) \<in> head_forms" "\<not> v < least" "n = 8 \<or> v < 2 ^ (8 * n)"
proof (cases v rule: head_value_cases)
  case 1 with assms that show ?thesis by simp
next
  case 2 then show ?thesis by (intro that [of 24 1 24]) (simp_all add: head_forms_def)
next
  case 3 then show ?thesis by (intro that [of 25 2 256]) (simp_all add: head_forms_def)
next
  case 4 then show ?thesis by (intro that [of 26 4 65536]) (simp_all add: head_forms_def)
next
  case 5 then show ?thesis by (intro that [of 27 8 "0x100000000"]) (simp_all add: head_forms_def)
qed

lemma cbor_read_head_short:
  assumes "dec_rest d = b # r" "b AND 0x1f < 24"
  shows "cbor_read_head d = (Inr (drop_bit 5 b, ucast (b AND 0x1f)), d\<lparr>dec_pos := dec_pos d + 1\<rparr>)"
  using assms(2) by (simp add: cbor_read_head_rest [OF assms(1)] Let_def)

lemma cbor_read_head_long:
  assumes "dec_rest d = b # r" "(b AND 0x1f, n, least) \<in> head_forms"
  shows "cbor_read_head d =
    (if length r < n then (Inl ANTS_ERROR_MALFORMED, d\<lparr>dec_pos := dec_pos d + 1\<rparr>)
     else if be_value (take n r) < least then (Inl ANTS_ERROR_NON_CANONICAL, d\<lparr>dec_pos := dec_pos d + 1 + n\<rparr>)
     else (Inr (drop_bit 5 b, be_value (take n r)), d\<lparr>dec_pos := dec_pos d + 1 + n\<rparr>))"
proof -
  let ?i = "b AND 0x1f"
  from assms(2) consider "?i = 24" "n = 1" "least = 24" | "?i = 25" "n = 2" "least = 256"
    | "?i = 26" "n = 4" "least = 65536" | "?i = 27" "n = 8" "least = 0x100000000"
    unfolding head_forms_def by blast
  then show ?thesis by cases (simp_all add: cbor_read_head_rest [OF assms(1)] Let_def)
qed

lemma cbor_read_head_reserved:
  assumes "dec_rest d = b # r" "\<not> b AND 0x1f < 24" "\<forall>n least. (b AND 0x1f, n, least) \<notin> head_forms"
  shows "cbor_read_head d = (Inl ANTS_ERROR_NON_CANONICAL, d\<lparr>dec_pos := dec_pos d + 1\<rparr>)"
proof -
  have "b AND 0x1f \<noteq> 24" "b AND 0x1f \<noteq> 25" "b AND 0x1f \<noteq> 26" "b AND 0x1f \<noteq> 27"
    using assms(3) unfolding head_forms_def by blast+
  then show ?thesis using assms(2) by (simp add: cbor_read_head_rest [OF assms(1)] Let_def)
qed

lemma small_value:
  assumes "(v :: u64) < 24"
  shows "(ucast v :: u8) < 24" "ucast (ucast v :: u8) = v"
proof -
  have "unat v < 24" using assms by (simp add: word_less_nat_alt)
  then have "unat (ucast v :: u8) = unat v" by (simp add: unsigned_ucast_eq take_bit_nat_eq_self_iff)
  then show "(ucast v :: u8) < 24" using \<open>unat v < 24\<close> by (simp add: word_less_nat_alt)
  have "v < 2 ^ 8" using assms by (rule less_trans) simp
  then show "ucast (ucast v :: u8) = v"
    using be_value_be_bytes [of 1 v] take_bit_below [of v 8] by (simp add: be_value_def)
qed

lemma small_info:
  assumes "info < (24 :: u8)"
  shows "(ucast info :: u64) < 24 \<and> (ucast (ucast info :: u64) :: u8) = info"
proof
  have i: "unat info < 24" using assms by (simp add: word_less_nat_alt)
  then have "take_bit 64 (unat info) = unat info" by (simp add: take_bit_nat_eq_self_iff)
  then show "(ucast info :: u64) < 24" using i by (simp add: word_less_nat_alt unsigned_ucast_eq)
  show "(ucast (ucast info :: u64) :: u8) = info" by (rule bit_word_eqI) (simp add: bit_simps)
qed

lemma cbor_read_head_complete:
  assumes m: "major \<le> 7" and rest: "dec_rest d = head_bytes major v @ r"
  shows "cbor_read_head d = (Inr (major, v), d\<lparr>dec_pos := dec_pos d + length (head_bytes major v)\<rparr>)"
proof (cases "v < 24")
  case True
  note small = small_value [OF True]
  have "(ucast v :: u8) < 32" using small(1) by (rule less_trans) simp
  note info = initial_major [OF m this]
  have "dec_rest d = (push_bit 5 major OR ucast v) # r" using rest True by (simp only: head_bytes_short) simp
  from cbor_read_head_short [OF this, unfolded info, OF small(1)] show ?thesis
    using small True by (simp add: length_head_bytes)
next
  case False
  then obtain info n least where f: "(info, n, least) \<in> head_forms" and v: "\<not> v < least" "n = 8 \<or> v < 2 ^ (8 * n)"
    by (rule long_value_form)
  note i = initial_major [OF m, of info]
  have "be_value (be_bytes n v) = v"
    using v(2) be_value_be_bytes [of n v] take_bit_below [of v "8 * n"] take_bit_length_eq [of v] by auto
  moreover have hb: "head_bytes major v = (push_bit 5 major OR info) # be_bytes n v"
    using f v by (rule head_bytes_long)
  moreover have "dec_rest d = (push_bit 5 major OR info) # (be_bytes n v @ r)" using rest hb by simp
  ultimately show ?thesis
    using cbor_read_head_long [of d "push_bit 5 major OR info" "be_bytes n v @ r" n least] f v(1) i
      head_forms_bounds [OF f] by simp
qed

text \<open>A header that is accepted is the shortest-form one.\<close>

lemma cbor_read_head_form:
  assumes rest: "dec_rest d = b # r" and ok: "cbor_read_head d = (Inr (major, v), d')"
  obtains n where "major = drop_bit 5 b" "head_bytes major v = b # take n r" "n \<le> length r"
    "d' = d\<lparr>dec_pos := dec_pos d + 1 + n\<rparr>"
proof -
  have b: "b = push_bit 5 (drop_bit 5 b) OR (b AND 0x1f)" by (simp only: initial_split)
  consider (short) "b AND 0x1f < 24" | (long) n least where "(b AND 0x1f, n, least) \<in> head_forms"
    using ok cbor_read_head_reserved [OF rest] by auto
  then show ?thesis
  proof cases
    case short
    with ok have v: "major = drop_bit 5 b" "v = ucast (b AND 0x1f)" "d' = d\<lparr>dec_pos := dec_pos d + 1\<rparr>"
      by (simp_all add: cbor_read_head_short [OF rest])
    then have "head_bytes major v = [b]"
      using small_info [OF short] b head_bytes_short [of v major] by metis
    then show ?thesis using v by (intro that [of 0]) simp_all
  next
    case long
    with ok have v: "major = drop_bit 5 b" "v = be_value (take n r)" "\<not> v < least" "n \<le> length r"
        "d' = d\<lparr>dec_pos := dec_pos d + 1 + n\<rparr>"
      by (auto simp: cbor_read_head_long [OF rest long] split: if_splits)
    have len: "length (take n r) = n" using v(4) by simp
    have "n = 8 \<or> v < 2 ^ (8 * n)"
      using be_value_less [of n "take n r"] head_forms_bounds [OF long] len v(2) by force
    from head_bytes_long [OF long v(3) this] have "head_bytes major v = b # be_bytes n v"
      using b v(1) by metis
    moreover have "be_bytes n v = take n r"
      using be_bytes_be_value [of "take n r"] head_forms_bounds [OF long] len v(2) by metis
    ultimately show ?thesis using v by (intro that [of n]) simp_all
  qed
qed

lemma cbor_read_head_sound:
  assumes ok: "cbor_read_head d = (Inr (major, v), d')"
  shows "major \<le> 7" "dec_rest d = head_bytes major v @ dec_rest d'"
    "d' = d\<lparr>dec_pos := dec_pos d + length (head_bytes major v)\<rparr>"
    "dec_pos d + length (head_bytes major v) \<le> dec_len d"
proof -
  have "dec_pos d < dec_len d"
    using ok by (auto simp: cbor_read_head_def split: if_splits)
  then obtain b r where rest: "dec_rest d = b # r"
    by (metis dec_rest_def drop_eq_Cons)
  obtain n where n: "major = drop_bit 5 b" "head_bytes major v = b # take n r" "n \<le> length r"
      "d' = d\<lparr>dec_pos := dec_pos d + 1 + n\<rparr>"
    using rest ok by (rule cbor_read_head_form)
  have "dec_rest d' = drop (n + 1) (dec_rest d)" by (simp add: n(4) dec_rest_def add.commute add.left_commute)
  then show "dec_rest d = head_bytes major v @ dec_rest d'" using n(2) rest by simp
  show "major \<le> 7" using n(1) drop_bit_5_le_7 by simp
  show "d' = d\<lparr>dec_pos := dec_pos d + length (head_bytes major v)\<rparr>" using n by simp
  have "dec_len d - dec_pos d = 1 + length r"
    using arg_cong [OF rest, of length] by (simp add: dec_rest_def)
  then show "dec_pos d + length (head_bytes major v) \<le> dec_len d" using n by simp
qed

end
