(* ===== verification/Cbor_Track.thy ===== *)
theory Cbor_Track
  imports Cbor_Head
begin

text \<open>
  Container tracking, abstractly. A \<open>frame\<close> is an open container: its kind, the
  items (or pairs) still due, the encoding of the last map key, and the bytes it
  holds so far. \<open>add_item\<close> says what registering one complete item does to the open
  frames, with no positions and no fixed-size array; \<open>track_loop_sim\<close> shows that the
  tracker of the codec implements it. The encoder and the decoder are two cursors
  over the same tracker, which the locale \<open>cursor\<close> captures.
\<close>

section \<open>Frames\<close>

datatype frame = Frame (fkind: ants_cbor_ctx_kind) (fremaining: nat) (fkey: "bytes option") (fbytes: bytes)

text \<open>\<open>Inr (fs, out)\<close>: the frames still open, and the bytes of the completed top-level
  item if the item closed every frame.\<close>

fun add_item :: "frame list \<Rightarrow> bytes \<Rightarrow> (frame list \<times> bytes) res" where
  "add_item [] bs = Inr ([], bs)"
| "add_item (Frame k r key fb # fs) bs =
    (if k = CTX_NONE \<or> r = 0 then Inl ANTS_ERROR_MALFORMED
     else if k = CTX_MAP_KEY then
       if key \<noteq> None \<and> \<not> bytes_less (the key) bs then Inl ANTS_ERROR_NON_CANONICAL
       else Inr (Frame CTX_MAP_VALUE r (Some bs) (fb @ bs) # fs, [])
     else if r = 1 then add_item fs (fb @ bs)
     else Inr (Frame (if k = CTX_MAP_VALUE then CTX_MAP_KEY else k) (r - 1) key (fb @ bs) # fs, []))"

lemma add_item_length: "add_item fs bs = Inr (fs', out) \<Longrightarrow> length fs' \<le> length fs"
proof (induction fs bs rule: add_item.induct)
  case (2 k r key fb fs bs)
  then show ?case by (cases "r = 1") (fastforce split: if_splits)+
qed simp

section \<open>Key order\<close>

lemma memcmp_min:
  "bytes_less a b \<longleftrightarrow> memcmp a b (min (length a) (length b)) < 0 \<or>
     memcmp a b (min (length a) (length b)) = 0 \<and> length a < length b"
proof (induction a arbitrary: b)
  case Nil
  then show ?case by (cases b) simp_all
next
  case (Cons x xs)
  then show ?case by (cases b) auto
qed

lemma compare_keys_less: "compare_keys a b < 0 \<longleftrightarrow> bytes_less a b"
proof -
  have "memcmp a b 0 = 0" by (cases a; cases b) simp_all
  then have eq: "compare_keys a b =
      (let c = memcmp a b (min (length a) (length b)) in
       if c \<noteq> 0 then c else if length a < length b then -1 else if length a > length b then 1 else 0)"
    unfolding compare_keys_def Let_def min_def by (simp add: not_less)
  show ?thesis unfolding eq memcmp_min [of a b] Let_def by auto
qed

section \<open>The context array represents the frames\<close>

definition open_ctxs :: "ants_cbor_ctx list \<Rightarrow> int \<Rightarrow> ants_cbor_ctx list" where
  "open_ctxs stack depth = rev (take (nat (depth + 1)) stack)"

definition key_rel :: "bytes \<Rightarrow> ants_cbor_ctx \<Rightarrow> bytes option \<Rightarrow> bool" where
  "key_rel p c key =
    (case key of
       None \<Rightarrow> ctx_last_key_end c = 0
     | Some k \<Rightarrow> 0 < ctx_last_key_end c \<and> ctx_last_key_end c \<le> length p \<and>
         byte_range (ctx_last_key_begin c) (ctx_last_key_end c) p = k)"

text \<open>\<open>p\<close> are the bytes in front of the cursor, \<open>tops\<close> those of completed top-level
  items; contexts and frames are listed innermost first.\<close>

fun frames_rel :: "bytes \<Rightarrow> ants_cbor_ctx list \<Rightarrow> bytes \<Rightarrow> frame list \<Rightarrow> bool" where
  "frames_rel p [] tops [] = (p = tops)"
| "frames_rel p (c # cs) tops (Frame k r key fb # fs) =
    (ctx_kind c = k \<and> ctx_remaining c = r \<and> ctx_container_begin c < length p \<and>
     drop (ctx_container_begin c) p = fb \<and> key_rel p c key \<and>
     frames_rel (take (ctx_container_begin c) p) cs tops fs)"
| "frames_rel p cs tops fs = False"

lemma open_ctxs_update:
  assumes "0 \<le> depth" "nat depth < length stack"
  shows "open_ctxs (stack[nat depth := c]) depth = c # open_ctxs stack (depth - 1)"
    and "open_ctxs (stack[nat depth := c]) (depth - 1) = open_ctxs stack (depth - 1)"
    and "open_ctxs stack depth = stack ! nat depth # open_ctxs stack (depth - 1)"
proof -
  have n: "nat (depth + 1) = Suc (nat depth)" using assms(1) by simp
  show "open_ctxs (stack[nat depth := c]) depth = c # open_ctxs stack (depth - 1)"
    using assms by (simp add: open_ctxs_def n take_list_update_snoc)
  show "open_ctxs (stack[nat depth := c]) (depth - 1) = open_ctxs stack (depth - 1)"
    by (simp add: open_ctxs_def)
  show "open_ctxs stack depth = stack ! nat depth # open_ctxs stack (depth - 1)"
    using assms by (simp add: open_ctxs_def n take_Suc_conv_app_nth)
qed

lemma frames_rel_length: "frames_rel p cs tops fs \<Longrightarrow> length cs = length fs"
  by (induction p cs tops fs rule: frames_rel.induct) auto

lemma frames_rel_bytes: "frames_rel p cs tops fs \<Longrightarrow> p = tops @ concat (map fbytes (rev fs))"
proof (induction p cs tops fs rule: frames_rel.induct)
  case (2 p c cs tops k r key fb fs)
  then show ?case by simp (metis append_assoc append_take_drop_id)
qed auto

lemma key_rel_extend: "key_rel p c key \<Longrightarrow> key_rel (p @ bs) c key"
  by (auto simp: key_rel_def byte_range_append_left split: option.splits)

lemma key_rel_cong:
  "ctx_last_key_begin c = ctx_last_key_begin c' \<Longrightarrow> ctx_last_key_end c = ctx_last_key_end c' \<Longrightarrow>
   key_rel p c key = key_rel p c' key"
  by (simp add: key_rel_def split: option.split)

definition cursor_rel :: "bytes \<Rightarrow> ants_cbor_ctx list \<Rightarrow> int \<Rightarrow> bytes \<Rightarrow> frame list \<Rightarrow> bool" where
  "cursor_rel p stack depth tops fs \<longleftrightarrow>
     length stack = ANTS_CBOR_MAX_DEPTH \<and> -1 \<le> depth \<and> depth < int ANTS_CBOR_MAX_DEPTH \<and>
     frames_rel p (open_ctxs stack depth) tops fs"

lemma cursor_rel_depth: "cursor_rel p stack depth tops fs \<Longrightarrow> depth = int (length fs) - 1"
  using frames_rel_length [of p "open_ctxs stack depth" tops fs]
  by (auto simp: cursor_rel_def open_ctxs_def)

lemma cursor_rel_bytes: "cursor_rel p stack depth tops fs \<Longrightarrow> p = tops @ concat (map fbytes (rev fs))"
  by (auto simp: cursor_rel_def dest: frames_rel_bytes)

lemma cursor_rel_bound: "cursor_rel p stack depth tops fs \<Longrightarrow> length fs \<le> 16"
  using cursor_rel_depth [of p stack depth tops fs] by (auto simp: cursor_rel_def ANTS_CBOR_MAX_DEPTH_def)

text \<open>The innermost context of a cursor and what is left when it closes.\<close>

lemma cursor_rel_top:
  assumes "cursor_rel p stack depth tops (Frame k r key fb # fs)"
  defines "c \<equiv> stack ! nat depth"
  shows "0 \<le> depth" "nat depth < length stack"
    "ctx_kind c = k" "ctx_remaining c = r" "ctx_container_begin c \<le> length p"
    "drop (ctx_container_begin c) p = fb" "key_rel p c key"
    "cursor_rel (take (ctx_container_begin c) p) (stack[nat depth := c']) (depth - 1) tops fs"
    "fb \<noteq> []"
proof -
  have "depth = int (length fs)" using cursor_rel_depth [OF assms(1)] by simp
  then show d: "0 \<le> depth" by simp
  show n: "nat depth < length stack" using assms(1) d by (simp add: cursor_rel_def nat_less_iff)
  show "ctx_kind c = k" "ctx_remaining c = r" "ctx_container_begin c \<le> length p"
    "drop (ctx_container_begin c) p = fb" "key_rel p c key" "fb \<noteq> []"
    "cursor_rel (take (ctx_container_begin c) p) (stack[nat depth := c']) (depth - 1) tops fs"
    using assms(1) d unfolding cursor_rel_def open_ctxs_update(3) [OF d n] c_def
    by (auto simp: open_ctxs_update(2) [OF d n])
qed

lemma cursor_rel_set_top:
  assumes "cursor_rel p stack depth tops (Frame k r key fb # fs)"
    and "ctx_container_begin c' = ctx_container_begin (stack ! nat depth)"
    and "key_rel (p @ bs) c' key'"
  shows "cursor_rel (p @ bs) (stack[nat depth := c']) depth tops
    (Frame (ctx_kind c') (ctx_remaining c') key' (fb @ bs) # fs)"
proof -
  note top = cursor_rel_top [OF assms(1)]
  have "ctx_container_begin c' < length p"
    using top(5,6,9) assms(2) by (metis drop_eq_Nil2 not_le_imp_less)
  then show ?thesis
    using assms top(8) [of c'] top(6) open_ctxs_update(1,2) [OF top(1,2), of c']
    by (auto simp: cursor_rel_def)
qed

lemma take_range: "take n xs = p @ bs \<Longrightarrow> n \<le> length xs \<Longrightarrow> byte_range (length p) n xs = bs"
proof -
  assume t: "take n xs = p @ bs" and n: "n \<le> length xs"
  from t n have "n = length p + length bs" by (metis length_append length_take min.absorb2)
  with t show ?thesis by (simp add: byte_range_def) (metis add_diff_cancel_left' append_eq_conv_conj drop_take)
qed

lemma key_range:
  assumes "key_rel p c (Some k)" "take n xs = p @ bs"
  shows "byte_range (ctx_last_key_begin c) (ctx_last_key_end c) xs = k"
proof -
  have "ctx_last_key_end c \<le> n"
    using assms by (auto simp: key_rel_def) (metis append_take_drop_id assms(2) le_trans length_append length_take min.cobounded2 nat_le_linear le_add1)
  then have "byte_range (ctx_last_key_begin c) (ctx_last_key_end c) xs =
      byte_range (ctx_last_key_begin c) (ctx_last_key_end c) (p @ bs)"
    by (metis assms(2) byte_range_take)
  then show ?thesis using assms(1) by (simp add: key_rel_def byte_range_append_left)
qed

section \<open>The tracker implements \<open>add_item\<close>\<close>

definition track_ok :: "bytes \<Rightarrow> bytes \<Rightarrow> (frame list \<times> bytes) res \<Rightarrow> (ants_cbor_ctx list \<times> int) res \<Rightarrow> bool" where
  "track_ok p tops spec impl =
    (case spec of
       Inl e \<Rightarrow> impl = Inl e
     | Inr (fs, out) \<Rightarrow> (\<exists>stack depth. impl = Inr (stack, depth) \<and> cursor_rel p stack depth (tops @ out) fs))"

lemma track_okI: "cursor_rel p stack depth (tops @ out) fs \<Longrightarrow> track_ok p tops (Inr (fs, out)) (Inr (stack, depth))"
  by (simp add: track_ok_def)

lemma track_ok_Inl [simp]: "track_ok p tops (Inl e) impl \<longleftrightarrow> impl = Inl e"
  by (simp add: track_ok_def)

lemma track_loop_sim:
  assumes "cursor_rel p stack depth tops fs" "take pos buf = p @ bs" "pos \<le> length buf" "bs \<noteq> []"
  shows "track_ok (p @ bs) tops (add_item fs bs) (track_loop buf pos stack depth (length p))"
  using assms
proof (induction fs arbitrary: p bs stack depth)
  case Nil
  then have "depth = -1" "p = tops"
    using cursor_rel_depth [OF Nil.prems(1)] cursor_rel_bytes [OF Nil.prems(1)] by simp_all
  with Nil.prems show ?case by (simp add: track_loop.simps track_ok_def cursor_rel_def open_ctxs_def)
next
  case (Cons f fs)
  obtain k r key fb where f: "f = Frame k r key fb" by (cases f)
  define c where "c = stack ! nat depth"
  note rel = Cons.prems(1) [unfolded f]
  note top = cursor_rel_top [OF rel, folded c_def]
  have close: "track_ok (p @ bs) tops (add_item fs (fb @ bs))
      (track_loop buf pos (stack[nat depth := c']) (depth - 1) (ctx_container_begin c))" for c'
  proof -
    have q: "take (ctx_container_begin c) p @ (fb @ bs) = p @ bs"
      using top(6) by (metis append_assoc append_take_drop_id)
    from Cons.IH [OF top(8), of "fb @ bs" c'] show ?thesis
      using Cons.prems(2-4) top(5) unfolding q by (simp add: min.absorb2)
  qed
  have stay: "track_ok (p @ bs) tops (Inr (Frame (ctx_kind c') (ctx_remaining c') key' (fb @ bs) # fs, []))
      (Inr (stack[nat depth := c'], depth))"
    if "ctx_container_begin c' = ctx_container_begin c" "key_rel (p @ bs) c' key'" for c' key'
    using cursor_rel_set_top [OF rel that [unfolded c_def]] by (intro track_okI) simp
  have keep: "key_rel (p @ bs) c' key"
    if "ctx_last_key_begin c' = ctx_last_key_begin c" "ctx_last_key_end c' = ctx_last_key_end c" for c'
    using key_rel_extend [OF top(7)] key_rel_cong [of c' c] that by blast
  have new: "key_rel (p @ bs) (c\<lparr>ctx_last_key_begin := length p, ctx_last_key_end := pos, ctx_kind := CTX_MAP_VALUE\<rparr>) (Some bs)"
  proof -
    have "pos = length (p @ bs)" using Cons.prems(2,3) by (metis length_take min.absorb2)
    then show ?thesis
      using byte_range_suffix [of p bs "[]"] Cons.prems(4) by (simp add: key_rel_def)
  qed
  have order: "(ctx_last_key_end c > 0 \<and>
      compare_keys (byte_range (ctx_last_key_begin c) (ctx_last_key_end c) buf) (byte_range (length p) pos buf) \<ge> 0)
      \<longleftrightarrow> (key \<noteq> None \<and> \<not> bytes_less (the key) bs)"
    using top(7) take_range [OF Cons.prems(2,3)] key_range [OF _ Cons.prems(2), of c] compare_keys_less
    by (cases key) (auto simp: key_rel_def not_less [symmetric])
  show ?case
    using top(1,3,4) close stay [of "c\<lparr>ctx_remaining := r - 1\<rparr>" key] keep
      stay [OF _ new] stay [of "c\<lparr>ctx_remaining := r - 1, ctx_kind := CTX_MAP_KEY\<rparr>" key]
    unfolding f track_loop.simps [of buf pos stack depth "length p"] Let_def c_def [symmetric] order
    by (cases k) auto
qed

lemma add_item_error: "add_item fs bs = Inl e \<Longrightarrow> e = ANTS_ERROR_MALFORMED \<or> e = ANTS_ERROR_NON_CANONICAL"
proof (induction fs bs rule: add_item.induct)
  case (2 k r key fb fs bs)
  then show ?case by (auto split: if_splits)
qed simp

section \<open>The cursor interface\<close>

text \<open>
  What the encoder and the decoder both promise: a buffer, a position, a context
  array with its depth, and a \<open>track\<close> step that runs the tracker on them and
  changes nothing but the context array and the depth.
\<close>

locale cursor =
  fixes buf_of :: "'s \<Rightarrow> bytes"
    and pos_of :: "'s \<Rightarrow> nat"
    and stack_of :: "'s \<Rightarrow> ants_cbor_ctx list"
    and depth_of :: "'s \<Rightarrow> int"
    and track :: "nat \<Rightarrow> 's step"
  assumes track_fail:
      "track_loop (buf_of s) (pos_of s) (stack_of s) (depth_of s) i = Inl e \<Longrightarrow> track i s = (e, s)"
    and track_done:
      "track_loop (buf_of s) (pos_of s) (stack_of s) (depth_of s) i = Inr (st, dp) \<Longrightarrow>
       \<exists>s'. track i s = (ANTS_OK, s') \<and> stack_of s' = st \<and> depth_of s' = dp \<and>
         pos_of s' = pos_of s \<and> buf_of s' = buf_of s"
begin

definition rel :: "'s \<Rightarrow> bytes \<Rightarrow> frame list \<Rightarrow> bool" where
  "rel s tops fs \<longleftrightarrow> pos_of s \<le> length (buf_of s) \<and>
     cursor_rel (take (pos_of s) (buf_of s)) (stack_of s) (depth_of s) tops fs"

lemma rel_depth: "rel s tops fs \<Longrightarrow> depth_of s = int (length fs) - 1"
  by (auto simp: rel_def dest: cursor_rel_depth)

lemma rel_bytes: "rel s tops fs \<Longrightarrow> take (pos_of s) (buf_of s) = tops @ concat (map fbytes (rev fs))"
  by (auto simp: rel_def dest: cursor_rel_bytes)

lemma rel_bound: "rel s tops fs \<Longrightarrow> length fs \<le> 16"
  by (auto simp: rel_def dest: cursor_rel_bound)

lemma track_rejects:
  assumes "cursor_rel p (stack_of s) (depth_of s) tops fs" "take (pos_of s) (buf_of s) = p @ bs"
    "pos_of s \<le> length (buf_of s)" "bs \<noteq> []" "add_item fs bs = Inl e"
  shows "track (length p) s = (e, s)"
  using track_loop_sim [OF assms(1-4)] assms(5) by (simp add: track_fail)

lemma track_accepts:
  assumes "cursor_rel p (stack_of s) (depth_of s) tops fs" "take (pos_of s) (buf_of s) = p @ bs"
    "pos_of s \<le> length (buf_of s)" "bs \<noteq> []" "add_item fs bs = Inr (fs', out)"
  obtains s' where "track (length p) s = (ANTS_OK, s')" "rel s' (tops @ out) fs'"
    "pos_of s' = pos_of s" "buf_of s' = buf_of s"
proof -
  from track_loop_sim [OF assms(1-4)] assms(5) obtain st dp
    where tl: "track_loop (buf_of s) (pos_of s) (stack_of s) (depth_of s) (length p) = Inr (st, dp)"
      and cr: "cursor_rel (p @ bs) st dp (tops @ out) fs'"
    by (auto simp: track_ok_def)
  from track_done [OF tl] cr assms(2,3) show ?thesis
    by (auto simp: rel_def intro: that)
qed

end

interpretation enc: cursor enc_buf enc_pos enc_stack enc_depth enc_track_item
  by unfold_locales (simp_all add: enc_track_item_def)

interpretation dec: cursor dec_buf dec_pos dec_stack dec_depth dec_track_item
  by unfold_locales (simp_all add: dec_track_item_def)

text \<open>Opening a container pushes a frame.\<close>

lemma cursor_rel_push:
  assumes "cursor_rel p stack depth tops fs" "depth + 1 < int ANTS_CBOR_MAX_DEPTH" "bs \<noteq> []"
    and "c = \<lparr>ctx_kind = k, ctx_remaining = n, ctx_container_begin = length p,
      ctx_last_key_begin = 0, ctx_last_key_end = 0\<rparr>"
  shows "cursor_rel (p @ bs) (stack[nat (depth + 1) := c]) (depth + 1) tops (Frame k n None bs # fs)"
proof -
  have "0 \<le> depth + 1" "nat (depth + 1) < length stack"
    using assms(1,2) by (auto simp: cursor_rel_def)
  from open_ctxs_update(1) [OF this, of c] show ?thesis
    using assms by (simp add: cursor_rel_def key_rel_def)
qed

end
