(* ===== verification/Cbor_Item.thy ===== *)
theory Cbor_Item
  imports Cbor_Track
begin

text \<open>
  The data model the codec implements: the CBOR items of the protocol's profile
  (no floats, no indefinite lengths, three tags), the canonical encoding of an item,
  and the well-formedness a document has to meet. Nothing here models code; it is the
  specification that \<open>Cbor_Encode\<close> and \<open>Cbor_Canonical\<close> relate the code to.
\<close>

datatype item =
    UInt u64
  | NInt u64  \<comment> \<open>the integer \<open>-1 - n\<close>\<close>
  | ByteStr bytes
  | TextStr bytes
  | Arr "item list"
  | MapI "(item \<times> item) list"
  | Tagged u64 item
  | Boolean bool
  | NullI

definition pair_items :: "(item \<times> item) list \<Rightarrow> item list" where
  "pair_items kvs = concat (map (\<lambda>(k, v). [k, v]) kvs)"

lemma pair_items_simps [simp]:
  "pair_items [] = []"
  "pair_items ((k, v) # kvs) = k # v # pair_items kvs"
  by (simp_all add: pair_items_def)

lemma length_pair_items [simp]: "length (pair_items kvs) = 2 * length kvs"
  by (induction kvs) auto

lemma set_pair_items: "set (pair_items kvs) = fst ` set kvs \<union> snd ` set kvs"
  by (induction kvs) force+

lemma pair_items_size [termination_simp]:
  "x \<in> set (pair_items kvs) \<Longrightarrow> size x < Suc (size_list (\<lambda>p. Suc (size (fst p) + size (snd p))) kvs)"
  by (induction kvs) auto

text \<open>The canonical encoding (RFC 8949, section 4.2.1).\<close>

fun enc_item :: "item \<Rightarrow> bytes" where
  "enc_item (UInt v) = head_bytes 0 v"
| "enc_item (NInt v) = head_bytes 1 v"
| "enc_item (ByteStr b) = head_bytes 2 (of_nat (length b)) @ b"
| "enc_item (TextStr b) = head_bytes 3 (of_nat (length b)) @ b"
| "enc_item (Arr xs) = head_bytes 4 (of_nat (length xs)) @ concat (map enc_item xs)"
| "enc_item (MapI kvs) = head_bytes 5 (of_nat (length kvs)) @ concat (map enc_item (pair_items kvs))"
| "enc_item (Tagged t x) = head_bytes 6 t @ enc_item x"
| "enc_item (Boolean v) = [if v then 0xf5 else 0xf4]"
| "enc_item NullI = [0xf6]"

fun wf_item :: "item \<Rightarrow> bool" where
  "wf_item (UInt v) = True"
| "wf_item (NInt v) = (v \<le> INT64_MAX)"
| "wf_item (ByteStr b) = (length b < 2 ^ 64)"
| "wf_item (TextStr b) = (length b < 2 ^ 64)"
| "wf_item (Arr xs) = (length xs < 2 ^ 64 \<and> (\<forall>x \<in> set xs. wf_item x))"
| "wf_item (MapI kvs) =
    (length kvs < 2 ^ 64 \<and> (\<forall>x \<in> set (pair_items kvs). wf_item x) \<and>
     sorted_wrt bytes_less (map (\<lambda>kv. enc_item (fst kv)) kvs))"
| "wf_item (Tagged t x) = ((t = 0 \<or> t = 32 \<or> t = 42) \<and> wf_item x)"
| "wf_item (Boolean v) = True"
| "wf_item NullI = True"

text \<open>\<open>nests_within h x\<close>: decoding \<open>x\<close> opens at most \<open>h\<close> containers inside one another
  (an empty array or map opens none).\<close>

fun nests_within :: "nat \<Rightarrow> item \<Rightarrow> bool" where
  "nests_within h (Arr xs) = (xs = [] \<or> 0 < h \<and> (\<forall>x \<in> set xs. nests_within (h - 1) x))"
| "nests_within h (MapI kvs) = (kvs = [] \<or> 0 < h \<and> (\<forall>x \<in> set (pair_items kvs). nests_within (h - 1) x))"
| "nests_within h (Tagged t x) = (0 < h \<and> nests_within (h - 1) x)"
| "nests_within h x = True"

lemma enc_item_nonempty [simp]: "enc_item x \<noteq> []"
  by (cases x) simp_all

end
