(* ===== verification/Cbor_Encode.thy ===== *)
theory Cbor_Encode
  imports Cbor_Item
begin

text \<open>
  What a sequence of encoder calls writes. \<open>enc_call\<close> names the encoder's entry
  points, \<open>abs_call\<close> gives the outcome of a call on the open frames and the room left in
  the buffer, and \<open>exec_call_sim\<close> shows that the code has that outcome, errors included.
  From it: the calls for a well-formed item write its canonical encoding
  (\<open>encode_item\<close>), and whatever calls a client makes, an encoder at top level holds a
  sequence of canonical items (\<open>Cbor_Canonical\<close>).
\<close>

section \<open>Calls and their outcome\<close>

datatype enc_call =
    CUint u64 | CInt u64 | CBytes bytes | CText bytes | CArray nat | CMap nat
  | CBool bool | CNull | CTag u64

fun exec_call :: "enc_call \<Rightarrow> ants_cbor_enc step" where
  "exec_call (CUint v) = ants_cbor_enc_uint v"
| "exec_call (CInt v) = ants_cbor_enc_int v"
| "exec_call (CBytes b) = ants_cbor_enc_bytes b"
| "exec_call (CText b) = ants_cbor_enc_text b"
| "exec_call (CArray n) = ants_cbor_enc_array n"
| "exec_call (CMap n) = ants_cbor_enc_map n"
| "exec_call (CBool v) = ants_cbor_enc_bool v"
| "exec_call CNull = ants_cbor_enc_null"
| "exec_call (CTag t) = ants_cbor_enc_tag t"

fun call_bytes :: "enc_call \<Rightarrow> bytes" where
  "call_bytes (CUint v) = head_bytes 0 v"
| "call_bytes (CInt v) = (if sint v \<ge> 0 then head_bytes 0 v else head_bytes 1 (NOT v))"
| "call_bytes (CBytes b) = head_bytes 2 (of_nat (length b)) @ b"
| "call_bytes (CText b) = head_bytes 3 (of_nat (length b)) @ b"
| "call_bytes (CArray n) = head_bytes 4 (of_nat n)"
| "call_bytes (CMap n) = head_bytes 5 (of_nat n)"
| "call_bytes (CBool v) = [if v then 0xf5 else 0xf4]"
| "call_bytes CNull = [0xf6]"
| "call_bytes (CTag t) = head_bytes 6 t"

lemma call_bytes_nonempty [simp]: "call_bytes c \<noteq> []"
  by (cases c) simp_all

definition open_frame :: "ants_cbor_ctx_kind \<Rightarrow> nat \<Rightarrow> frame list \<Rightarrow> bytes \<Rightarrow> (frame list \<times> bytes) res" where
  "open_frame k n fs bs =
    (if length fs \<ge> ANTS_CBOR_MAX_DEPTH then Inl ANTS_ERROR_OVERFLOW else Inr (Frame k n None bs # fs, []))"

definition in_room :: "nat \<Rightarrow> bytes \<Rightarrow> 'a res \<Rightarrow> 'a res" where
  "in_room room bs r = (if length bs > room then Inl ANTS_ERROR_BUFFER_TOO_SMALL else r)"

fun abs_call :: "nat \<Rightarrow> frame list \<Rightarrow> enc_call \<Rightarrow> (frame list \<times> bytes) res" where
  "abs_call room fs (CArray n) = in_room room (call_bytes (CArray n))
    (if n = 0 then add_item fs (call_bytes (CArray n)) else open_frame CTX_ARRAY n fs (call_bytes (CArray n)))"
| "abs_call room fs (CMap n) = in_room room (call_bytes (CMap n))
    (if n = 0 then add_item fs (call_bytes (CMap n)) else open_frame CTX_MAP_KEY n fs (call_bytes (CMap n)))"
| "abs_call room fs (CTag t) =
    (if t \<noteq> 0 \<and> t \<noteq> 32 \<and> t \<noteq> 42 then Inl ANTS_ERROR_UNSUPPORTED_TYPE
     else case open_frame CTX_TAG 1 fs (call_bytes (CTag t)) of
       Inl e \<Rightarrow> Inl e
     | Inr r \<Rightarrow> in_room room (call_bytes (CTag t)) (Inr r))"
| "abs_call room fs c = in_room room (call_bytes c) (add_item fs (call_bytes c))"

section \<open>The code has that outcome\<close>

text \<open>After a rejected call the encoder is as before, but for the bytes behind its position.\<close>

definition enc_same :: "ants_cbor_enc \<Rightarrow> ants_cbor_enc \<Rightarrow> bool" where
  "enc_same e e' \<longleftrightarrow> enc_pos e' = enc_pos e \<and> enc_stack e' = enc_stack e \<and> enc_depth e' = enc_depth e \<and>
     take (enc_pos e) (enc_buf e') = take (enc_pos e) (enc_buf e)"

definition call_outcome ::
  "ants_cbor_enc \<Rightarrow> bytes \<Rightarrow> bytes \<Rightarrow> (frame list \<times> bytes) res \<Rightarrow> ants_error \<times> ants_cbor_enc \<Rightarrow> bool" where
  "call_outcome e tops bs spec impl \<longleftrightarrow> enc_cap (snd impl) = enc_cap e \<and>
    (case spec of
       Inl err \<Rightarrow> fst impl = err \<and> err \<noteq> ANTS_OK \<and> enc_same e (snd impl)
     | Inr (fs, out) \<Rightarrow> fst impl = ANTS_OK \<and> enc.rel (snd impl) (tops @ out) fs \<and>
         enc_pos (snd impl) = enc_pos e + length bs \<and>
         take (enc_pos (snd impl)) (enc_buf (snd impl)) = take (enc_pos e) (enc_buf e) @ bs)"

lemma put_bytes_prefix: "take (enc_pos e) (enc_buf (put_bytes bs e)) = take (enc_pos e) (enc_buf e)"
proof (induction bs arbitrary: e)
  case (Cons b bs)
  have "take (enc_pos e) (take (enc_pos (put_byte b e)) (enc_buf (put_bytes bs (put_byte b e)))) =
      take (enc_pos e) (take (enc_pos (put_byte b e)) (enc_buf (put_byte b e)))"
    by (simp only: Cons.IH)
  then show ?case by (simp add: put_byte_def min_def)
qed simp

lemma enc_same_put: "enc_same e (put_bytes bs e\<lparr>enc_pos := enc_pos e\<rparr>)"
  by (simp add: enc_same_def put_bytes_prefix)

lemma enc_same_refl: "enc_same e e"
  by (simp add: enc_same_def)

lemma track_put:
  assumes rel: "enc.rel e tops fs" and room: "enc_pos e + length bs \<le> enc_cap e" and ne: "bs \<noteq> []"
  shows "call_outcome e tops bs (add_item fs bs) (enc_track_or_undo (enc_pos e) (put_bytes bs e))"
proof -
  define p where "p = take (enc_pos e) (enc_buf e)"
  have cr: "cursor_rel p (enc_stack (put_bytes bs e)) (enc_depth (put_bytes bs e)) tops fs"
    and len: "length p = enc_pos e"
    using rel room by (simp_all add: enc.rel_def p_def)
  have written: "take (enc_pos (put_bytes bs e)) (enc_buf (put_bytes bs e)) = p @ bs"
    using put_bytes_written [OF room] by (simp add: p_def)
  have fits: "enc_pos (put_bytes bs e) \<le> enc_cap (put_bytes bs e)" using room by simp
  show ?thesis
  proof (cases "add_item fs bs")
    case (Inl err)
    have "enc_track_item (length p) (put_bytes bs e) = (err, put_bytes bs e)"
      using cr written fits ne Inl by (rule enc.track_rejects)
    then show ?thesis
      using Inl add_item_error [OF Inl] len
      by (auto simp: enc_track_or_undo_def call_outcome_def enc_same_put)
  next
    case (Inr r)
    then obtain fs' out where r: "add_item fs bs = Inr (fs', out)" by (cases r) simp
    obtain s' where "enc_track_item (length p) (put_bytes bs e) = (ANTS_OK, s')" "enc.rel s' (tops @ out) fs'"
        "enc_pos s' = enc_pos (put_bytes bs e)" "enc_buf s' = enc_buf (put_bytes bs e)"
      using cr written fits ne r by (rule enc.track_accepts)
    then show ?thesis
      using r written len by (simp add: enc_track_or_undo_def call_outcome_def p_def)
  qed
qed

lemma push_put:
  assumes rel: "enc.rel e tops fs" and room: "enc_pos e + length bs \<le> enc_cap e" and ne: "bs \<noteq> []"
    and depth: "length fs < ANTS_CBOR_MAX_DEPTH"
  shows "call_outcome e tops bs (Inr (Frame k n None bs # fs, []))
    (ANTS_OK, enc_push_ctx k n (enc_pos e) (put_bytes bs e))"
proof -
  define p where "p = take (enc_pos e) (enc_buf e)"
  have len: "length p = enc_pos e" and cr: "cursor_rel p (enc_stack e) (enc_depth e) tops fs"
    using rel room by (simp_all add: enc.rel_def p_def)
  have "enc_depth e + 1 < int ANTS_CBOR_MAX_DEPTH"
    using enc.rel_depth [OF rel] depth by simp
  from cursor_rel_push [OF cr this ne refl, of k n] show ?thesis
    using put_bytes_written [OF room] room len
    by (simp add: call_outcome_def enc_push_ctx_def enc.rel_def p_def)
qed

lemma outcome_too_small: "call_outcome e tops bs (Inl ANTS_ERROR_BUFFER_TOO_SMALL) (ANTS_ERROR_BUFFER_TOO_SMALL, e)"
  by (simp add: call_outcome_def enc_same_refl)

lemma outcome_undone:
  "err \<noteq> ANTS_OK \<Longrightarrow> call_outcome e tops bs (Inl err) (err, put_bytes bs' e\<lparr>enc_pos := enc_pos e\<rparr>)"
  by (simp add: call_outcome_def enc_same_put)

lemma pos_le_cap: "enc.rel e tops fs \<Longrightarrow> enc_pos e \<le> enc_cap e"
  by (simp add: enc.rel_def)

lemma in_room_enc:
  "enc.rel e tops fs \<Longrightarrow> in_room (enc_cap e - enc_pos e) bs r =
     (if enc_pos e + length bs > enc_cap e then Inl ANTS_ERROR_BUFFER_TOO_SMALL else r)"
  using pos_le_cap [of e tops fs] by (auto simp: in_room_def)

lemma string_call:
  assumes rel: "enc.rel e tops fs" and m: "major \<le> 7"
  shows "call_outcome e tops (head_bytes major v @ b)
    (in_room (enc_cap e - enc_pos e) (head_bytes major v @ b) (add_item fs (head_bytes major v @ b)))
    (let item_begin = enc_pos e in
     case cbor_write_head major v e of (rc, e1) \<Rightarrow>
     if rc \<noteq> ANTS_OK then (rc, e1\<lparr>enc_pos := item_begin\<rparr>)
     else if length b > enc_cap e1 - enc_pos e1
     then (ANTS_ERROR_BUFFER_TOO_SMALL, e1\<lparr>enc_pos := item_begin\<rparr>)
     else enc_track_or_undo item_begin (put_bytes b e1))"
proof -
  consider "enc_pos e + length (head_bytes major v) > enc_cap e"
    | "enc_pos e + length (head_bytes major v) \<le> enc_cap e"
      "enc_pos e + length (head_bytes major v @ b) > enc_cap e"
    | "enc_pos e + length (head_bytes major v @ b) \<le> enc_cap e"
    by fastforce
  then show ?thesis
  proof cases
    case 1
    then show ?thesis
      using outcome_too_small by (simp add: cbor_write_head_eq [OF m] in_room_enc [OF rel])
  next
    case 2
    then have "length b > enc_cap e - (enc_pos e + length (head_bytes major v))" by simp
    with 2 show ?thesis
      using outcome_undone by (simp add: cbor_write_head_eq [OF m] in_room_enc [OF rel] Let_def)
  next
    case 3
    then have "\<not> length b > enc_cap e - (enc_pos e + length (head_bytes major v))" by simp
    with 3 show ?thesis
      using track_put [OF rel 3] by (simp add: cbor_write_head_eq [OF m] in_room_enc [OF rel] put_bytes_append Let_def)
  qed
qed

lemma container_call:
  assumes rel: "enc.rel e tops fs" and m: "major \<le> 7"
  shows "call_outcome e tops (head_bytes major v)
    (in_room (enc_cap e - enc_pos e) (head_bytes major v)
      (if n = 0 then add_item fs (head_bytes major v) else open_frame k n fs (head_bytes major v)))
    (let item_begin = enc_pos e in
     case cbor_write_head major v e of (rc, e1) \<Rightarrow>
     if rc \<noteq> ANTS_OK then (rc, e1\<lparr>enc_pos := item_begin\<rparr>)
     else if n = 0 then enc_track_or_undo item_begin e1
     else if enc_depth e1 + 1 \<ge> int ANTS_CBOR_MAX_DEPTH
     then (ANTS_ERROR_OVERFLOW, e1\<lparr>enc_pos := item_begin\<rparr>)
     else (ANTS_OK, enc_push_ctx k n item_begin e1))"
proof (cases "enc_pos e + length (head_bytes major v) > enc_cap e")
  case True
  then show ?thesis
    using outcome_too_small by (simp add: cbor_write_head_eq [OF m] in_room_enc [OF rel])
next
  case False
  then have room: "enc_pos e + length (head_bytes major v) \<le> enc_cap e" by simp
  show ?thesis
    using False track_put [OF rel room] push_put [OF rel room, of k n] enc.rel_depth [OF rel]
      outcome_undone
    by (simp add: cbor_write_head_eq [OF m] in_room_enc [OF rel] open_frame_def not_le)
qed

lemma tag_call:
  assumes rel: "enc.rel e tops fs"
  shows "call_outcome e tops (head_bytes 6 t) (abs_call (enc_cap e - enc_pos e) fs (CTag t)) (ants_cbor_enc_tag t e)"
proof -
  have depth: "enc_depth e + 1 \<ge> int ANTS_CBOR_MAX_DEPTH \<longleftrightarrow> length fs \<ge> ANTS_CBOR_MAX_DEPTH"
    using enc.rel_depth [OF rel] by simp
  have fail: "call_outcome e tops bs (Inl err) (err, e)" if "err \<noteq> ANTS_OK" for err bs
    using that by (simp add: call_outcome_def enc_same_refl)
  define bad where "bad \<longleftrightarrow> t \<noteq> 0 \<and> t \<noteq> 32 \<and> t \<noteq> 42"
  consider "bad" | "\<not> bad" "length fs \<ge> ANTS_CBOR_MAX_DEPTH"
    | "\<not> bad" "length fs < ANTS_CBOR_MAX_DEPTH" "enc_pos e + length (head_bytes 6 t) > enc_cap e"
    | "\<not> bad" "length fs < ANTS_CBOR_MAX_DEPTH" "enc_pos e + length (head_bytes 6 t) \<le> enc_cap e"
    by linarith
  then show ?thesis
    unfolding ants_cbor_enc_tag_def abs_call.simps bad_def [symmetric] depth
    using push_put [OF rel _ head_bytes_nonempty, of 6 t CTX_TAG 1]
    by cases (simp_all add: open_frame_def in_room_enc [OF rel] cbor_write_head_eq fail)
qed

lemma byte_call:
  assumes rel: "enc.rel e tops fs"
  shows "call_outcome e tops [b] (in_room (enc_cap e - enc_pos e) [b] (add_item fs [b]))
    (if enc_pos e + 1 > enc_cap e then (ANTS_ERROR_BUFFER_TOO_SMALL, e)
     else enc_track_or_undo (enc_pos e) (put_byte b e))"
  using outcome_too_small track_put [OF rel, of "[b]"] by (simp add: in_room_enc [OF rel] not_less)

text \<open>Every encoder call has the outcome \<open>abs_call\<close> gives it.\<close>

lemma exec_call_sim:
  assumes rel: "enc.rel e tops fs"
  shows "call_outcome e tops (call_bytes c) (abs_call (enc_cap e - enc_pos e) fs c) (exec_call c e)"
proof (cases c)
  case (CUint v)
  then show ?thesis
    using string_call [OF rel, of 0 v "[]"] by (simp add: ants_cbor_enc_uint_def Let_def split_def cong: if_cong)
next
  case (CInt v)
  then show ?thesis
    using string_call [OF rel, of 0 v "[]"] string_call [OF rel, of 1 "NOT v" "[]"]
    by (cases "0 \<le> sint v")
      (simp_all add: ants_cbor_enc_int_def Let_def split_def cong: if_cong split del: if_split)
next
  case (CBytes b)
  then show ?thesis
    using string_call [OF rel, of 2 "of_nat (length b)" b] by (simp add: ants_cbor_enc_bytes_def)
next
  case (CText b)
  then show ?thesis
    using string_call [OF rel, of 3 "of_nat (length b)" b] by (simp add: ants_cbor_enc_text_def)
next
  case (CArray n)
  then show ?thesis
    using container_call [OF rel, of 4 "of_nat n" n CTX_ARRAY] by (simp add: ants_cbor_enc_array_def cong: if_cong split del: if_split)
next
  case (CMap n)
  then show ?thesis
    using container_call [OF rel, of 5 "of_nat n" n CTX_MAP_KEY] by (simp add: ants_cbor_enc_map_def cong: if_cong split del: if_split)
next
  case (CBool v)
  show ?thesis
    unfolding CBool using byte_call [OF rel, of "if v then 0xf5 else 0xf4"]
    by (simp add: ants_cbor_enc_bool_def Let_def split del: if_split)
next
  case CNull
  show ?thesis
    unfolding CNull using byte_call [OF rel, of "0xf6"]
    by (simp add: ants_cbor_enc_null_def Let_def split del: if_split)
next
  case (CTag t)
  show ?thesis unfolding CTag using tag_call [OF rel, of t] by (simp only: exec_call.simps call_bytes.simps)
qed

section \<open>Runs of calls\<close>

fun abs_run :: "nat \<Rightarrow> frame list \<Rightarrow> enc_call list \<Rightarrow> (frame list \<times> bytes) res" where
  "abs_run room fs [] = Inr (fs, [])"
| "abs_run room fs (c # cs) =
    (case abs_call room fs c of
       Inl e \<Rightarrow> Inl e
     | Inr (fs1, out1) \<Rightarrow>
         (case abs_run (room - length (call_bytes c)) fs1 cs of
            Inl e \<Rightarrow> Inl e
          | Inr (fs2, out2) \<Rightarrow> Inr (fs2, out1 @ out2)))"

abbreviation run_bytes :: "enc_call list \<Rightarrow> bytes" where
  "run_bytes cs \<equiv> concat (map call_bytes cs)"

lemma run_calls_sim:
  assumes "enc.rel e tops fs"
  shows "case abs_run (enc_cap e - enc_pos e) fs cs of
      Inl err \<Rightarrow> fst (run_steps (map exec_call cs) e) = err \<and> err \<noteq> ANTS_OK
    | Inr (fs', out) \<Rightarrow> \<exists>e'. run_steps (map exec_call cs) e = (ANTS_OK, e') \<and> enc.rel e' (tops @ out) fs' \<and>
        enc_cap e' = enc_cap e \<and> enc_pos e' = enc_pos e + length (run_bytes cs) \<and>
        take (enc_pos e') (enc_buf e') = take (enc_pos e) (enc_buf e) @ run_bytes cs"
  using assms
proof (induction cs arbitrary: e tops fs)
  case Nil
  then show ?case by simp
next
  case (Cons c cs)
  obtain rc e1 where call: "exec_call c e = (rc, e1)" by fastforce
  note out = exec_call_sim [OF Cons.prems, of c, unfolded call call_outcome_def]
  show ?case
  proof (cases "abs_call (enc_cap e - enc_pos e) fs c")
    case (Inl err)
    with out call show ?thesis by simp
  next
    case (Inr r)
    then obtain fs1 out1 where r: "abs_call (enc_cap e - enc_pos e) fs c = Inr (fs1, out1)" by (cases r) simp
    from out have e1: "rc = ANTS_OK" "enc.rel e1 (tops @ out1) fs1" "enc_cap e1 = enc_cap e"
        "enc_pos e1 = enc_pos e + length (call_bytes c)"
        "take (enc_pos e1) (enc_buf e1) = take (enc_pos e) (enc_buf e) @ call_bytes c"
      unfolding r sum.case prod.case fst_conv snd_conv by blast+
    have room: "enc_cap e1 - enc_pos e1 = enc_cap e - enc_pos e - length (call_bytes c)" using e1 by simp
    show ?thesis
      using Cons.IH [OF e1(2), unfolded room e1(5)] r call e1(1,3,4)
      by (auto split: sum.splits)
  qed
qed

lemma abs_run_append:
  "abs_run room fs (cs @ ds) =
    (case abs_run room fs cs of
       Inl e \<Rightarrow> Inl e
     | Inr (fs1, out1) \<Rightarrow>
         (case abs_run (room - length (run_bytes cs)) fs1 ds of
            Inl e \<Rightarrow> Inl e
          | Inr (fs2, out2) \<Rightarrow> Inr (fs2, out1 @ out2)))"
  by (induction cs arbitrary: room fs) (auto split: sum.splits)

text \<open>Room never changes what a run that succeeds produces: it either suffices or the
  run ends with \<open>ANTS_ERROR_BUFFER_TOO_SMALL\<close>.\<close>

lemma abs_call_room:
  "abs_call room fs c = Inr r \<Longrightarrow> abs_call room' fs c =
    (if length (call_bytes c) \<le> room' then Inr r else Inl ANTS_ERROR_BUFFER_TOO_SMALL)"
  by (cases c) (auto simp: in_room_def split: if_splits sum.splits)

lemma abs_run_room:
  "abs_run room fs cs = Inr r \<Longrightarrow> abs_run room' fs cs =
    (if length (run_bytes cs) \<le> room' then Inr r else Inl ANTS_ERROR_BUFFER_TOO_SMALL)"
proof (induction cs arbitrary: room room' fs r)
  case (Cons c cs)
  then obtain fs1 out1 fs2 out2 where c: "abs_call room fs c = Inr (fs1, out1)"
    and cs: "abs_run (room - length (call_bytes c)) fs1 cs = Inr (fs2, out2)" and r: "r = (fs2, out1 @ out2)"
    by (auto split: sum.splits)
  show ?case
    using abs_call_room [OF c, of room'] Cons.IH [OF cs, of "room' - length (call_bytes c)"] r by auto
qed simp

section \<open>Encoding an item\<close>

fun calls_of :: "item \<Rightarrow> enc_call list" where
  "calls_of (UInt v) = [CUint v]"
| "calls_of (NInt v) = [CInt (NOT v)]"
| "calls_of (ByteStr b) = [CBytes b]"
| "calls_of (TextStr b) = [CText b]"
| "calls_of (Arr xs) = CArray (length xs) # concat (map calls_of xs)"
| "calls_of (MapI kvs) = CMap (length kvs) # concat (map calls_of (pair_items kvs))"
| "calls_of (Tagged t x) = CTag t # calls_of x"
| "calls_of (Boolean v) = [CBool v]"
| "calls_of NullI = [CNull]"

lemma sint_not_neg: "v \<le> INT64_MAX \<Longrightarrow> \<not> 0 \<le> sint (NOT v)"
proof -
  assume "v \<le> INT64_MAX"
  then have "v < 2 ^ 63" by (simp add: INT64_MAX_def word_le_nat_alt word_less_nat_alt)
  then have "\<not> bit v 63" by (metis bit_take_bit_iff less_mask_eq less_irrefl take_bit_eq_mask)
  then have "bit (NOT v) 63" by (simp add: bit_not_iff)
  then show ?thesis using bit_last_iff [of "NOT v"] by simp
qed

text \<open>\<open>encodes h cs bs\<close>: with room for \<open>h\<close> more open containers, the calls \<open>cs\<close> write \<open>bs\<close>
  and register it as one item.\<close>

definition encodes :: "nat \<Rightarrow> enc_call list \<Rightarrow> bytes \<Rightarrow> bool" where
  "encodes h cs bs \<longleftrightarrow> run_bytes cs = bs \<and>
    (\<forall>room fs. length bs \<le> room \<longrightarrow> length fs + h \<le> ANTS_CBOR_MAX_DEPTH \<longrightarrow> abs_run room fs cs = add_item fs bs)"

lemma encodes_bytes: "encodes h cs bs \<Longrightarrow> run_bytes cs = bs"
  by (simp add: encodes_def)

lemma encodes_run:
  "encodes h cs bs \<Longrightarrow> length bs \<le> room \<Longrightarrow> length fs + h \<le> ANTS_CBOR_MAX_DEPTH \<Longrightarrow>
   abs_run room fs (cs @ ds) =
    (case add_item fs bs of
       Inl e \<Rightarrow> Inl e
     | Inr (fs1, out1) \<Rightarrow>
         (case abs_run (room - length bs) fs1 ds of
            Inl e \<Rightarrow> Inl e
          | Inr (fs2, out2) \<Rightarrow> Inr (fs2, out1 @ out2)))"
  by (cases "add_item fs bs") (auto simp: encodes_def abs_run_append)

lemma encodes_array:
  assumes "\<forall>x \<in> set xs. encodes h (calls_of x) (enc_item x)" "xs \<noteq> []"
    and "length (concat (map enc_item xs)) \<le> room" "length fs + Suc h \<le> ANTS_CBOR_MAX_DEPTH"
  shows "abs_run room (Frame CTX_ARRAY (length xs) key fb # fs) (concat (map calls_of xs)) =
    add_item fs (fb @ concat (map enc_item xs))"
  using assms
proof (induction xs arbitrary: room fb)
  case (Cons x xs)
  have x: "encodes h (calls_of x) (enc_item x)" and len: "length (enc_item x) \<le> room"
    using Cons.prems by simp_all
  show ?case
  proof (cases "xs = []")
    case True
    with Cons.prems encodes_run [OF x len, of "Frame CTX_ARRAY 1 key fb # fs" "[]"]
    show ?thesis by (auto split: sum.splits)
  next
    case False
    then have "length xs \<noteq> 0" by simp
    with False Cons.prems encodes_run [OF x len, of "Frame CTX_ARRAY (Suc (length xs)) key fb # fs"] 
    show ?thesis by (auto simp: Cons.IH split: sum.splits)
  qed
qed simp

lemma encodes_map:
  assumes "\<forall>x \<in> set (pair_items kvs). encodes h (calls_of x) (enc_item x)" "kvs \<noteq> []"
    and "length (concat (map enc_item (pair_items kvs))) \<le> room" "length fs + Suc h \<le> ANTS_CBOR_MAX_DEPTH"
    and "sorted_wrt bytes_less (map (\<lambda>kv. enc_item (fst kv)) kvs)"
    and "key = None \<or> bytes_less (the key) (enc_item (fst (hd kvs)))"
  shows "abs_run room (Frame CTX_MAP_KEY (length kvs) key fb # fs) (concat (map calls_of (pair_items kvs))) =
    add_item fs (fb @ concat (map enc_item (pair_items kvs)))"
  using assms
proof (induction kvs arbitrary: room fb key)
  case (Cons kv kvs)
  obtain k v where kv: "kv = (k, v)" by fastforce
  have k: "encodes h (calls_of k) (enc_item k)" "length (enc_item k) \<le> room"
    and v: "encodes h (calls_of v) (enc_item v)" "length (enc_item v) \<le> room - length (enc_item k)"
    using Cons.prems by (simp_all add: kv)
  note key_step = encodes_run [OF k, of "Frame CTX_MAP_KEY (Suc (length kvs)) key fb # fs"]
  note val_step = encodes_run [OF v, of "Frame CTX_MAP_VALUE (Suc (length kvs)) (Some (enc_item k)) (fb @ enc_item k) # fs"]
  show ?case
  proof (cases "kvs = []")
    case True
    with Cons.prems(4,6) key_step val_step [where ds = "[]"]
    show ?thesis by (auto simp: kv split: sum.splits)
  next
    case False
    then have "length kvs \<noteq> 0" "bytes_less (enc_item k) (enc_item (fst (hd kvs)))"
      using Cons.prems(5) by (simp_all add: kv)
    with False Cons.prems key_step val_step show ?thesis
      by (auto simp: kv Cons.IH split: sum.splits)
  qed
qed simp

lemma encodes_item: "wf_item x \<Longrightarrow> nests_within h x \<Longrightarrow> encodes h (calls_of x) (enc_item x)"
proof (induction x arbitrary: h rule: calls_of.induct)
  case (2 v)
  then show ?case using sint_not_neg [of v] by (auto simp: encodes_def in_room_def split: sum.splits)
next
  case (5 xs)
  show ?case
  proof (cases "xs = []")
    case True
    then show ?thesis by (auto simp: encodes_def in_room_def split: sum.splits)
  next
    case False
    with 5 have h: "0 < h" and all: "\<forall>x \<in> set xs. encodes (h - 1) (calls_of x) (enc_item x)" by auto
    from all have "run_bytes (concat (map calls_of xs)) = concat (map enc_item xs)"
      by (induction xs) (auto simp: encodes_def)
    then show ?thesis
      using False h encodes_array [OF all False]
      by (auto simp: encodes_def in_room_def open_frame_def split: sum.splits)
  qed
next
  case (6 kvs)
  show ?case
  proof (cases "kvs = []")
    case True
    then show ?thesis by (auto simp: encodes_def in_room_def split: sum.splits)
  next
    case False
    with 6 have h: "0 < h" and all: "\<forall>x \<in> set (pair_items kvs). encodes (h - 1) (calls_of x) (enc_item x)" by auto
    from all have "run_bytes (concat (map calls_of (pair_items kvs))) = concat (map enc_item (pair_items kvs))"
      by (induction kvs) (auto simp: encodes_def)
    then show ?thesis
      using False h 6(2) encodes_map [OF all False]
      by (auto simp: encodes_def in_room_def open_frame_def split: sum.splits)
  qed
next
  case (7 t x)
  then have h: "0 < h" and x: "encodes (h - 1) (calls_of x) (enc_item x)" by auto
  then show ?case using 7(2) encodes_run [OF x, where ds = "[]"]
    by (auto simp: encodes_def in_room_def open_frame_def split: sum.splits)
qed (auto simp: encodes_def in_room_def split: sum.splits)

section \<open>Encoding a document\<close>

text \<open>The frame of every \<^verbatim>\<open>*_encode\<close> function of the client: initialise an encoder over the
  caller's buffer, make the calls, return the first error, finalise, and report the size.
  The result is the written prefix of the buffer.\<close>

definition cbor_document :: "bytes \<Rightarrow> ants_cbor_enc step list \<Rightarrow> bytes res" where
  "cbor_document buf calls =
    (case ants_cbor_enc_init buf of
       Inl e \<Rightarrow> Inl e
     | Inr enc \<Rightarrow>
         (case run_steps calls enc of (rc, enc1) \<Rightarrow>
            if rc \<noteq> ANTS_OK then Inl rc
            else let rc2 = ants_cbor_enc_finalise enc1 in
            if rc2 \<noteq> ANTS_OK then Inl rc2
            else Inr (take (ants_cbor_enc_size enc1) (enc_buf enc1))))"

definition fits :: "bytes \<Rightarrow> bytes \<Rightarrow> bytes res" where
  "fits buf out =
    (if length buf = 0 then Inl ANTS_ERROR_INVALID_ARG
     else if length out \<le> length buf then Inr out
     else Inl ANTS_ERROR_BUFFER_TOO_SMALL)"

lemma enc_init_rel: "ants_cbor_enc_init buf = Inr e \<Longrightarrow> enc.rel e [] [] \<and> enc_pos e = 0 \<and> enc_buf e = buf"
  by (auto simp: ants_cbor_enc_init_def enc.rel_def cursor_rel_def open_ctxs_def split: if_splits)

lemma document_run:
  assumes run: "abs_run room [] cs = Inr ([], out)" and "out \<noteq> []" "run_bytes cs = out"
  shows "cbor_document buf (map exec_call cs) = fits buf out"
proof (cases "ants_cbor_enc_init buf")
  case (Inl err)
  then show ?thesis by (auto simp: cbor_document_def fits_def ants_cbor_enc_init_def split: if_splits)
next
  case (Inr e)
  then have nonempty: "length buf \<noteq> 0" by (auto simp: ants_cbor_enc_init_def)
  from enc_init_rel [OF Inr] have e: "enc.rel e [] []" "enc_pos e = 0" "enc_buf e = buf" by simp_all
  note sim = run_calls_sim [OF e(1), of cs, unfolded e abs_run_room [OF run]]
  show ?thesis
  proof (cases "length out \<le> length buf")
    case True
    with sim assms obtain e' where "run_steps (map exec_call cs) e = (ANTS_OK, e')" "enc.rel e' out []"
        "take (enc_pos e') (enc_buf e') = out" "enc_pos e' = length out"
      by auto
    then show ?thesis
      using Inr True nonempty assms(2) enc.rel_depth [of e' out "[]"]
      by (simp add: cbor_document_def fits_def ants_cbor_enc_finalise_def ants_cbor_enc_size_def)
  next
    case False
    with sim assms nonempty Inr show ?thesis
      by (auto simp: cbor_document_def fits_def split: prod.splits)
  qed
qed

lemma document_item:
  assumes "wf_item x" "nests_within ANTS_CBOR_MAX_DEPTH x" "calls = map exec_call (calls_of x)"
  shows "cbor_document buf calls = fits buf (enc_item x)"
proof -
  from encodes_item [OF assms(1,2)] have "abs_run (length (enc_item x)) [] (calls_of x) = Inr ([], enc_item x)"
      "run_bytes (calls_of x) = enc_item x"
    by (simp_all add: encodes_def)
  then show ?thesis using assms(3) by (simp add: document_run)
qed

end
