(* ===== verification/Cbor_Decode.thy ===== *)
theory Cbor_Decode
  imports Cbor_Encode
begin

text \<open>
  The decoder calls read back the encoder calls. \<open>call_reader\<close> is the contract of one
  decoder call: when it succeeds, the bytes it consumed are those the matching encoder
  call writes and the open frames move the same way (\<open>sound\<close>); on those bytes it
  succeeds (\<open>complete\<close>); when it fails the decoder is as before (\<open>restores\<close>). The
  nine decoder entry points are interpretations of it.
\<close>

section \<open>Steps of the decoder over the frames\<close>

definition call_ok :: "enc_call \<Rightarrow> bool" where
  "call_ok c =
    (case c of
       CBytes b \<Rightarrow> length b < 2 ^ 64
     | CText b \<Rightarrow> length b < 2 ^ 64
     | CArray n \<Rightarrow> n < 2 ^ 64
     | CMap n \<Rightarrow> n < 2 ^ 64
     | _ \<Rightarrow> True)"

definition opens :: "frame list \<Rightarrow> enc_call \<Rightarrow> (frame list \<times> bytes) res" where
  "opens fs c = abs_call (length (call_bytes c)) fs c"

definition dec_moved :: "ants_cbor_dec \<Rightarrow> bytes \<Rightarrow> bytes \<Rightarrow> frame list \<Rightarrow> ants_cbor_dec \<Rightarrow> bool" where
  "dec_moved d bs tops fs d' \<longleftrightarrow> dec_rest d = bs @ dec_rest d' \<and> dec.rel d' tops fs \<and> dec_buf d' = dec_buf d"

lemma dec_moved_trans:
  "dec_moved d bs tops fs d1 \<Longrightarrow> dec_moved d1 bs' tops' fs' d2 \<Longrightarrow> dec_moved d (bs @ bs') tops' fs' d2"
  by (simp add: dec_moved_def)

lemma dec_track:
  assumes rel: "dec.rel d tops fs" and rest: "dec_rest d = bs @ r" and ne: "bs \<noteq> []"
    and d1: "d1 = d\<lparr>dec_pos := dec_pos d + length bs\<rparr>"
  shows "case add_item fs bs of
      Inl e \<Rightarrow> e \<noteq> ANTS_OK \<and> dec_track_item (dec_pos d) d1 = (e, d1)
    | Inr (fs', out) \<Rightarrow> \<exists>d2. dec_track_item (dec_pos d) d1 = (ANTS_OK, d2) \<and> dec_moved d bs (tops @ out) fs' d2"
proof -
  define p where "p = take (dec_pos d) (dec_buf d)"
  have pos: "dec_pos d \<le> dec_len d" and len: "length p = dec_pos d"
    and cr: "cursor_rel p (dec_stack d1) (dec_depth d1) tops fs"
    using rel by (simp_all add: dec.rel_def p_def d1)
  have buf: "dec_buf d = p @ bs @ r" using rest unfolding dec_rest_def p_def by (metis append_take_drop_id)
  have written: "take (dec_pos d1) (dec_buf d1) = p @ bs" and fits: "dec_pos d1 \<le> dec_len d1"
    using buf len by (simp_all add: d1)
  show ?thesis
  proof (cases "add_item fs bs")
    case (Inl e)
    from dec.track_rejects [OF cr written fits ne Inl] add_item_error [OF Inl] Inl len show ?thesis by auto
  next
    case (Inr x)
    then obtain fs' out where x: "add_item fs bs = Inr (fs', out)" by (cases x) simp
    from dec.track_accepts [OF cr written fits ne x] obtain d2
      where "dec_track_item (dec_pos d) d1 = (ANTS_OK, d2)" "dec.rel d2 (tops @ out) fs'"
        "dec_pos d2 = dec_pos d1" "dec_buf d2 = dec_buf d1"
      using len by metis
    then show ?thesis using x buf len by (simp add: dec_moved_def dec_rest_def d1)
  qed
qed

lemma dec_push:
  assumes rel: "dec.rel d tops fs" and rest: "dec_rest d = bs @ r" and ne: "bs \<noteq> []"
    and depth: "length fs < ANTS_CBOR_MAX_DEPTH"
  shows "dec_moved d bs tops (Frame k n None bs # fs)
    (dec_push_ctx k n (dec_pos d) (d\<lparr>dec_pos := dec_pos d + length bs\<rparr>))"
proof -
  define p where "p = take (dec_pos d) (dec_buf d)"
  have len: "length p = dec_pos d" and cr: "cursor_rel p (dec_stack d) (dec_depth d) tops fs"
    using rel by (simp_all add: dec.rel_def p_def)
  have buf: "dec_buf d = p @ bs @ r" using rest unfolding dec_rest_def p_def by (metis append_take_drop_id)
  have "dec_depth d + 1 < int ANTS_CBOR_MAX_DEPTH"
    using dec.rel_depth [OF rel] depth by simp
  from cursor_rel_push [OF cr this ne refl, of k n] show ?thesis
    using buf len by (simp add: dec_moved_def dec_rest_def dec_push_ctx_def dec.rel_def)
qed

lemma dec_rest_pos: "dec_rest d = bs @ r \<Longrightarrow> dec_rest (d\<lparr>dec_pos := dec_pos d + length bs\<rparr>) = r"
  by (simp add: dec_rest_def) (metis add.commute append_eq_conv_conj drop_drop)

section \<open>The contract of a decoder call\<close>

definition keeps_on_error :: "(ants_cbor_dec, 'a) reader \<Rightarrow> ants_cbor_dec \<Rightarrow> bool" where
  "keeps_on_error read d = (case read d of (Inl e, d') \<Rightarrow> e \<noteq> ANTS_OK \<and> d' = d | (Inr v, d') \<Rightarrow> True)"

locale call_reader =
  fixes read :: "(ants_cbor_dec, 'a) reader"
    and call :: "'a \<Rightarrow> enc_call"
  assumes sound: "dec.rel d tops fs \<Longrightarrow> read d = (Inr v, d') \<Longrightarrow>
      call_ok (call v) \<and> (\<exists>fs' out. opens fs (call v) = Inr (fs', out) \<and>
        dec_moved d (call_bytes (call v)) (tops @ out) fs' d')"
    and complete: "dec.rel d tops fs \<Longrightarrow> call_ok (call v) \<Longrightarrow> dec_rest d = call_bytes (call v) @ r \<Longrightarrow>
      opens fs (call v) = Inr (fs', out) \<Longrightarrow> \<exists>d'. read d = (Inr v, d') \<and>
        dec_moved d (call_bytes (call v)) (tops @ out) fs' d'"
    and restores: "read d = (Inl e, d') \<Longrightarrow> e \<noteq> ANTS_OK \<and> d' = d"
begin

lemma ok: "rc_step read d = (ANTS_OK, d') \<Longrightarrow> \<exists>v. read d = (Inr v, d')"
  using restores [of d] by (cases "read d", cases "fst (read d)") (auto simp: rc_step_def)

lemma keeps: "keeps_on_error read d"
  using restores [of d] by (auto simp: keeps_on_error_def split: prod.splits sum.splits)

lemma consumes: "dec.rel d tops fs \<Longrightarrow> read d = (Inr v, d') \<Longrightarrow> length (dec_rest d') < length (dec_rest d)"
  using sound [of d tops fs v d'] by (auto simp: dec_moved_def)

end

section \<open>The nine calls\<close>

lemma read_head_fail_pos: "cbor_read_head d = (Inl e, d1) \<Longrightarrow> e \<noteq> ANTS_OK \<and> d1\<lparr>dec_pos := dec_pos d\<rparr> = d"
  by (auto simp: cbor_read_head_def Let_def split: if_splits)

lemma read_head_pos: "cbor_read_head d = (Inr r, d1) \<Longrightarrow> d1\<lparr>dec_pos := dec_pos d\<rparr> = d"
  by (cases r) (auto dest: cbor_read_head_sound(3))

lemma track_fail_state: "dec_track_item i d = (rc, d') \<Longrightarrow> rc \<noteq> ANTS_OK \<Longrightarrow> d' = d"
  by (auto simp: dec_track_item_def split: sum.splits)

lemma track_read:
  assumes "dec.rel d tops fs" "dec_rest d = bs @ r" "bs \<noteq> []"
    and "dec_track_item (dec_pos d) (d\<lparr>dec_pos := dec_pos d + length bs\<rparr>) = (ANTS_OK, d')"
  shows "\<exists>fs' out. add_item fs bs = Inr (fs', out) \<and> dec_moved d bs (tops @ out) fs' d'"
  using dec_track [OF assms(1-3) refl] assms(4) by (auto split: sum.splits)

lemma read_track:
  assumes "dec.rel d tops fs" "dec_rest d = bs @ r" "bs \<noteq> []" "add_item fs bs = Inr (fs', out)"
  shows "\<exists>d'. dec_track_item (dec_pos d) (d\<lparr>dec_pos := dec_pos d + length bs\<rparr>) = (ANTS_OK, d') \<and>
    dec_moved d bs (tops @ out) fs' d'"
  using dec_track [OF assms(1-3) refl] assms(4) by auto

lemmas reader_defs = call_ok_def opens_def in_room_def open_frame_def Let_def

lemma read_head_split:
  "cbor_read_head d = (Inr (major, v), d1) \<longleftrightarrow>
     major \<le> 7 \<and> d1 = d\<lparr>dec_pos := dec_pos d + length (head_bytes major v)\<rparr> \<and> (\<exists>r. dec_rest d = head_bytes major v @ r)"
  using cbor_read_head_sound [of d major v d1] cbor_read_head_complete [of major d v] by auto

interpretation dec_uint: call_reader ants_cbor_dec_uint CUint
proof (unfold_locales, goal_cases)
  case (1 d tops fs v d')
  then show ?case
    by (auto simp: ants_cbor_dec_uint_def reader_defs read_head_split split: prod.splits sum.splits if_splits
        intro!: track_read)
next
  case (2 d tops fs v r fs' out)
  then show ?case
    using read_track [of d tops fs "head_bytes 0 v" r fs' out] cbor_read_head_complete [of 0 d v r]
    by (auto simp: ants_cbor_dec_uint_def reader_defs split: if_splits)
next
  case (3 d e d')
  then show ?case
    by (auto simp: ants_cbor_dec_uint_def Let_def dest!: read_head_fail_pos read_head_pos track_fail_state
        split: prod.splits sum.splits if_splits)
qed

lemma int_range: "v \<le> INT64_MAX \<longleftrightarrow> 0 \<le> sint v"
proof -
  have "bit v 63 \<longleftrightarrow> bit (uint v) 63" by (simp add: bit_uint_iff)
  also have "\<dots> \<longleftrightarrow> uint v \<ge> 2 ^ 63"
  proof -
    have "uint v < 2 * 2 ^ 63" "0 \<le> uint v" using uint_bounded [of v] by simp_all
    then have "uint v div 2 ^ 63 = (if uint v \<ge> 2 ^ 63 then 1 else 0)"
      using int_div_pos_eq [of "uint v" "2 ^ 63" 1 "uint v - 2 ^ 63"] by auto
    then show ?thesis by (simp add: bit_iff_odd)
  qed
  also have "\<dots> \<longleftrightarrow> \<not> v \<le> INT64_MAX" by (simp add: INT64_MAX_def word_le_def) linarith
  finally show ?thesis using bit_last_iff [of v] by auto
qed

lemma int_not_range: "\<not> 0 \<le> sint v \<Longrightarrow> 0 \<le> sint (NOT (v :: u64))"
  using bit_last_iff [of v] bit_last_iff [of "NOT v"] by (simp add: bit_not_iff not_le)

lemma call_bytes_int:
  assumes "v \<le> INT64_MAX"
  shows "call_bytes (CInt v) = head_bytes 0 v" "call_bytes (CInt (-1 - v)) = head_bytes 1 v"
proof -
  have "-1 - v = NOT v" by (simp add: not_eq_complement)
  then show "call_bytes (CInt (-1 - v)) = head_bytes 1 v" using sint_not_neg [OF assms] by simp
qed (use assms in \<open>simp add: int_range\<close>)

interpretation dec_int: call_reader ants_cbor_dec_int CInt
proof (unfold_locales, goal_cases)
  case (1 d tops fs v d')
  from 1(2) obtain major w r where m: "major = 0 \<and> v = w \<or> major = 1 \<and> v = -1 - w" "w \<le> INT64_MAX"
    and rest: "dec_rest d = head_bytes major w @ r"
    and track: "dec_track_item (dec_pos d) (d\<lparr>dec_pos := dec_pos d + length (head_bytes major w)\<rparr>) = (ANTS_OK, d')"
    by (auto simp: ants_cbor_dec_int_def Let_def read_head_split not_less split: prod.splits sum.splits if_splits)
  from m have bytes: "call_bytes (CInt v) = head_bytes major w"
    using call_bytes_int [of w] by (auto simp del: call_bytes.simps)
  from track_read [OF 1(1) rest _ track] show ?case
    unfolding reader_defs abs_call.simps bytes by simp
next
  case (2 d tops fs v r fs' out)
  define major w where "major = (if 0 \<le> sint v then 0 else 1 :: u8)" and "w = (if 0 \<le> sint v then v else NOT v)"
  have w: "\<not> INT64_MAX < w" using int_not_range [of v] by (simp add: w_def int_range not_less)
  have v: "(if major = 0 then w else -1 - w) = v" by (simp add: major_def w_def not_eq_complement)
  have m: "major \<le> 7" "\<not> (major \<noteq> 0 \<and> major \<noteq> 1)" by (simp_all add: major_def)
  have bytes: "call_bytes (CInt v) = head_bytes major w" by (simp add: major_def w_def)
  have rest: "dec_rest d = head_bytes major w @ r" using 2(3) bytes by simp
  have "add_item fs (head_bytes major w) = Inr (fs', out)"
    using 2(4) unfolding reader_defs abs_call.simps bytes by simp
  from read_track [OF 2(1) rest _ this] show ?case
    unfolding ants_cbor_dec_int_def cbor_read_head_complete [OF m(1) rest] bytes Let_def using w m v by auto
next
  case (3 d e d')
  then show ?case
    by (auto simp: ants_cbor_dec_int_def Let_def dest!: read_head_fail_pos read_head_pos track_fail_state
        split: prod.splits sum.splits if_splits)
qed

text \<open>Byte and text strings share their shape, and so do arrays and maps.\<close>

definition read_string :: "u8 \<Rightarrow> (ants_cbor_dec, bytes) reader" where
  "read_string m d =
    (let saved = dec_pos d in
     case cbor_read_head d of
       (Inl e, d1) \<Rightarrow> (Inl e, d1\<lparr>dec_pos := saved\<rparr>)
     | (Inr (major, value), d1) \<Rightarrow>
         if major \<noteq> m then (Inl ANTS_ERROR_UNSUPPORTED_TYPE, d1\<lparr>dec_pos := saved\<rparr>)
         else if value > SIZE_MAX then (Inl ANTS_ERROR_OVERFLOW, d1\<lparr>dec_pos := saved\<rparr>)
         else let len = unat value in
         if len > dec_len d1 - dec_pos d1 then (Inl ANTS_ERROR_MALFORMED, d1\<lparr>dec_pos := saved\<rparr>)
         else let bp = take len (drop (dec_pos d1) (dec_buf d1)) in
         case dec_track_item saved (d1\<lparr>dec_pos := dec_pos d1 + len\<rparr>) of (rc, d2) \<Rightarrow>
         if rc \<noteq> ANTS_OK then (Inl rc, d2\<lparr>dec_pos := saved\<rparr>) else (Inr bp, d2))"

lemma size_max: "\<not> (w :: u64) > SIZE_MAX"
  using unsigned_less [of w, where 'a = nat] by (simp add: SIZE_MAX_def not_less word_le_nat_alt)

lemma read_string_bytes: "ants_cbor_dec_bytes = read_string 2" "ants_cbor_dec_text = read_string 3"
  by (simp_all add: fun_eq_iff ants_cbor_dec_bytes_def ants_cbor_dec_text_def read_string_def)

lemma read_string_sound:
  assumes rel: "dec.rel d tops fs" and ok: "read_string m d = (Inr b, d')"
  defines "bs \<equiv> head_bytes m (of_nat (length b)) @ b"
  shows "length b < 2 ^ 64 \<and> (\<exists>fs' out. add_item fs bs = Inr (fs', out) \<and> dec_moved d bs (tops @ out) fs' d')"
proof -
  obtain w r where rest: "dec_rest d = head_bytes m w @ r" and len: "unat w \<le> length r"
    and b: "b = take (unat w) r"
    and track: "dec_track_item (dec_pos d) (d\<lparr>dec_pos := dec_pos d + length (head_bytes m w) + unat w\<rparr>) =
      (ANTS_OK, d')"
  proof -
    from ok obtain w d1 where h: "cbor_read_head d = (Inr (m, w), d1)"
      and "unat w \<le> dec_len d1 - dec_pos d1" "b = take (unat w) (drop (dec_pos d1) (dec_buf d1))"
        "dec_track_item (dec_pos d) (d1\<lparr>dec_pos := dec_pos d1 + unat w\<rparr>) = (ANTS_OK, d')"
      by (auto simp: read_string_def Let_def not_less split: prod.splits sum.splits if_splits)
    then show ?thesis
      using that [of w "dec_rest d1"] cbor_read_head_sound [OF h] by (simp add: dec_rest_def)
  qed
  have lb: "length b = unat w" using b len by simp
  then have v: "of_nat (length b) = w" by simp
  have "dec_rest d = bs @ drop (unat w) r" unfolding bs_def v using rest b by simp
  from track_read [OF rel this, of d'] show ?thesis
    using track lb v unsigned_less [of w] by (simp add: bs_def add.assoc)
qed

lemma read_string_complete:
  assumes rel: "dec.rel d tops fs" and m: "m \<le> 7" and len: "length b < 2 ^ 64"
  defines "bs \<equiv> head_bytes m (of_nat (length b)) @ b"
  assumes rest: "dec_rest d = bs @ r" and add: "add_item fs bs = Inr (fs', out)"
  shows "\<exists>d'. read_string m d = (Inr b, d') \<and> dec_moved d bs (tops @ out) fs' d'"
proof -
  have v: "unat (of_nat (length b) :: u64) = length b" using len by (simp add: unat_of_nat)
  have rest': "dec_rest d = head_bytes m (of_nat (length b)) @ b @ r" using rest by (simp add: bs_def)
  note h = cbor_read_head_complete [OF m rest']
  from dec_rest_pos [OF rest'] have "drop (dec_pos d + length (head_bytes m (of_nat (length b)))) (dec_buf d) = b @ r"
    by (simp add: dec_rest_def)
  moreover from arg_cong [OF this, of length]
  have "length b \<le> dec_len d - (dec_pos d + length (head_bytes m (of_nat (length b))))" by simp
  ultimately show ?thesis
    using read_track [OF rel rest _ add] size_max v by (auto simp: read_string_def h Let_def bs_def add.assoc)
qed

lemma read_string_restores: "read_string m d = (Inl e, d') \<Longrightarrow> e \<noteq> ANTS_OK \<and> d' = d"
  by (auto simp: read_string_def Let_def dest!: read_head_fail_pos track_fail_state read_head_pos
      split: prod.splits sum.splits if_splits)

interpretation dec_bytes: call_reader ants_cbor_dec_bytes CBytes
  using read_string_sound [of _ _ _ 2] read_string_complete [of _ _ _ 2] read_string_restores [of 2]
  by unfold_locales (auto simp: read_string_bytes reader_defs)

interpretation dec_text: call_reader ants_cbor_dec_text CText
  using read_string_sound [of _ _ _ 3] read_string_complete [of _ _ _ 3] read_string_restores [of 3]
  by unfold_locales (auto simp: read_string_bytes reader_defs)

definition read_container :: "u8 \<Rightarrow> ants_cbor_ctx_kind \<Rightarrow> (ants_cbor_dec, nat) reader" where
  "read_container m k d =
    (let saved = dec_pos d in
     case cbor_read_head d of
       (Inl e, d1) \<Rightarrow> (Inl e, d1\<lparr>dec_pos := saved\<rparr>)
     | (Inr (major, value), d1) \<Rightarrow>
         if major \<noteq> m then (Inl ANTS_ERROR_UNSUPPORTED_TYPE, d1\<lparr>dec_pos := saved\<rparr>)
         else if value > SIZE_MAX then (Inl ANTS_ERROR_OVERFLOW, d1\<lparr>dec_pos := saved\<rparr>)
         else let n = unat value in
         if n = 0 then
           case dec_track_item saved d1 of (rc, d2) \<Rightarrow>
           if rc \<noteq> ANTS_OK then (Inl rc, d2\<lparr>dec_pos := saved\<rparr>) else (Inr 0, d2)
         else if dec_depth d1 + 1 \<ge> int ANTS_CBOR_MAX_DEPTH
         then (Inl ANTS_ERROR_OVERFLOW, d1\<lparr>dec_pos := saved\<rparr>)
         else (Inr n, dec_push_ctx k n saved d1))"

lemma read_container_eq:
  "ants_cbor_dec_array = read_container 4 CTX_ARRAY" "ants_cbor_dec_map = read_container 5 CTX_MAP_KEY"
  by (simp_all add: fun_eq_iff ants_cbor_dec_array_def ants_cbor_dec_map_def read_container_def)

definition container_opens :: "u8 \<Rightarrow> ants_cbor_ctx_kind \<Rightarrow> nat \<Rightarrow> frame list \<Rightarrow> (frame list \<times> bytes) res" where
  "container_opens m k n fs =
    (if n = 0 then add_item fs (head_bytes m (of_nat n)) else open_frame k n fs (head_bytes m (of_nat n)))"

lemma read_container_sound:
  assumes rel: "dec.rel d tops fs" and ok: "read_container m k d = (Inr n, d')"
  shows "n < 2 ^ 64 \<and> (\<exists>fs' out. container_opens m k n fs = Inr (fs', out) \<and>
    dec_moved d (head_bytes m (of_nat n)) (tops @ out) fs' d')"
proof -
  from ok obtain w d1 where h: "cbor_read_head d = (Inr (m, w), d1)" and n: "n = unat w"
    and d': "if n = 0 then dec_track_item (dec_pos d) d1 = (ANTS_OK, d')
      else dec_depth d1 + 1 < int ANTS_CBOR_MAX_DEPTH \<and> d' = dec_push_ctx k n (dec_pos d) d1"
    by (auto simp: read_container_def Let_def unat_eq_0 split: prod.splits sum.splits if_splits)
  note head = cbor_read_head_sound [OF h]
  have w: "of_nat n = w" and "n < 2 ^ 64" using n unsigned_less [of w, where 'a = nat] by simp_all
  have depth: "dec_depth d1 = int (length fs) - 1" using head(3) dec.rel_depth [OF rel] by simp
  show ?thesis
  proof (cases "n = 0")
    case True
    then show ?thesis
      using d' track_read [OF rel head(2), of d'] head(3) w \<open>n < 2 ^ 64\<close> by (simp add: container_opens_def)
  next
    case False
    then have "\<not> ANTS_CBOR_MAX_DEPTH \<le> length fs" using d' depth by simp
    then show ?thesis
      using False d' dec_push [OF rel head(2), of k n] head(3) w \<open>n < 2 ^ 64\<close>
      by (simp add: container_opens_def open_frame_def)
  qed
qed

lemma read_container_complete:
  assumes rel: "dec.rel d tops fs" and m: "m \<le> 7" and n: "n < 2 ^ 64"
    and rest: "dec_rest d = head_bytes m (of_nat n) @ r" and op: "container_opens m k n fs = Inr (fs', out)"
  shows "\<exists>d'. read_container m k d = (Inr n, d') \<and> dec_moved d (head_bytes m (of_nat n)) (tops @ out) fs' d'"
proof -
  have v: "unat (of_nat n :: u64) = n" using n by (simp add: unat_of_nat)
  have depth: "dec_depth d = int (length fs) - 1" by (rule dec.rel_depth [OF rel])
  show ?thesis
  proof (cases "n = 0")
    case True
    with op have add: "add_item fs (head_bytes m (of_nat n)) = Inr (fs', out)" by (simp add: container_opens_def)
    from read_track [OF rel rest _ add] True show ?thesis
      using size_max by (auto simp: read_container_def cbor_read_head_complete [OF m rest] Let_def)
  next
    case False
    with op have lt: "\<not> ANTS_CBOR_MAX_DEPTH \<le> length fs" and eq: "fs' = Frame k n None (head_bytes m (of_nat n)) # fs" "out = []"
      by (auto simp: container_opens_def open_frame_def split: if_splits)
    from lt show ?thesis
      using False size_max dec_push [OF rel rest, of k n] depth eq v
      by (simp add: read_container_def cbor_read_head_complete [OF m rest] Let_def)
  qed
qed

lemma read_container_restores: "read_container m k d = (Inl e, d') \<Longrightarrow> e \<noteq> ANTS_OK \<and> d' = d"
  by (auto simp: read_container_def Let_def dest!: read_head_fail_pos track_fail_state read_head_pos
      split: prod.splits sum.splits if_splits)

lemma container_opens_call:
  "opens fs (CArray n) = container_opens 4 CTX_ARRAY n fs" "opens fs (CMap n) = container_opens 5 CTX_MAP_KEY n fs"
  by (simp_all add: opens_def container_opens_def in_room_def)

interpretation dec_array: call_reader ants_cbor_dec_array CArray
  using read_container_sound [of _ _ _ 4] read_container_complete [of _ _ _ 4] read_container_restores [of 4]
  by unfold_locales (auto simp: read_container_eq call_ok_def container_opens_call)

interpretation dec_map: call_reader ants_cbor_dec_map CMap
  using read_container_sound [of _ _ _ 5] read_container_complete [of _ _ _ 5] read_container_restores [of 5]
  by unfold_locales (auto simp: read_container_eq call_ok_def container_opens_call)

interpretation dec_tag: call_reader ants_cbor_dec_tag CTag
proof (unfold_locales, goal_cases)
  case (1 d tops fs v d')
  from 1(2) obtain d1 where h: "cbor_read_head d = (Inr (6, v), d1)" and t: "v = 0 \<or> v = 32 \<or> v = 42"
    and "dec_depth d1 + 1 < int ANTS_CBOR_MAX_DEPTH" "d' = dec_push_ctx CTX_TAG 1 (dec_pos d) d1"
    by (auto simp: ants_cbor_dec_tag_def Let_def split: prod.splits sum.splits if_splits)
  moreover note head = cbor_read_head_sound [OF h]
  ultimately show ?case
    using dec_push [OF 1(1) head(2), of CTX_TAG 1] dec.rel_depth [OF 1(1)]
    by (simp add: reader_defs)
next
  case (2 d tops fs v r fs' out)
  have rest: "dec_rest d = head_bytes 6 v @ r" using 2(3) by simp
  from 2(4) have "v = 0 \<or> v = 32 \<or> v = 42" "\<not> ANTS_CBOR_MAX_DEPTH \<le> length fs"
      "fs' = Frame CTX_TAG 1 None (head_bytes 6 v) # fs" "out = []"
    by (auto simp: reader_defs split: if_splits)
  then show ?case
    using dec_push [OF 2(1) rest, of CTX_TAG 1] dec.rel_depth [OF 2(1)] cbor_read_head_complete [OF _ rest]
    by (simp add: ants_cbor_dec_tag_def Let_def)
next
  case (3 d e d')
  then show ?case
    by (auto simp: ants_cbor_dec_tag_def Let_def dest!: read_head_fail_pos read_head_pos
        split: prod.splits sum.splits if_splits)
qed

lemma dec_rest_Cons: "dec_rest d = b # r \<longleftrightarrow> dec_pos d < dec_len d \<and> dec_buf d ! dec_pos d = b \<and> r = drop (Suc (dec_pos d)) (dec_buf d)"
  unfolding dec_rest_def by (metis Cons_nth_drop_Suc drop_eq_Nil list.inject list.simps(3) not_le)

interpretation dec_bool: call_reader ants_cbor_dec_bool CBool
proof (unfold_locales, goal_cases)
  case (1 d tops fs v d')
  from 1(2) have rest: "dec_rest d = [if v then 0xf5 else 0xf4] @ drop (Suc (dec_pos d)) (dec_buf d)"
    and track: "dec_track_item (dec_pos d) (d\<lparr>dec_pos := dec_pos d + length [if v then 0xf5 else 0xf4 :: u8]\<rparr>) = (ANTS_OK, d')"
    by (auto simp: ants_cbor_dec_bool_def Let_def dec_rest_Cons split: prod.splits if_splits)
  from track_read [OF 1(1) rest _ track] show ?case by (simp add: reader_defs)
next
  case (2 d tops fs v r fs' out)
  then show ?case
    using read_track [of d tops fs "[if v then 0xf5 else 0xf4]" r fs' out]
    by (auto simp: ants_cbor_dec_bool_def reader_defs dec_rest_Cons)
next
  case (3 d e d')
  then show ?case
    by (auto simp: ants_cbor_dec_bool_def Let_def dest!: track_fail_state split: prod.splits if_splits)
qed

interpretation dec_null: call_reader ants_cbor_dec_null "\<lambda>_. CNull"
proof (unfold_locales, goal_cases)
  case (1 d tops fs v d')
  from 1(2) have rest: "dec_rest d = [0xf6] @ drop (Suc (dec_pos d)) (dec_buf d)"
    and track: "dec_track_item (dec_pos d) (d\<lparr>dec_pos := dec_pos d + length [0xf6 :: u8]\<rparr>) = (ANTS_OK, d')"
    by (auto simp: ants_cbor_dec_null_def Let_def dec_rest_Cons split: prod.splits if_splits)
  from track_read [OF 1(1) rest _ track] show ?case by (simp add: reader_defs)
next
  case (2 d tops fs v r fs' out)
  then show ?case
    using read_track [of d tops fs "[0xf6]" r fs' out]
    by (auto simp: ants_cbor_dec_null_def reader_defs dec_rest_Cons)
next
  case (3 d e d')
  then show ?case
    by (auto simp: ants_cbor_dec_null_def Let_def dest!: track_fail_state split: prod.splits if_splits)
qed

end
