(* ===== verification/Cbor_Canonical.thy ===== *)
theory Cbor_Canonical
  imports Cbor_Decode
begin

text \<open>
  The whole-document validator. \<open>walk_sound\<close> and \<open>walk_complete\<close>: the walk succeeds
  exactly on the canonical encoding of a well-formed item; \<open>walk_total\<close>: the fuel of the
  model is always enough. Together they give what \<^verbatim>\<open>ants_cbor_is_canonical\<close> accepts, and
  that a document determines its item.
\<close>

section \<open>One item\<close>

definition item_read :: "ants_cbor_dec \<Rightarrow> bytes \<Rightarrow> frame list \<Rightarrow> item \<Rightarrow> ants_cbor_dec \<Rightarrow> bool" where
  "item_read d tops fs x d' \<longleftrightarrow> wf_item x \<and> nests_within (ANTS_CBOR_MAX_DEPTH - length fs) x \<and>
    (\<exists>fs' out. add_item fs (enc_item x) = Inr (fs', out) \<and> dec_moved d (enc_item x) (tops @ out) fs' d')"

definition walk_ok :: "nat \<Rightarrow> bool" where
  "walk_ok fuel \<longleftrightarrow> (\<forall>d tops fs d'. dec.rel d tops fs \<longrightarrow> walk_one_item fuel d = Some (ANTS_OK, d') \<longrightarrow>
     (\<exists>x. item_read d tops fs x d'))"

lemma walk_items_array:
  assumes "walk_ok fuel" "dec.rel d tops (Frame CTX_ARRAY n key fb # fs)" "n \<noteq> 0"
    and "walk_items fuel n d = Some (ANTS_OK, d')"
  shows "\<exists>xs fs' out. length xs = n \<and> (\<forall>x \<in> set xs. wf_item x \<and> nests_within (ANTS_CBOR_MAX_DEPTH - Suc (length fs)) x) \<and>
    add_item fs (fb @ concat (map enc_item xs)) = Inr (fs', out) \<and>
    dec_moved d (concat (map enc_item xs)) (tops @ out) fs' d'"
  using assms(2-)
proof (induction n arbitrary: d fb)
  case (Suc n)
  from Suc.prems(3) obtain d1 where w: "walk_one_item fuel d = Some (ANTS_OK, d1)"
    and rest: "walk_items fuel n d1 = Some (ANTS_OK, d')"
    by (auto split: option.splits prod.splits if_splits)
  from assms(1) Suc.prems(1) w obtain x where x: "item_read d tops (Frame CTX_ARRAY (Suc n) key fb # fs) x d1"
    unfolding walk_ok_def by blast
  show ?case
  proof (cases "n = 0")
    case True
    with x rest show ?thesis by (intro exI [of _ "[x]"]) (auto simp: item_read_def)
  next
    case False
    with x have m: "dec_moved d (enc_item x) tops (Frame CTX_ARRAY n key (fb @ enc_item x) # fs) d1"
      by (auto simp: item_read_def)
    from m have "dec.rel d1 tops (Frame CTX_ARRAY n key (fb @ enc_item x) # fs)" by (simp add: dec_moved_def)
    from Suc.IH [OF this False rest] obtain xs fs' out where xs: "length xs = n"
        "\<forall>x \<in> set xs. wf_item x \<and> nests_within (ANTS_CBOR_MAX_DEPTH - Suc (length fs)) x"
        "add_item fs ((fb @ enc_item x) @ concat (map enc_item xs)) = Inr (fs', out)"
        "dec_moved d1 (concat (map enc_item xs)) (tops @ out) fs' d'"
      by blast
    show ?thesis
      using x xs dec_moved_trans [OF m xs(4)] by (intro exI [of _ "x # xs"]) (auto simp: item_read_def)
  qed
qed simp

lemma walk_items_map:
  assumes "walk_ok fuel" "dec.rel d tops (Frame CTX_MAP_KEY n key fb # fs)" "n \<noteq> 0"
    and "walk_items fuel (2 * n) d = Some (ANTS_OK, d')"
  shows "\<exists>kvs fs' out. length kvs = n \<and>
    (\<forall>x \<in> set (pair_items kvs). wf_item x \<and> nests_within (ANTS_CBOR_MAX_DEPTH - Suc (length fs)) x) \<and>
    sorted_wrt bytes_less (map (\<lambda>kv. enc_item (fst kv)) kvs) \<and>
    (key = None \<or> bytes_less (the key) (enc_item (fst (hd kvs)))) \<and>
    add_item fs (fb @ concat (map enc_item (pair_items kvs))) = Inr (fs', out) \<and>
    dec_moved d (concat (map enc_item (pair_items kvs))) (tops @ out) fs' d'"
  using assms(2-)
proof (induction n arbitrary: d fb key)
  case (Suc n)
  from Suc.prems(3) obtain d1 d2 where w: "walk_one_item fuel d = Some (ANTS_OK, d1)" "walk_one_item fuel d1 = Some (ANTS_OK, d2)"
    and rest: "walk_items fuel (2 * n) d2 = Some (ANTS_OK, d')"
    by (auto split: option.splits prod.splits if_splits)
  from assms(1) Suc.prems(1) w(1) obtain k where k: "item_read d tops (Frame CTX_MAP_KEY (Suc n) key fb # fs) k d1"
    unfolding walk_ok_def by blast
  then have mk: "dec_moved d (enc_item k) tops (Frame CTX_MAP_VALUE (Suc n) (Some (enc_item k)) (fb @ enc_item k) # fs) d1"
    and ord: "key = None \<or> bytes_less (the key) (enc_item k)"
    by (auto simp: item_read_def split: if_splits)
  then have "dec.rel d1 tops (Frame CTX_MAP_VALUE (Suc n) (Some (enc_item k)) (fb @ enc_item k) # fs)"
    by (simp add: dec_moved_def)
  with assms(1) w(2) obtain v
    where v: "item_read d1 tops (Frame CTX_MAP_VALUE (Suc n) (Some (enc_item k)) (fb @ enc_item k) # fs) v d2"
    unfolding walk_ok_def by blast
  show ?case
  proof (cases "n = 0")
    case True
    with v obtain fs' out where add: "add_item fs (fb @ enc_item k @ enc_item v) = Inr (fs', out)"
      and mv: "dec_moved d1 (enc_item v) (tops @ out) fs' d2"
      by (auto simp: item_read_def)
    with True k v rest ord dec_moved_trans [OF mk mv] show ?thesis
      by (intro exI [of _ "[(k, v)]"]) (auto simp: item_read_def)
  next
    case False
    with v have mv: "dec_moved d1 (enc_item v) tops
        (Frame CTX_MAP_KEY n (Some (enc_item k)) (fb @ enc_item k @ enc_item v) # fs) d2"
      by (auto simp: item_read_def)
    then have "dec.rel d2 tops (Frame CTX_MAP_KEY n (Some (enc_item k)) (fb @ enc_item k @ enc_item v) # fs)"
      by (simp add: dec_moved_def)
    from Suc.IH [OF this False rest] obtain kvs fs' out where kvs: "length kvs = n"
        "\<forall>x \<in> set (pair_items kvs). wf_item x \<and> nests_within (ANTS_CBOR_MAX_DEPTH - Suc (length fs)) x"
        "sorted_wrt bytes_less (map (\<lambda>kv. enc_item (fst kv)) kvs)" "bytes_less (enc_item k) (enc_item (fst (hd kvs)))"
        "add_item fs ((fb @ enc_item k @ enc_item v) @ concat (map enc_item (pair_items kvs))) = Inr (fs', out)"
        "dec_moved d2 (concat (map enc_item (pair_items kvs))) (tops @ out) fs' d'"
      by auto
    have sorted: "sorted_wrt bytes_less (map (\<lambda>kv. enc_item (fst kv)) ((k, v) # kvs))"
      using kvs(3,4) False kvs(1) by (cases kvs) (auto intro: bytes_less_trans)
    show ?thesis
      using k v kvs ord sorted dec_moved_trans [OF mk dec_moved_trans [OF mv kvs(6)]]
      by (intro exI [of _ "(k, v) # kvs"]) (auto simp: item_read_def)
  qed
qed simp

lemma item_readI:
  assumes "opens fs c = Inr (fs', out)" "dec_moved d (call_bytes c) (tops @ out) fs' d'"
    and "wf_item x" "nests_within (ANTS_CBOR_MAX_DEPTH - length fs) x" "enc_item x = call_bytes c"
    and "abs_call (length (call_bytes c)) fs c = add_item fs (call_bytes c)"
  shows "\<exists>x. item_read d tops fs x d'"
  using assms by (auto simp: item_read_def opens_def)

lemma rel_below: "dec.rel d tops (f # fs) \<Longrightarrow> length fs < ANTS_CBOR_MAX_DEPTH"
  using dec.rel_bound [of d tops "f # fs"] by (simp add: ANTS_CBOR_MAX_DEPTH_def)

lemma walk_array:
  assumes "walk_ok fuel" "dec.rel d tops fs" "ants_cbor_dec_array d = (Inr n, d1)"
    and w: "walk_items fuel n d1 = Some (ANTS_OK, d')"
  shows "\<exists>x. item_read d tops fs x d'"
proof -
  from dec_array.sound [OF assms(2,3)] obtain fs1 out1 where n: "n < 2 ^ 64"
    and op: "opens fs (CArray n) = Inr (fs1, out1)" and m: "dec_moved d (call_bytes (CArray n)) (tops @ out1) fs1 d1"
    by (auto simp: call_ok_def)
  show ?thesis
  proof (cases "n = 0")
    case True
    with op m w show ?thesis by (intro item_readI [OF op, of _ _ _ "Arr []"]) (auto simp: in_room_def)
  next
    case False
    with op have fs1: "fs1 = Frame CTX_ARRAY n None (call_bytes (CArray n)) # fs" "out1 = []"
      by (auto simp: container_opens_call container_opens_def open_frame_def split: if_splits)
    with m have rel: "dec.rel d1 tops (Frame CTX_ARRAY n None (call_bytes (CArray n)) # fs)" by (simp add: dec_moved_def)
    from walk_items_array [OF assms(1) rel False w] obtain xs fs' out
      where xs: "length xs = n" "\<forall>x \<in> set xs. wf_item x \<and> nests_within (ANTS_CBOR_MAX_DEPTH - Suc (length fs)) x"
        "add_item fs (call_bytes (CArray n) @ concat (map enc_item xs)) = Inr (fs', out)"
        "dec_moved d1 (concat (map enc_item xs)) (tops @ out) fs' d'"
      by blast
    show ?thesis
      using n xs dec_moved_trans [OF m xs(4)] rel_below [OF rel]
      by (intro exI [of _ "Arr xs"]) (auto simp: item_read_def Suc_diff_Suc)
  qed
qed

lemma walk_map:
  assumes "walk_ok fuel" "dec.rel d tops fs" "ants_cbor_dec_map d = (Inr n, d1)"
    and w: "walk_items fuel (2 * n) d1 = Some (ANTS_OK, d')"
  shows "\<exists>x. item_read d tops fs x d'"
proof -
  from dec_map.sound [OF assms(2,3)] obtain fs1 out1 where n: "n < 2 ^ 64"
    and op: "opens fs (CMap n) = Inr (fs1, out1)" and m: "dec_moved d (call_bytes (CMap n)) (tops @ out1) fs1 d1"
    by (auto simp: call_ok_def)
  show ?thesis
  proof (cases "n = 0")
    case True
    with op m w show ?thesis by (intro item_readI [OF op, of _ _ _ "MapI []"]) (auto simp: in_room_def)
  next
    case False
    with op have fs1: "fs1 = Frame CTX_MAP_KEY n None (call_bytes (CMap n)) # fs" "out1 = []"
      by (auto simp: container_opens_call container_opens_def open_frame_def split: if_splits)
    with m have rel: "dec.rel d1 tops (Frame CTX_MAP_KEY n None (call_bytes (CMap n)) # fs)" by (simp add: dec_moved_def)
    from walk_items_map [OF assms(1) rel False w] obtain kvs fs' out
      where kvs: "length kvs = n"
        "\<forall>x \<in> set (pair_items kvs). wf_item x \<and> nests_within (ANTS_CBOR_MAX_DEPTH - Suc (length fs)) x"
        "sorted_wrt bytes_less (map (\<lambda>kv. enc_item (fst kv)) kvs)"
        "add_item fs (call_bytes (CMap n) @ concat (map enc_item (pair_items kvs))) = Inr (fs', out)"
        "dec_moved d1 (concat (map enc_item (pair_items kvs))) (tops @ out) fs' d'"
      by blast
    show ?thesis
      using n kvs dec_moved_trans [OF m kvs(5)] rel_below [OF rel]
      by (intro exI [of _ "MapI kvs"]) (auto simp: item_read_def Suc_diff_Suc)
  qed
qed

lemma walk_tag:
  assumes "walk_ok fuel" "dec.rel d tops fs" "ants_cbor_dec_tag d = (Inr t, d1)"
    and w: "walk_one_item fuel d1 = Some (ANTS_OK, d')"
  shows "\<exists>x. item_read d tops fs x d'"
proof -
  from dec_tag.sound [OF assms(2,3)] have t: "t = 0 \<or> t = 32 \<or> t = 42"
    and m: "dec_moved d (head_bytes 6 t) tops (Frame CTX_TAG 1 None (head_bytes 6 t) # fs) d1"
    by (auto simp: opens_def open_frame_def in_room_def split: if_splits)
  then have rel: "dec.rel d1 tops (Frame CTX_TAG 1 None (head_bytes 6 t) # fs)" by (simp add: dec_moved_def)
  with assms(1) w obtain x where x: "item_read d1 tops (Frame CTX_TAG 1 None (head_bytes 6 t) # fs) x d'"
    unfolding walk_ok_def by blast
  then obtain fs' out where add: "add_item fs (head_bytes 6 t @ enc_item x) = Inr (fs', out)"
    and mx: "dec_moved d1 (enc_item x) (tops @ out) fs' d'"
    by (auto simp: item_read_def)
  show ?thesis
    using t x add dec_moved_trans [OF m mx] rel_below [OF rel]
    by (intro exI [of _ "Tagged t x"]) (auto simp: item_read_def)
qed

lemma walk_cases:
  assumes "walk_one_item (Suc fuel) d = Some (ANTS_OK, d')"
  obtains (uint) v where "ants_cbor_dec_uint d = (Inr v, d')"
    | (int) v where "ants_cbor_dec_int d = (Inr v, d')"
    | (bytes) b where "ants_cbor_dec_bytes d = (Inr b, d')"
    | (str) b where "ants_cbor_dec_text d = (Inr b, d')"
    | (arr) n d1 where "ants_cbor_dec_array d = (Inr n, d1)" "walk_items fuel n d1 = Some (ANTS_OK, d')"
    | (map) n d1 where "ants_cbor_dec_map d = (Inr n, d1)" "walk_items fuel (2 * n) d1 = Some (ANTS_OK, d')"
    | (tag) t d1 where "ants_cbor_dec_tag d = (Inr t, d1)" "walk_one_item fuel d1 = Some (ANTS_OK, d')"
    | (bool) b where "ants_cbor_dec_bool d = (Inr b, d')"
    | (null) "ants_cbor_dec_null d = (Inr (), d')"
proof -
  from assms obtain ty where "ants_cbor_dec_peek_type d = Inr ty"
    by (auto simp: ants_cbor_dec_peek_type_def Let_def split: if_splits)
  with assms show ?thesis
    using that
    by (cases ty) (auto dest: dec_uint.ok dec_int.ok dec_bytes.ok dec_text.ok dec_bool.ok dec_null.ok
        split: if_splits prod.splits sum.splits dest!: dec_array.restores dec_map.restores dec_tag.restores)
qed

lemma walk_sound: "walk_ok fuel"
proof (induction fuel)
  case 0
  then show ?case by (simp add: walk_ok_def)
next
  case (Suc fuel)
  show ?case unfolding walk_ok_def
  proof (intro allI impI)
    fix d tops fs d'
    assume rel: "dec.rel d tops fs" and w: "walk_one_item (Suc fuel) d = Some (ANTS_OK, d')"
    from w show "\<exists>x. item_read d tops fs x d'"
    proof (cases rule: walk_cases)
      case (uint v)
      from dec_uint.sound [OF rel this] show ?thesis
        by (auto simp: in_room_def intro: item_readI [of fs "CUint v" _ _ _ _ _ "UInt v"])
    next
      case (int v)
      from dec_int.sound [OF rel this] show ?thesis
        using int_not_range [of v] int_range
        by (cases "0 \<le> sint v")
          (auto simp: in_room_def intro: item_readI [of fs "CInt v" _ _ _ _ _ "UInt v"]
            item_readI [of fs "CInt v" _ _ _ _ _ "NInt (NOT v)"])
    next
      case (bytes b)
      from dec_bytes.sound [OF rel this] show ?thesis
        by (auto simp: in_room_def call_ok_def intro: item_readI [of fs "CBytes b" _ _ _ _ _ "ByteStr b"])
    next
      case (str b)
      from dec_text.sound [OF rel this] show ?thesis
        by (auto simp: in_room_def call_ok_def intro: item_readI [of fs "CText b" _ _ _ _ _ "TextStr b"])
    next
      case arr
      with Suc.IH rel show ?thesis by (rule walk_array)
    next
      case map
      with Suc.IH rel show ?thesis by (rule walk_map)
    next
      case tag
      with Suc.IH rel show ?thesis by (rule walk_tag)
    next
      case (bool b)
      from dec_bool.sound [OF rel this] show ?thesis
        by (auto simp: in_room_def intro: item_readI [of fs "CBool b" _ _ _ _ _ "Boolean b"])
    next
      case null
      from dec_null.sound [OF rel this] show ?thesis
        by (auto simp: in_room_def intro: item_readI [of fs "CNull" _ _ _ _ _ "NullI"])
    qed
  qed
qed

section \<open>Completeness of the walk\<close>

lemma head_first:
  assumes "m \<le> 7" "dec_rest d = head_bytes m v @ r"
  shows "dec_pos d < dec_len d" "drop_bit 5 (dec_buf d ! dec_pos d) = m"
proof -
  obtain info where i: "info < 32" "hd (head_bytes m v) = push_bit 5 m OR info"
  proof (cases "v < 24")
    case True
    with small_value [OF True] have "(ucast v :: u8) < 32" by (auto intro: less_trans)
    then show ?thesis using True that by (simp add: head_bytes_short)
  next
    case False
    then obtain info n least where f: "(info, n, least) \<in> head_forms" and v: "\<not> v < least" "n = 8 \<or> v < 2 ^ (8 * n)"
      by (rule long_value_form)
    with head_bytes_long [OF f v] head_forms_bounds [OF f] show ?thesis by (intro that) auto
  qed
  obtain b bs where b: "head_bytes m v = b # bs" using head_bytes_nonempty [of m v] by (cases "head_bytes m v") auto
  with assms(2) show "dec_pos d < dec_len d" by (simp add: dec_rest_Cons)
  show "drop_bit 5 (dec_buf d ! dec_pos d) = m"
    using assms(2) b i initial_major(1) [OF assms(1) i(1)] by (simp add: dec_rest_Cons)
qed

lemma peek_head:
  assumes "dec_rest d = head_bytes m v @ r"
  shows "m = 0 \<Longrightarrow> ants_cbor_dec_peek_type d = Inr TYPE_UINT"
    "m = 1 \<Longrightarrow> ants_cbor_dec_peek_type d = Inr TYPE_NEGINT"
    "m = 2 \<Longrightarrow> ants_cbor_dec_peek_type d = Inr TYPE_BYTES"
    "m = 3 \<Longrightarrow> ants_cbor_dec_peek_type d = Inr TYPE_TEXT"
    "m = 4 \<Longrightarrow> ants_cbor_dec_peek_type d = Inr TYPE_ARRAY"
    "m = 5 \<Longrightarrow> ants_cbor_dec_peek_type d = Inr TYPE_MAP"
    "m = 6 \<Longrightarrow> ants_cbor_dec_peek_type d = Inr TYPE_TAG"
    "m \<le> 7 \<Longrightarrow> \<not> ants_cbor_dec_eof d"
  using head_first [OF _ assms] by (simp_all add: ants_cbor_dec_peek_type_def ants_cbor_dec_eof_def)

lemma peek_simple:
  "dec_rest d = 0xf4 # r \<Longrightarrow> ants_cbor_dec_peek_type d = Inr TYPE_BOOL \<and> \<not> ants_cbor_dec_eof d"
  "dec_rest d = 0xf5 # r \<Longrightarrow> ants_cbor_dec_peek_type d = Inr TYPE_BOOL \<and> \<not> ants_cbor_dec_eof d"
  "dec_rest d = 0xf6 # r \<Longrightarrow> ants_cbor_dec_peek_type d = Inr TYPE_NULL \<and> \<not> ants_cbor_dec_eof d"
  by (simp_all add: ants_cbor_dec_peek_type_def ants_cbor_dec_eof_def dec_rest_Cons)

definition walks :: "nat \<Rightarrow> nat \<Rightarrow> item \<Rightarrow> bool" where
  "walks fuel h x \<longleftrightarrow> (\<forall>d tops fs r fs' out. dec.rel d tops fs \<longrightarrow> length fs + h \<le> ANTS_CBOR_MAX_DEPTH \<longrightarrow>
     dec_rest d = enc_item x @ r \<longrightarrow> add_item fs (enc_item x) = Inr (fs', out) \<longrightarrow>
     (\<exists>d'. walk_one_item fuel d = Some (ANTS_OK, d') \<and> dec_moved d (enc_item x) (tops @ out) fs' d'))"

lemma walksE:
  assumes "walks fuel h x" "dec.rel d tops fs" "length fs + h \<le> ANTS_CBOR_MAX_DEPTH"
    "dec_rest d = enc_item x @ r" "add_item fs (enc_item x) = Inr (fs', out)"
  obtains d' where "walk_one_item fuel d = Some (ANTS_OK, d')" "dec_moved d (enc_item x) (tops @ out) fs' d'"
    "dec.rel d' (tops @ out) fs'" "dec_rest d' = r"
proof -
  from assms obtain d' where "walk_one_item fuel d = Some (ANTS_OK, d')" "dec_moved d (enc_item x) (tops @ out) fs' d'"
    unfolding walks_def by blast
  with assms(4) that show ?thesis by (simp add: dec_moved_def)
qed

lemma array_walks:
  assumes "\<forall>x \<in> set xs. walks fuel h x" "xs \<noteq> []" "length fs + Suc h \<le> ANTS_CBOR_MAX_DEPTH"
    and "dec.rel d tops (Frame CTX_ARRAY (length xs) key fb # fs)" "dec_rest d = concat (map enc_item xs) @ r"
    and "add_item fs (fb @ concat (map enc_item xs)) = Inr (fs', out)"
  shows "\<exists>d'. walk_items fuel (length xs) d = Some (ANTS_OK, d') \<and>
    dec_moved d (concat (map enc_item xs)) (tops @ out) fs' d'"
  using assms
proof (induction xs arbitrary: d fb)
  case (Cons x xs)
  let ?fs = "Frame CTX_ARRAY (Suc (length xs)) key fb # fs"
  have x: "walks fuel h x" "dec.rel d tops ?fs" "length ?fs + h \<le> ANTS_CBOR_MAX_DEPTH"
      "dec_rest d = enc_item x @ concat (map enc_item xs) @ r"
    using Cons.prems by simp_all
  show ?case
  proof (cases "xs = []")
    case True
    with Cons.prems(6) have "add_item ?fs (enc_item x) = Inr (fs', out)" by simp
    with x show ?thesis by (rule walksE) (simp add: True)
  next
    case False
    then have "add_item ?fs (enc_item x) = Inr (Frame CTX_ARRAY (length xs) key (fb @ enc_item x) # fs, [])" by simp
    with x obtain d1 where d1: "walk_one_item fuel d = Some (ANTS_OK, d1)"
        "dec_moved d (enc_item x) (tops @ []) (Frame CTX_ARRAY (length xs) key (fb @ enc_item x) # fs) d1"
        "dec.rel d1 (tops @ []) (Frame CTX_ARRAY (length xs) key (fb @ enc_item x) # fs)"
        "dec_rest d1 = concat (map enc_item xs) @ r"
      by (rule walksE)
    from Cons.IH [of d1 "fb @ enc_item x"] d1(3,4) Cons.prems False obtain d'
      where "walk_items fuel (length xs) d1 = Some (ANTS_OK, d')"
        "dec_moved d1 (concat (map enc_item xs)) (tops @ out) fs' d'"
      by auto
    with d1 show ?thesis by (auto dest: dec_moved_trans)
  qed
qed simp

lemma map_walks:
  assumes "\<forall>x \<in> set (pair_items kvs). walks fuel h x" "kvs \<noteq> []" "length fs + Suc h \<le> ANTS_CBOR_MAX_DEPTH"
    and "dec.rel d tops (Frame CTX_MAP_KEY (length kvs) key fb # fs)" "dec_rest d = concat (map enc_item (pair_items kvs)) @ r"
    and "add_item fs (fb @ concat (map enc_item (pair_items kvs))) = Inr (fs', out)"
    and "sorted_wrt bytes_less (map (\<lambda>kv. enc_item (fst kv)) kvs)"
    and "key = None \<or> bytes_less (the key) (enc_item (fst (hd kvs)))"
  shows "\<exists>d'. walk_items fuel (2 * length kvs) d = Some (ANTS_OK, d') \<and>
    dec_moved d (concat (map enc_item (pair_items kvs))) (tops @ out) fs' d'"
  using assms
proof (induction kvs arbitrary: d fb key)
  case (Cons kv kvs)
  obtain k v where kv: "kv = (k, v)" by fastforce
  let ?fk = "Frame CTX_MAP_KEY (Suc (length kvs)) key fb # fs"
  let ?fv = "Frame CTX_MAP_VALUE (Suc (length kvs)) (Some (enc_item k)) (fb @ enc_item k) # fs"
  let ?fn = "Frame CTX_MAP_KEY (length kvs) (Some (enc_item k)) (fb @ enc_item k @ enc_item v) # fs"
  have k: "walks fuel h k" "dec.rel d tops ?fk" "length ?fk + h \<le> ANTS_CBOR_MAX_DEPTH"
      "dec_rest d = enc_item k @ enc_item v @ concat (map enc_item (pair_items kvs)) @ r"
      "add_item ?fk (enc_item k) = Inr (?fv, [])"
    using Cons.prems by (simp_all add: kv)
  from k obtain d1 where d1: "walk_one_item fuel d = Some (ANTS_OK, d1)" "dec_moved d (enc_item k) (tops @ []) ?fv d1"
      "dec.rel d1 (tops @ []) ?fv" "dec_rest d1 = enc_item v @ concat (map enc_item (pair_items kvs)) @ r"
    by (rule walksE)
  have v: "walks fuel h v" "length ?fv + h \<le> ANTS_CBOR_MAX_DEPTH" using Cons.prems by (simp_all add: kv)
  show ?case
  proof (cases "kvs = []")
    case True
    with Cons.prems(6) have "add_item ?fv (enc_item v) = Inr (fs', out)" by (simp add: kv)
    with v(1) d1(3) v(2) d1(4) obtain d' where "walk_one_item fuel d1 = Some (ANTS_OK, d')"
        "dec_moved d1 (enc_item v) ((tops @ []) @ out) fs' d'"
      by (rule walksE)
    with d1 show ?thesis by (auto simp: True kv numeral_2_eq_2 dest: dec_moved_trans)
  next
    case False
    then have "add_item ?fv (enc_item v) = Inr (?fn, [])" by simp
    with v(1) d1(3) v(2) d1(4) obtain d2 where d2: "walk_one_item fuel d1 = Some (ANTS_OK, d2)"
        "dec_moved d1 (enc_item v) ((tops @ []) @ []) ?fn d2" "dec.rel d2 ((tops @ []) @ []) ?fn"
        "dec_rest d2 = concat (map enc_item (pair_items kvs)) @ r"
      by (rule walksE)
    from False Cons.prems(7) have "bytes_less (enc_item k) (enc_item (fst (hd kvs)))" by (simp add: kv)
    with Cons.IH [of d2 "Some (enc_item k)" "fb @ enc_item k @ enc_item v"] d2(3,4) Cons.prems False obtain d'
      where "walk_items fuel (2 * length kvs) d2 = Some (ANTS_OK, d')"
        "dec_moved d2 (concat (map enc_item (pair_items kvs))) (tops @ out) fs' d'"
      by (auto simp: kv)
    with d1 d2 show ?thesis by (auto simp: kv dest: dec_moved_trans)
  qed
qed simp

context call_reader
begin

lemma leaf_walks:
  assumes "call_ok (call v)" "enc_item x = call_bytes (call v)"
    and "\<And>fs. opens fs (call v) = add_item fs (call_bytes (call v))"
    and "\<And>d r. dec_rest d = call_bytes (call v) @ r \<Longrightarrow> walk_one_item (Suc fuel) d = Some (rc_step read d)"
  shows "walks (Suc fuel) h x"
  unfolding walks_def
proof (intro allI impI)
  fix d tops fs r fs' out
  assume "dec.rel d tops fs" and rest: "dec_rest d = enc_item x @ r" and "add_item fs (enc_item x) = Inr (fs', out)"
  with complete [of d tops fs v r fs' out] assms(1-3)
  obtain d' where "read d = (Inr v, d')" "dec_moved d (call_bytes (call v)) (tops @ out) fs' d'"
    by auto
  then show "\<exists>d'. walk_one_item (Suc fuel) d = Some (ANTS_OK, d') \<and> dec_moved d (enc_item x) (tops @ out) fs' d'"
    using assms(2) assms(4) [of d r] rest by (simp add: rc_step_def)
qed

end

lemma array_item_walks:
  assumes xs: "\<forall>x \<in> set xs. walks fuel (h - 1) x" and h: "xs = [] \<or> 0 < h" and len: "length xs < 2 ^ 64"
  shows "walks (Suc fuel) h (Arr xs)"
  unfolding walks_def
proof (intro allI impI)
  fix d tops fs r fs' out
  assume rel: "dec.rel d tops fs" and fits: "length fs + h \<le> ANTS_CBOR_MAX_DEPTH"
    and rest: "dec_rest d = enc_item (Arr xs) @ r" and add: "add_item fs (enc_item (Arr xs)) = Inr (fs', out)"
  let ?c = "CArray (length xs)"
  have rest': "dec_rest d = call_bytes ?c @ concat (map enc_item xs) @ r" using rest by simp
  have ok: "call_ok ?c" using len by (simp add: call_ok_def)
  show "\<exists>d'. walk_one_item (Suc fuel) d = Some (ANTS_OK, d') \<and> dec_moved d (enc_item (Arr xs)) (tops @ out) fs' d'"
  proof (cases "xs = []")
    case True
    with add have "opens fs ?c = Inr (fs', out)" by (simp add: container_opens_call container_opens_def)
    from dec_array.complete [OF rel ok rest' this] True peek_head(5,8) [OF rest' [simplified]] show ?thesis by auto
  next
    case False
    with h fits have "opens fs ?c = Inr (Frame CTX_ARRAY (length xs) None (call_bytes ?c) # fs, [])"
      by (simp add: container_opens_call container_opens_def open_frame_def)
    from dec_array.complete [OF rel ok rest' this] obtain d1
      where d1: "ants_cbor_dec_array d = (Inr (length xs), d1)"
        "dec_moved d (call_bytes ?c) tops (Frame CTX_ARRAY (length xs) None (call_bytes ?c) # fs) d1"
      by auto
    with array_walks [OF xs False, of fs d1 tops None "call_bytes ?c" r fs' out] rest' add False h fits obtain d'
      where "walk_items fuel (length xs) d1 = Some (ANTS_OK, d')" "dec_moved d1 (concat (map enc_item xs)) (tops @ out) fs' d'"
      by (auto simp: dec_moved_def)
    with d1 peek_head(5,8) [OF rest' [simplified]] show ?thesis by (auto dest: dec_moved_trans)
  qed
qed

lemma map_item_walks:
  assumes kvs: "\<forall>x \<in> set (pair_items kvs). walks fuel (h - 1) x" and h: "kvs = [] \<or> 0 < h" and len: "length kvs < 2 ^ 64"
    and sorted: "sorted_wrt bytes_less (map (\<lambda>kv. enc_item (fst kv)) kvs)"
  shows "walks (Suc fuel) h (MapI kvs)"
  unfolding walks_def
proof (intro allI impI)
  fix d tops fs r fs' out
  assume rel: "dec.rel d tops fs" and fits: "length fs + h \<le> ANTS_CBOR_MAX_DEPTH"
    and rest: "dec_rest d = enc_item (MapI kvs) @ r" and add: "add_item fs (enc_item (MapI kvs)) = Inr (fs', out)"
  let ?c = "CMap (length kvs)"
  have rest': "dec_rest d = call_bytes ?c @ concat (map enc_item (pair_items kvs)) @ r" using rest by simp
  have ok: "call_ok ?c" using len by (simp add: call_ok_def)
  show "\<exists>d'. walk_one_item (Suc fuel) d = Some (ANTS_OK, d') \<and> dec_moved d (enc_item (MapI kvs)) (tops @ out) fs' d'"
  proof (cases "kvs = []")
    case True
    with add have "opens fs ?c = Inr (fs', out)" by (simp add: container_opens_call container_opens_def)
    from dec_map.complete [OF rel ok rest' this] True peek_head(6,8) [OF rest' [simplified]] show ?thesis by auto
  next
    case False
    with h fits have "opens fs ?c = Inr (Frame CTX_MAP_KEY (length kvs) None (call_bytes ?c) # fs, [])"
      by (simp add: container_opens_call container_opens_def open_frame_def)
    from dec_map.complete [OF rel ok rest' this] obtain d1
      where d1: "ants_cbor_dec_map d = (Inr (length kvs), d1)"
        "dec_moved d (call_bytes ?c) tops (Frame CTX_MAP_KEY (length kvs) None (call_bytes ?c) # fs) d1"
      by auto
    with map_walks [OF kvs False, of fs d1 tops None "call_bytes ?c" r fs' out] rest' add False h fits sorted obtain d'
      where "walk_items fuel (2 * length kvs) d1 = Some (ANTS_OK, d')"
        "dec_moved d1 (concat (map enc_item (pair_items kvs))) (tops @ out) fs' d'"
      by (auto simp: dec_moved_def)
    with d1 peek_head(6,8) [OF rest' [simplified]] show ?thesis by (auto dest: dec_moved_trans)
  qed
qed

lemma tag_item_walks:
  assumes x: "walks fuel (h - 1) x" and h: "0 < h" and t: "t = 0 \<or> t = 32 \<or> t = 42"
  shows "walks (Suc fuel) h (Tagged t x)"
  unfolding walks_def
proof (intro allI impI)
  fix d tops fs r fs' out
  assume rel: "dec.rel d tops fs" and fits: "length fs + h \<le> ANTS_CBOR_MAX_DEPTH"
    and rest: "dec_rest d = enc_item (Tagged t x) @ r" and add: "add_item fs (enc_item (Tagged t x)) = Inr (fs', out)"
  let ?fs = "Frame CTX_TAG 1 None (head_bytes 6 t) # fs"
  have rest': "dec_rest d = call_bytes (CTag t) @ enc_item x @ r" using rest by simp
  have "opens fs (CTag t) = Inr (?fs, [])"
    using t h fits by (auto simp: opens_def in_room_def open_frame_def)
  from dec_tag.complete [OF rel _ rest' this] obtain d1
    where d1: "ants_cbor_dec_tag d = (Inr t, d1)" "dec_moved d (head_bytes 6 t) tops ?fs d1"
    by (auto simp: call_ok_def)
  then have "dec.rel d1 tops ?fs" "dec_rest d1 = enc_item x @ r" using rest' by (simp_all add: dec_moved_def)
  moreover have "length ?fs + (h - 1) \<le> ANTS_CBOR_MAX_DEPTH" "add_item ?fs (enc_item x) = Inr (fs', out)"
    using h fits add by simp_all
  ultimately obtain d' where "walk_one_item fuel d1 = Some (ANTS_OK, d')" "dec_moved d1 (enc_item x) (tops @ out) fs' d'"
    using walksE [OF x, of d1 tops ?fs r fs' out] by metis
  with d1 peek_head(7,8) [OF rest' [simplified]]
  show "\<exists>d'. walk_one_item (Suc fuel) d = Some (ANTS_OK, d') \<and> dec_moved d (enc_item (Tagged t x)) (tops @ out) fs' d'"
    by (auto dest: dec_moved_trans)
qed

lemma length_enc_member: "x \<in> set xs \<Longrightarrow> length (enc_item x) \<le> length (concat (map enc_item xs))"
  by (induction xs) auto

lemma item_walks:
  "wf_item x \<Longrightarrow> nests_within h x \<Longrightarrow> length (enc_item x) \<le> fuel \<Longrightarrow> walks fuel h x"
proof (induction x arbitrary: h fuel rule: enc_item.induct)
  case (1 v)
  then obtain f where "fuel = Suc f" by (cases fuel) auto
  with 1 show ?case
    by (auto intro!: dec_uint.leaf_walks [of v] simp: peek_head peek_simple opens_def in_room_def call_ok_def)
next
  case (2 v)
  then obtain f where "fuel = Suc f" by (cases fuel) auto
  with 2 show ?case using sint_not_neg [of v]
    by (auto intro!: dec_int.leaf_walks [of "NOT v"] simp: peek_head peek_simple opens_def in_room_def call_ok_def)
next
  case (3 b)
  then obtain f where "fuel = Suc f" by (cases fuel) auto
  with 3 show ?case
    by (auto intro!: dec_bytes.leaf_walks [of b] simp: peek_head peek_simple opens_def in_room_def call_ok_def)
next
  case (4 b)
  then obtain f where "fuel = Suc f" by (cases fuel) auto
  with 4 show ?case
    by (auto intro!: dec_text.leaf_walks [of b] simp: peek_head peek_simple opens_def in_room_def call_ok_def)
next
  case (5 xs)
  then obtain f where f: "fuel = Suc f" by (cases fuel) auto
  have "0 < length (head_bytes 4 (of_nat (length xs)))" by simp
  then have "length (concat (map enc_item xs)) \<le> f" using 5(4) f unfolding enc_item.simps length_append by linarith
  then have "\<forall>x \<in> set xs. length (enc_item x) \<le> f" using length_enc_member order_trans by blast
  with 5(1-3) show ?case unfolding f by (intro array_item_walks) auto
next
  case (6 kvs)
  then obtain f where f: "fuel = Suc f" by (cases fuel) auto
  have "0 < length (head_bytes 5 (of_nat (length kvs)))" by simp
  then have "length (concat (map enc_item (pair_items kvs))) \<le> f" using 6(4) f unfolding enc_item.simps length_append by linarith
  then have "\<forall>x \<in> set (pair_items kvs). length (enc_item x) \<le> f" using length_enc_member order_trans by blast
  with 6(1-3) show ?case unfolding f by (intro map_item_walks) auto
next
  case (7 t x)
  then obtain f where f: "fuel = Suc f" by (cases fuel) auto
  have "0 < length (head_bytes 6 t)" by simp
  then have "length (enc_item x) \<le> f" using 7(4) f unfolding enc_item.simps length_append by linarith
  with 7(1-3) show ?case unfolding f by (intro tag_item_walks) auto
next
  case (8 v)
  then obtain f where "fuel = Suc f" by (cases fuel) auto
  then show ?case
    by (cases v) (auto intro!: dec_bool.leaf_walks [of v] simp: peek_simple opens_def in_room_def call_ok_def)
next
  case (9)
  then obtain f where "fuel = Suc f" by (cases fuel) auto
  with 9 show ?case
    by (auto intro!: dec_null.leaf_walks simp: peek_head peek_simple opens_def in_room_def call_ok_def)
qed

section \<open>The fuel is enough\<close>

definition walk_ends :: "nat \<Rightarrow> bool" where
  "walk_ends fuel \<longleftrightarrow> (\<forall>d tops fs. dec.rel d tops fs \<longrightarrow> length (dec_rest d) < fuel \<longrightarrow> walk_one_item fuel d \<noteq> None)"

lemma walk_items_total:
  assumes "walk_ends fuel" "dec.rel d tops fs" "length (dec_rest d) < fuel"
  shows "walk_items fuel n d \<noteq> None"
  using assms(2,3)
proof (induction n arbitrary: d tops fs)
  case (Suc n)
  with assms(1) obtain rc d1 where w: "walk_one_item fuel d = Some (rc, d1)" unfolding walk_ends_def by fastforce
  show ?case
  proof (cases "rc = ANTS_OK")
    case True
    with w walk_sound [of fuel] Suc.prems(1) obtain x where "item_read d tops fs x d1"
      unfolding walk_ok_def by blast
    then obtain tops1 fs1 where "dec.rel d1 tops1 fs1" "length (dec_rest d1) \<le> length (dec_rest d)"
      by (auto simp: item_read_def dec_moved_def)
    with Suc.IH [of d1 tops1 fs1] Suc.prems(2) True w show ?thesis by auto
  qed (simp add: w)
qed simp

lemma walk_total: "walk_ends fuel"
proof (induction fuel)
  case 0
  then show ?case by (simp add: walk_ends_def)
next
  case (Suc fuel)
  show ?case unfolding walk_ends_def
  proof (intro allI impI)
    fix d tops fs
    assume rel: "dec.rel d tops fs" and len: "length (dec_rest d) < Suc fuel"
    have loop: "walk_items fuel m d1 \<noteq> None" "walk_one_item fuel d1 \<noteq> None"
      if "\<exists>tops' fs'. dec.rel d1 tops' fs' \<and> length (dec_rest d1) < length (dec_rest d)" for d1 m
    proof -
      from that len obtain tops' fs' where "dec.rel d1 tops' fs'" "length (dec_rest d1) < fuel" by auto
      with Suc.IH walk_items_total show "walk_items fuel m d1 \<noteq> None" "walk_one_item fuel d1 \<noteq> None"
        unfolding walk_ends_def by blast+
    qed
    have arr: "walk_items fuel n d1 \<noteq> None" if "ants_cbor_dec_array d = (Inr n, d1)" for n d1
      using dec_array.sound [OF rel that] dec_array.consumes [OF rel that] by (intro loop) (auto simp: dec_moved_def)
    have map: "walk_items fuel (2 * n) d1 \<noteq> None" if "ants_cbor_dec_map d = (Inr n, d1)" for n d1
      using dec_map.sound [OF rel that] dec_map.consumes [OF rel that] by (intro loop) (auto simp: dec_moved_def)
    have tag: "walk_one_item fuel d1 \<noteq> None" if "ants_cbor_dec_tag d = (Inr t, d1)" for t d1
      using dec_tag.sound [OF rel that] dec_tag.consumes [OF rel that] by (intro loop) (auto simp: dec_moved_def)
    show "walk_one_item (Suc fuel) d \<noteq> None"
      using arr map tag by (auto split: sum.splits ants_cbor_type.splits prod.splits)
  qed
qed

section \<open>Documents\<close>

lemma dec_init_rel: "dec.rel (ants_cbor_dec_init buf) [] []"
  by (simp add: dec.rel_def ants_cbor_dec_init_def cursor_rel_def open_ctxs_def)

lemma dec_init_rest [simp]: "dec_rest (ants_cbor_dec_init buf) = buf" "dec_buf (ants_cbor_dec_init buf) = buf"
  by (simp_all add: dec_rest_def ants_cbor_dec_init_def)

lemma dec_eof_rest: "dec.rel d tops fs \<Longrightarrow> ants_cbor_dec_eof d \<longleftrightarrow> dec_rest d = []"
  by (auto simp: ants_cbor_dec_eof_def dec_rest_def)

lemma is_canonical_iff:
  "ants_cbor_is_canonical bs = ANTS_OK \<longleftrightarrow> (\<exists>x. wf_item x \<and> nests_within ANTS_CBOR_MAX_DEPTH x \<and> bs = enc_item x)"
proof
  assume ok: "ants_cbor_is_canonical bs = ANTS_OK"
  then obtain d where w: "walk_one_item (Suc (length bs)) (ants_cbor_dec_init bs) = Some (ANTS_OK, d)"
    and eof: "ants_cbor_dec_eof d"
    by (auto simp: ants_cbor_is_canonical_def split: if_splits option.splits prod.splits)
  from walk_sound w dec_init_rel obtain x where x: "item_read (ants_cbor_dec_init bs) [] [] x d"
    unfolding walk_ok_def by blast
  then have "dec.rel d (enc_item x) []" "bs = enc_item x @ dec_rest d"
    by (auto simp: item_read_def dec_moved_def)
  with x eof dec_eof_rest show "\<exists>x. wf_item x \<and> nests_within ANTS_CBOR_MAX_DEPTH x \<and> bs = enc_item x"
    by (auto simp: item_read_def)
next
  assume "\<exists>x. wf_item x \<and> nests_within ANTS_CBOR_MAX_DEPTH x \<and> bs = enc_item x"
  then obtain x where x: "wf_item x" "nests_within ANTS_CBOR_MAX_DEPTH x" "bs = enc_item x" by blast
  then have "walks (Suc (length bs)) ANTS_CBOR_MAX_DEPTH x" by (simp add: item_walks)
  from walksE [OF this dec_init_rel, of bs "[]" "[]" bs] x(3) obtain d
    where "walk_one_item (Suc (length bs)) (ants_cbor_dec_init bs) = Some (ANTS_OK, d)"
      "dec.rel d bs []" "dec_rest d = []"
    by auto
  with x(3) dec_eof_rest [of d bs "[]"] dec.rel_depth [of d bs "[]"] show "ants_cbor_is_canonical bs = ANTS_OK"
    by (simp add: ants_cbor_is_canonical_def)
qed

text \<open>The bytes of an item determine it, and where it ends.\<close>

lemma head_bytes_unique:
  assumes "m \<le> 7" "m' \<le> 7" "head_bytes m v @ r = head_bytes m' v' @ s"
  shows "m = m' \<and> v = v' \<and> r = s"
proof -
  let ?d = "ants_cbor_dec_init (head_bytes m v @ r)"
  from cbor_read_head_complete [OF assms(1), of ?d v r] cbor_read_head_complete [OF assms(2), of ?d v' s] assms(3)
  have "m = m'" "v = v'" by simp_all
  with assms(3) show ?thesis by simp
qed

lemma simple_heads: "[0xf4] = head_bytes 7 20" "[0xf5] = head_bytes 7 21" "[0xf6] = head_bytes 7 22"
  by (simp_all add: head_bytes_def)

definition unique_enc :: "item \<Rightarrow> bool" where
  "unique_enc x \<longleftrightarrow> (\<forall>y r s. wf_item y \<longrightarrow> enc_item x @ r = enc_item y @ s \<longrightarrow> x = y \<and> r = s)"

lemma unique_encD: "unique_enc x \<Longrightarrow> wf_item y \<Longrightarrow> enc_item x @ r = enc_item y @ s \<Longrightarrow> x = y \<and> r = s"
  unfolding unique_enc_def by blast

lemma unique_list:
  "\<forall>x \<in> set xs. unique_enc x \<Longrightarrow> \<forall>y \<in> set ys. wf_item y \<Longrightarrow> length xs = length ys \<Longrightarrow>
   concat (map enc_item xs) @ r = concat (map enc_item ys) @ s \<Longrightarrow> xs = ys \<and> r = s"
proof (induction xs arbitrary: ys)
  case (Cons x xs)
  then obtain y ys' where ys: "ys = y # ys'" by (cases ys) auto
  have "x = y \<and> concat (map enc_item xs) @ r = concat (map enc_item ys') @ s"
    using Cons.prems unfolding ys by (intro unique_encD) simp_all
  with Cons.IH [of ys'] Cons.prems ys show ?case by simp
qed simp

lemma pair_items_inject: "pair_items xs = pair_items ys \<Longrightarrow> xs = ys"
proof (induction xs arbitrary: ys)
  case Nil
  then show ?case by (cases ys) auto
next
  case (Cons x xs)
  then show ?case by (cases x; cases ys) auto
qed

text \<open>The major type and argument an item starts with.\<close>

fun item_head :: "item \<Rightarrow> u8 \<times> u64" where
  "item_head (UInt v) = (0, v)"
| "item_head (NInt v) = (1, v)"
| "item_head (ByteStr b) = (2, of_nat (length b))"
| "item_head (TextStr b) = (3, of_nat (length b))"
| "item_head (Arr xs) = (4, of_nat (length xs))"
| "item_head (MapI kvs) = (5, of_nat (length kvs))"
| "item_head (Tagged t x) = (6, t)"
| "item_head (Boolean v) = (7, if v then 21 else 20)"
| "item_head NullI = (7, 22)"

fun item_body :: "item \<Rightarrow> bytes" where
  "item_body (ByteStr b) = b"
| "item_body (TextStr b) = b"
| "item_body (Arr xs) = concat (map enc_item xs)"
| "item_body (MapI kvs) = concat (map enc_item (pair_items kvs))"
| "item_body (Tagged t x) = enc_item x"
| "item_body x = []"

lemma enc_item_split: "enc_item x = head_bytes (fst (item_head x)) (snd (item_head x)) @ item_body x"
  by (cases x) (simp_all add: simple_heads)

lemma item_head_major: "fst (item_head x) \<le> 7"
  by (cases x) simp_all

lemma enc_item_heads:
  assumes "enc_item x @ r = enc_item y @ s"
  shows "item_head x = item_head y" "item_body x @ r = item_body y @ s"
  using head_bytes_unique [OF item_head_major item_head_major, of x _ "item_body x @ r" y _ "item_body y @ s"] assms
  by (auto simp: enc_item_split [of x] enc_item_split [of y] prod_eq_iff)

lemma of_nat_64_inject: "a < 2 ^ 64 \<Longrightarrow> b < 2 ^ 64 \<Longrightarrow> (of_nat a :: u64) = of_nat b \<longleftrightarrow> a = b"
  by (simp add: word_of_nat_eq_iff take_bit_nat_eq_self)

lemma unique_encI:
  assumes "\<And>y r s. wf_item y \<Longrightarrow> item_head x = item_head y \<Longrightarrow> item_body x @ r = item_body y @ s \<Longrightarrow> x = y \<and> r = s"
  shows "unique_enc x"
  unfolding unique_enc_def using assms enc_item_heads by blast

lemma enc_item_unique: "wf_item x \<Longrightarrow> unique_enc x"
proof (induction x rule: enc_item.induct)
  case (5 xs)
  show ?case
  proof (rule unique_encI)
    fix y r s
    assume y: "wf_item y" and h: "item_head (Arr xs) = item_head y" "item_body (Arr xs) @ r = item_body y @ s"
    from h(1) 5(2) y obtain ys where "y = Arr ys" "length xs = length ys"
      by (cases y) (auto simp: of_nat_64_inject)
    with unique_list [of xs ys r s] 5 y h(2) show "Arr xs = y \<and> r = s" by auto
  qed
next
  case (6 kvs)
  show ?case
  proof (rule unique_encI)
    fix y r s
    assume y: "wf_item y" and h: "item_head (MapI kvs) = item_head y" "item_body (MapI kvs) @ r = item_body y @ s"
    from h(1) 6(2) y obtain kvs' where "y = MapI kvs'" "length kvs = length kvs'"
      by (cases y) (auto simp: of_nat_64_inject)
    with unique_list [of "pair_items kvs" "pair_items kvs'" r s] 6 y h(2) pair_items_inject [of kvs kvs']
    show "MapI kvs = y \<and> r = s" by auto
  qed
next
  case (7 t x)
  then show ?case by (intro unique_encI, case_tac y) (auto dest: unique_encD)
next
  case (3 b)
  then show ?case by (intro unique_encI, case_tac y) (auto simp: of_nat_64_inject)
next
  case (4 b)
  then show ?case by (intro unique_encI, case_tac y) (auto simp: of_nat_64_inject)
qed (intro unique_encI, case_tac y; auto split: if_splits)+

section \<open>Whatever is called, canonical items are written\<close>

definition good_item :: "nat \<Rightarrow> item \<Rightarrow> bool" where
  "good_item h x \<longleftrightarrow> wf_item x \<and> nests_within h x"

definition enc_items :: "item list \<Rightarrow> bytes" where
  "enc_items xs = concat (map enc_item xs)"

text \<open>The bytes of an open frame are the header of a container and complete items.\<close>

definition frame_ok :: "nat \<Rightarrow> frame \<Rightarrow> bool" where
  "frame_ok h f \<longleftrightarrow> 0 < fremaining f \<and>
    (case fkind f of
       CTX_ARRAY \<Rightarrow> (\<exists>xs. length xs + fremaining f < 2 ^ 64 \<and> (\<forall>x \<in> set xs. good_item h x) \<and>
         fbytes f = head_bytes 4 (of_nat (length xs + fremaining f)) @ enc_items xs)
     | CTX_MAP_KEY \<Rightarrow> (\<exists>kvs. length kvs + fremaining f < 2 ^ 64 \<and> (\<forall>x \<in> set (pair_items kvs). good_item h x) \<and>
         sorted_wrt bytes_less (map (\<lambda>kv. enc_item (fst kv)) kvs) \<and>
         fkey f = (if kvs = [] then None else Some (enc_item (fst (last kvs)))) \<and>
         fbytes f = head_bytes 5 (of_nat (length kvs + fremaining f)) @ enc_items (pair_items kvs))
     | CTX_MAP_VALUE \<Rightarrow> (\<exists>kvs k. length kvs + fremaining f < 2 ^ 64 \<and>
         (\<forall>x \<in> set (pair_items kvs) \<union> {k}. good_item h x) \<and>
         sorted_wrt bytes_less (map (\<lambda>kv. enc_item (fst kv)) kvs @ [enc_item k]) \<and> fkey f = Some (enc_item k) \<and>
         fbytes f = head_bytes 5 (of_nat (length kvs + fremaining f)) @ enc_items (pair_items kvs) @ enc_item k)
     | CTX_TAG \<Rightarrow> fremaining f = 1 \<and> (\<exists>t. (t = 0 \<or> t = 32 \<or> t = 42) \<and> fbytes f = head_bytes 6 t)
     | CTX_NONE \<Rightarrow> False)"

fun frames_ok :: "frame list \<Rightarrow> bool" where
  "frames_ok [] = True"
| "frames_ok (f # fs) = (length fs < ANTS_CBOR_MAX_DEPTH \<and>
     frame_ok (ANTS_CBOR_MAX_DEPTH - Suc (length fs)) f \<and> frames_ok fs)"

definition good_seq :: "bytes \<Rightarrow> bool" where
  "good_seq bs \<longleftrightarrow> (\<exists>xs. (\<forall>x \<in> set xs. good_item ANTS_CBOR_MAX_DEPTH x) \<and> bs = enc_items xs)"

lemma enc_items_simps [simp]:
  "enc_items [] = []" "enc_items (x # xs) = enc_item x @ enc_items xs" "enc_items (xs @ ys) = enc_items xs @ enc_items ys"
  by (simp_all add: enc_items_def)

lemma pair_items_append [simp]: "pair_items (xs @ ys) = pair_items xs @ pair_items ys"
  by (simp add: pair_items_def)

lemma good_seq_append: "good_seq a \<Longrightarrow> good_seq b \<Longrightarrow> good_seq (a @ b)"
  unfolding good_seq_def by (metis Un_iff enc_items_simps(3) set_append)

lemma good_seq_item: "good_item ANTS_CBOR_MAX_DEPTH x \<Longrightarrow> good_seq (enc_item x)"
  unfolding good_seq_def by (intro exI [of _ "[x]"]) simp

lemma sorted_snoc:
  assumes "sorted_wrt bytes_less ks" "ks = [] \<or> bytes_less (last ks) k"
  shows "sorted_wrt bytes_less (ks @ [k])"
  using assms
proof (induction ks)
  case (Cons a ks)
  then show ?case by (cases "ks = []") (auto intro: bytes_less_trans dest: last_in_set)
qed simp

text \<open>An item that completes a frame makes the frame an item.\<close>

lemma frame_closes:
  assumes ok: "frame_ok h (Frame k 1 key fb)" and x: "good_item h x" and k: "k \<noteq> CTX_MAP_KEY"
  shows "\<exists>y. good_item (Suc h) y \<and> fb @ enc_item x = enc_item y"
proof (cases k)
  case CTX_ARRAY
  with ok obtain xs where "length xs + 1 < 2 ^ 64" "\<forall>x \<in> set xs. good_item h x"
      "fb = head_bytes 4 (of_nat (length xs + 1)) @ enc_items xs"
    by (auto simp: frame_ok_def)
  with x show ?thesis by (intro exI [of _ "Arr (xs @ [x])"]) (auto simp: good_item_def enc_items_def)
next
  case CTX_MAP_VALUE
  with ok obtain kvs key' where "length kvs + 1 < 2 ^ 64" "\<forall>x \<in> set (pair_items kvs) \<union> {key'}. good_item h x"
      "sorted_wrt bytes_less (map (\<lambda>kv. enc_item (fst kv)) kvs @ [enc_item key'])"
      "fb = head_bytes 5 (of_nat (length kvs + 1)) @ enc_items (pair_items kvs) @ enc_item key'"
    by (auto simp: frame_ok_def)
  with x show ?thesis by (intro exI [of _ "MapI (kvs @ [(key', x)])"]) (auto simp: good_item_def enc_items_def)
next
  case CTX_TAG
  with ok obtain t where "t = 0 \<or> t = 32 \<or> t = 42" "fb = head_bytes 6 t" by (auto simp: frame_ok_def)
  with x show ?thesis by (intro exI [of _ "Tagged t x"]) (auto simp: good_item_def)
qed (use ok k in \<open>simp_all add: frame_ok_def\<close>)

lemma frame_extends:
  assumes ok: "frame_ok h (Frame k r key fb)" and x: "good_item h x" and k: "k \<noteq> CTX_MAP_KEY" and r: "r \<noteq> 1"
  shows "frame_ok h (Frame (if k = CTX_MAP_VALUE then CTX_MAP_KEY else k) (r - 1) key (fb @ enc_item x))"
proof (cases k)
  case CTX_ARRAY
  with ok obtain xs where "length xs + r < 2 ^ 64" "\<forall>x \<in> set xs. good_item h x"
      "fb = head_bytes 4 (of_nat (length xs + r)) @ enc_items xs" "0 < r"
    by (auto simp: frame_ok_def)
  with x r CTX_ARRAY show ?thesis by (auto simp: frame_ok_def intro!: exI [of _ "xs @ [x]"])
next
  case CTX_MAP_VALUE
  with ok obtain kvs key' where "length kvs + r < 2 ^ 64" "\<forall>x \<in> set (pair_items kvs) \<union> {key'}. good_item h x"
      "sorted_wrt bytes_less (map (\<lambda>kv. enc_item (fst kv)) kvs @ [enc_item key'])" "key = Some (enc_item key')"
      "fb = head_bytes 5 (of_nat (length kvs + r)) @ enc_items (pair_items kvs) @ enc_item key'" "0 < r"
    by (auto simp: frame_ok_def)
  with x r CTX_MAP_VALUE show ?thesis by (auto simp: frame_ok_def intro!: exI [of _ "kvs @ [(key', x)]"])
qed (use ok k r in \<open>simp_all add: frame_ok_def\<close>)

lemma frame_key:
  assumes ok: "frame_ok h (Frame CTX_MAP_KEY r key fb)" and x: "good_item h x"
    and ord: "key = None \<or> bytes_less (the key) (enc_item x)"
  shows "frame_ok h (Frame CTX_MAP_VALUE r (Some (enc_item x)) (fb @ enc_item x))"
proof -
  from ok obtain kvs where kvs: "length kvs + r < 2 ^ 64" "\<forall>x \<in> set (pair_items kvs). good_item h x"
      "sorted_wrt bytes_less (map (\<lambda>kv. enc_item (fst kv)) kvs)"
      "key = (if kvs = [] then None else Some (enc_item (fst (last kvs))))"
      "fb = head_bytes 5 (of_nat (length kvs + r)) @ enc_items (pair_items kvs)" "0 < r"
    by (auto simp: frame_ok_def)
  have "sorted_wrt bytes_less (map (\<lambda>kv. enc_item (fst kv)) kvs @ [enc_item x])"
    using kvs(3,4) ord by (intro sorted_snoc) (auto simp: last_map split: if_splits)
  with kvs x show ?thesis by (auto simp: frame_ok_def)
qed

lemma add_item_frames:
  assumes "frames_ok fs" "good_item (ANTS_CBOR_MAX_DEPTH - length fs) x" "add_item fs (enc_item x) = Inr (fs', out)"
  shows "frames_ok fs' \<and> good_seq out"
  using assms
proof (induction fs arbitrary: x)
  case Nil
  then show ?case by (auto intro: good_seq_item)
next
  case (Cons f fs)
  obtain k r key fb where f: "f = Frame k r key fb" by (cases f)
  have ok: "frame_ok (ANTS_CBOR_MAX_DEPTH - Suc (length fs)) (Frame k r key fb)"
    and x: "good_item (ANTS_CBOR_MAX_DEPTH - Suc (length fs)) x" and lt: "length fs < ANTS_CBOR_MAX_DEPTH"
    using Cons.prems(1,2) by (simp_all add: f)
  have nil: "good_seq []" unfolding good_seq_def by (intro exI [of _ "[]"]) simp
  consider "k = CTX_MAP_KEY" | "k \<noteq> CTX_MAP_KEY" "r = 1" | "k \<noteq> CTX_MAP_KEY" "r \<noteq> 1" by blast
  then show ?case
  proof cases
    case 1
    with Cons.prems(1,3) nil frame_key [OF ok [unfolded 1] x] show ?thesis
      by (auto simp: f split: if_splits)
  next
    case 2
    with frame_closes [OF ok [unfolded 2] x] obtain y
      where y: "good_item (ANTS_CBOR_MAX_DEPTH - length fs) y" "fb @ enc_item x = enc_item y"
      using lt by (auto simp: Suc_diff_Suc)
    with 2 Cons.prems show ?thesis by (intro Cons.IH [of y]) (auto simp: f split: if_splits)
  next
    case 3
    with Cons.prems(1,3) nil frame_extends [OF ok x] show ?thesis by (auto simp: f split: if_splits)
  qed
qed

lemma abs_call_frames:
  assumes "frames_ok fs" "call_ok c" "abs_call room fs c = Inr (fs', out)"
  shows "frames_ok fs' \<and> good_seq out"
proof -
  have nil: "good_seq []" unfolding good_seq_def by (intro exI [of _ "[]"]) simp
  have leaf: "frames_ok fs' \<and> good_seq out"
    if "add_item fs (call_bytes c) = Inr (fs', out)" "call_bytes c = enc_item x" "good_item (ANTS_CBOR_MAX_DEPTH - length fs) x" for x
    using add_item_frames [OF assms(1) that(3)] that by simp
  have emp: "enc_items [] = []" "pair_items [] = []" by simp_all
  show ?thesis
  proof (cases c)
    case (CInt v)
    with assms leaf [of "if 0 \<le> sint v then UInt v else NInt (NOT v)"] int_range [of v] int_range [of "NOT v"] int_not_range [of v]
    show ?thesis by (auto simp: good_item_def in_room_def split: if_splits)
  next
    case (CArray n)
    then show ?thesis using assms leaf [of "Arr []"] nil
      by (auto simp: good_item_def in_room_def open_frame_def call_ok_def frame_ok_def split: if_splits intro!: exI [of _ "[] :: item list"])
  next
    case (CMap n)
    then show ?thesis using assms leaf [of "MapI []"] nil
      by (auto simp: good_item_def in_room_def open_frame_def call_ok_def frame_ok_def split: if_splits intro!: exI [of _ "[] :: (item \<times> item) list"])
  next
    case (CTag t)
    with assms nil show ?thesis by (auto simp: in_room_def open_frame_def frame_ok_def split: if_splits)
  next
    case (CUint v)
    with assms leaf [of "UInt v"] show ?thesis by (auto simp: good_item_def in_room_def split: if_splits)
  next
    case (CBytes b)
    with assms leaf [of "ByteStr b"] show ?thesis by (auto simp: good_item_def in_room_def call_ok_def split: if_splits)
  next
    case (CText b)
    with assms leaf [of "TextStr b"] show ?thesis by (auto simp: good_item_def in_room_def call_ok_def split: if_splits)
  next
    case (CBool b)
    with assms leaf [of "Boolean b"] show ?thesis by (auto simp: good_item_def in_room_def split: if_splits)
  next
    case CNull
    with assms leaf [of NullI] show ?thesis by (auto simp: good_item_def in_room_def split: if_splits)
  qed
qed

lemma abs_run_frames:
  "frames_ok fs \<Longrightarrow> \<forall>c \<in> set cs. call_ok c \<Longrightarrow> abs_run room fs cs = Inr (fs', out) \<Longrightarrow> frames_ok fs' \<and> good_seq out"
proof (induction cs arbitrary: room fs out)
  case Nil
  then show ?case by (auto simp: good_seq_def intro: exI [of _ "[]"])
next
  case (Cons c cs)
  then obtain fs1 out1 out2 where c: "abs_call room fs c = Inr (fs1, out1)"
    and cs: "abs_run (room - length (call_bytes c)) fs1 cs = Inr (fs', out2)" and out: "out = out1 @ out2"
    by (auto split: sum.splits)
  have "frames_ok fs1 \<and> good_seq out1" using Cons.prems(1,2) c by (intro abs_call_frames) auto
  with Cons.IH [OF _ _ cs] Cons.prems(2) out good_seq_append show ?case by auto
qed

lemma run_canonical:
  assumes init: "ants_cbor_enc_init buf = Inr e" and calls: "\<forall>c \<in> set cs. call_ok c"
    and run: "run_steps (map exec_call cs) e = (ANTS_OK, e')" and fin: "ants_cbor_enc_finalise e' = ANTS_OK"
  shows "good_seq (take (ants_cbor_enc_size e') (enc_buf e'))"
proof -
  from enc_init_rel [OF init] have rel: "enc.rel e [] []" by simp
  from run_calls_sim [OF rel, of cs] run obtain fs out
    where abs: "abs_run (enc_cap e - enc_pos e) [] cs = Inr (fs, out)" and rel': "enc.rel e' out fs"
    by (auto split: sum.splits)
  from fin enc.rel_depth [OF rel'] have "fs = []" by (auto simp: ants_cbor_enc_finalise_def split: if_splits)
  with enc.rel_bytes [OF rel'] have "take (enc_pos e') (enc_buf e') = out" by simp
  with abs_run_frames [OF _ calls abs] show ?thesis by (simp add: ants_cbor_enc_size_def)
qed

section \<open>Properties of the codec\<close>

text \<open>C1. The whole-document validator accepts a buffer exactly when it is the canonical
  encoding of one well-formed item whose containers nest at most sixteen deep.\<close>

theorem is_canonical_accepts_exactly:
  "ants_cbor_is_canonical bs = ANTS_OK \<longleftrightarrow>
    (\<exists>x. wf_item x \<and> nests_within ANTS_CBOR_MAX_DEPTH x \<and> bs = enc_item x)"
  by (rule is_canonical_iff)

text \<open>C2. Making the encoder calls of a well-formed item on a fresh encoder with enough room
  succeeds, finalises, and leaves exactly the canonical encoding of the item in the buffer.\<close>

theorem encoder_writes_item:
  assumes "wf_item x" "nests_within ANTS_CBOR_MAX_DEPTH x" "length (enc_item x) \<le> length buf"
    and "ants_cbor_enc_init buf = Inr e"
  shows "\<exists>e'. run_steps (map exec_call (calls_of x)) e = (ANTS_OK, e') \<and> ants_cbor_enc_finalise e' = ANTS_OK \<and>
    take (ants_cbor_enc_size e') (enc_buf e') = enc_item x"
  using document_item [OF assms(1,2) refl, of buf] assms(3,4)
  by (auto simp: cbor_document_def fits_def ants_cbor_enc_init_def Let_def split: if_splits prod.splits)

theorem encoder_writes_item_witness:
  "\<exists>e'. run_steps (map exec_call (calls_of (MapI [(TextStr [97], UInt 300), (TextStr [98], Arr [NullI])])))
      \<lparr>enc_buf = replicate 16 0, enc_pos = 0, enc_stack = replicate ANTS_CBOR_MAX_DEPTH ctx_none, enc_depth = -1\<rparr> =
      (ANTS_OK, e') \<and>
    ants_cbor_enc_finalise e' = ANTS_OK \<and>
    take (ants_cbor_enc_size e') (enc_buf e') = [0xa2, 0x61, 0x61, 0x19, 0x01, 0x2c, 0x61, 0x62, 0x81, 0xf6]"
proof -
  let ?x = "MapI [(TextStr [97], UInt 300), (TextStr [98], Arr [NullI])]"
  have enc: "enc_item ?x = [0xa2, 0x61, 0x61, 0x19, 0x01, 0x2c, 0x61, 0x62, 0x81, 0xf6]"
    by (simp add: head_bytes_def be_bytes_code)
  have ok: "wf_item ?x" "nests_within ANTS_CBOR_MAX_DEPTH ?x" "length (enc_item ?x) \<le> length (replicate 16 (0 :: u8))"
    by (simp_all add: ANTS_CBOR_MAX_DEPTH_def head_bytes_def be_bytes_code)
  have "ants_cbor_enc_init (replicate 16 0) = Inr \<lparr>enc_buf = replicate 16 0, enc_pos = 0,
      enc_stack = replicate ANTS_CBOR_MAX_DEPTH ctx_none, enc_depth = -1\<rparr>"
    by (simp add: ants_cbor_enc_init_def)
  from encoder_writes_item [OF ok this] show ?thesis unfolding enc .
qed

text \<open>C3. Whatever sequence of calls a client makes, if all of them succeed and finalise accepts,
  the bytes written are a sequence of canonical encodings of well-formed items: the encoder
  cannot be driven into emitting a non-canonical document.\<close>

theorem encoder_output_canonical:
  assumes "ants_cbor_enc_init buf = Inr e" "\<forall>c \<in> set cs. call_ok c"
    and "run_steps (map exec_call cs) e = (ANTS_OK, e')" "ants_cbor_enc_finalise e' = ANTS_OK"
  shows "\<exists>xs. (\<forall>x \<in> set xs. wf_item x \<and> nests_within ANTS_CBOR_MAX_DEPTH x) \<and>
    take (ants_cbor_enc_size e') (enc_buf e') = concat (map enc_item xs)"
  using run_canonical [OF assms] by (auto simp: good_seq_def good_item_def enc_items_def)

theorem encoder_output_canonical_witness:
  "\<exists>e e'. ants_cbor_enc_init [0, 0, 0, 0] = Inr e \<and>
    run_steps (map exec_call [CTag 42, CArray 1, CUint 7]) e = (ANTS_OK, e') \<and>
    (\<exists>xs. (\<forall>x \<in> set xs. wf_item x \<and> nests_within ANTS_CBOR_MAX_DEPTH x) \<and>
      take (ants_cbor_enc_size e') (enc_buf e') = concat (map enc_item xs))"
proof -
  define e where "e = (case ants_cbor_enc_init [0, 0, 0, 0] of Inr e \<Rightarrow> e)"
  define e' where "e' = snd (run_steps (map exec_call [CTag 42, CArray 1, CUint 7]) e)"
  have "ants_cbor_enc_init [0, 0, 0, 0] = Inr e" unfolding e_def by code_simp
  moreover have "run_steps (map exec_call [CTag 42, CArray 1, CUint 7]) e = (ANTS_OK, e')" unfolding e_def e'_def by code_simp
  moreover have "ants_cbor_enc_finalise e' = ANTS_OK" unfolding e_def e'_def by code_simp
  moreover have "\<forall>c \<in> set [CTag 42, CArray 1, CUint 7]. call_ok c" by (simp add: call_ok_def)
  ultimately show ?thesis using encoder_output_canonical by blast
qed

text \<open>A buffer the validator accepts denotes one item only: no two well-formed items share
  an encoding, so hashing the bytes commits to the value.\<close>

theorem canonical_document_unique:
  assumes "ants_cbor_is_canonical bs = ANTS_OK"
  shows "\<exists>!x. wf_item x \<and> bs = enc_item x"
proof -
  from assms obtain x where x: "wf_item x" "bs = enc_item x" by (auto simp: is_canonical_iff)
  then show ?thesis using unique_encD [OF enc_item_unique [OF x(1)], of _ "[]" "[]"] by auto
qed

theorem canonical_document_unique_witness:
  "ants_cbor_is_canonical [0x82, 0x01, 0x20] = ANTS_OK \<and> (\<exists>!x. wf_item x \<and> [0x82, 0x01, 0x20] = enc_item x)"
proof -
  have "ants_cbor_is_canonical [0x82, 0x01, 0x20] = ANTS_OK" by code_simp
  with canonical_document_unique show ?thesis by blast
qed

text \<open>Headers: for every major type and argument the writer emits the one shortest form
  (or reports a full buffer and writes nothing), and the reader accepts that form and no other.\<close>

theorem head_write_read:
  assumes "major \<le> 7"
  shows "cbor_write_head major v e =
      (if enc_pos e + length (head_bytes major v) > enc_cap e then (ANTS_ERROR_BUFFER_TOO_SMALL, e)
       else (ANTS_OK, put_bytes (head_bytes major v) e)) \<and>
    (cbor_read_head d = (Inr (major, v), d') \<longleftrightarrow>
      d' = d\<lparr>dec_pos := dec_pos d + length (head_bytes major v)\<rparr> \<and> (\<exists>r. dec_rest d = head_bytes major v @ r))"
  using assms by (simp add: cbor_write_head_eq read_head_split not_less)

theorem head_write_read_witness:
  "cbor_read_head (ants_cbor_dec_init [0x19, 0x01, 0x2c]) = (Inr (0, 300), ants_cbor_dec_init [0x19, 0x01, 0x2c]\<lparr>dec_pos := 3\<rparr>)"
proof -
  let ?d = "ants_cbor_dec_init [0x19, 0x01, 0x2c]"
  have h: "head_bytes 0 300 = [0x19, 0x01, 0x2c]" by code_simp
  have "dec_rest ?d = head_bytes 0 300 @ []" unfolding h by simp
  with head_write_read [of 0 300 undefined ?d "?d\<lparr>dec_pos := 3\<rparr>"] h show ?thesis
    by (simp add: ants_cbor_dec_init_def)
qed

text \<open>C4. A call that fails on an encoder reached by successful calls leaves it as it was: the
  position, the container stack and every byte written so far.\<close>

theorem failed_call_changes_nothing:
  assumes "ants_cbor_enc_init buf = Inr e" "run_steps (map exec_call cs) e = (ANTS_OK, e1)"
    and "exec_call c e1 = (rc, e2)" "rc \<noteq> ANTS_OK"
  shows "enc_pos e2 = enc_pos e1 \<and> enc_stack e2 = enc_stack e1 \<and> enc_depth e2 = enc_depth e1 \<and>
    enc_cap e2 = enc_cap e1 \<and> take (enc_pos e1) (enc_buf e2) = take (enc_pos e1) (enc_buf e1)"
proof -
  from run_calls_sim [of e "[]" "[]" cs] enc_init_rel [OF assms(1)] assms(2) obtain fs out
    where rel: "enc.rel e1 out fs"
    by (auto split: sum.splits)
  from exec_call_sim [OF rel, of c] assms(3,4) show ?thesis
    by (auto simp: call_outcome_def enc_same_def split: sum.splits)
qed

theorem failed_call_changes_nothing_witness:
  "\<exists>e e1 e2. ants_cbor_enc_init (replicate 9 0) = Inr e \<and>
    run_steps (map exec_call [CMap 2, CText [98], CNull]) e = (ANTS_OK, e1) \<and>
    exec_call (CText [97]) e1 = (ANTS_ERROR_NON_CANONICAL, e2) \<and>
    enc_pos e2 = enc_pos e1 \<and> take (enc_pos e1) (enc_buf e2) = take (enc_pos e1) (enc_buf e1)"
proof -
  define e where "e = (case ants_cbor_enc_init (replicate 9 0) of Inr e \<Rightarrow> e)"
  define e1 where "e1 = snd (run_steps (map exec_call [CMap 2, CText [98], CNull]) e)"
  define e2 where "e2 = snd (exec_call (CText [97]) e1)"
  have h: "ants_cbor_enc_init (replicate 9 0) = Inr e" unfolding e_def by code_simp
  have r: "run_steps (map exec_call [CMap 2, CText [98], CNull]) e = (ANTS_OK, e1)"
    unfolding e_def e1_def by code_simp
  have c: "exec_call (CText [97]) e1 = (ANTS_ERROR_NON_CANONICAL, e2)" unfolding e_def e1_def e2_def by code_simp
  from failed_call_changes_nothing [OF h r c] h r c show ?thesis by blast
qed

text \<open>C5. The validator returns on every buffer: the fuel its model is given is never used up.\<close>

theorem walk_always_returns: "walk_one_item (Suc (length bs)) (ants_cbor_dec_init bs) \<noteq> None"
proof -
  have "length (dec_rest (ants_cbor_dec_init bs)) < Suc (length bs)" by simp
  then show ?thesis using walk_total dec_init_rel unfolding walk_ends_def by blast
qed

text \<open>A decoder call that fails reports an error code and leaves the decoder as it was, so the
  caller can try another type at the same position.\<close>

theorem failed_read_restores:
  "keeps_on_error ants_cbor_dec_uint d \<and> keeps_on_error ants_cbor_dec_int d \<and>
   keeps_on_error ants_cbor_dec_bytes d \<and> keeps_on_error ants_cbor_dec_text d \<and>
   keeps_on_error ants_cbor_dec_array d \<and> keeps_on_error ants_cbor_dec_map d \<and>
   keeps_on_error ants_cbor_dec_tag d \<and> keeps_on_error ants_cbor_dec_bool d \<and> keeps_on_error ants_cbor_dec_null d"
  by (intro conjI dec_uint.keeps dec_int.keeps dec_bytes.keeps dec_text.keeps dec_array.keeps dec_map.keeps
      dec_tag.keeps dec_bool.keeps dec_null.keeps)

end
