(* ===== verification/Cbor_Parser.thy ===== *)
theory Cbor_Parser
  imports Cbor_Canonical
begin

text \<open>
  Composing decoder calls. Every \<^verbatim>\<open>*_decode\<close> function of the client is a straight
  sequence of decoder calls and checks; the locale \<open>parser\<close> is what such a sequence
  promises about the calls it reads back, and it is closed under the composition the
  code uses. The locale \<open>record_codec\<close> is the contract of a whole message format.
\<close>

section \<open>Runs with enough room\<close>

definition run_opens :: "frame list \<Rightarrow> enc_call list \<Rightarrow> (frame list \<times> bytes) res" where
  "run_opens fs cs = abs_run (length (run_bytes cs)) fs cs"

lemma run_opens_Nil [simp]: "run_opens fs [] = Inr (fs, [])"
  by (simp add: run_opens_def)

lemma abs_run_enough:
  assumes "abs_run room fs cs = Inr x"
  shows "run_opens fs cs = Inr x"
  using abs_run_room [OF assms, of "length (run_bytes cs)"] by (simp add: run_opens_def)

lemma run_opens_room:
  assumes "run_opens fs cs = Inr x" "length (run_bytes cs) \<le> room"
  shows "abs_run room fs cs = Inr x"
  using abs_run_room [OF assms(1) [unfolded run_opens_def], of room] assms(2) by simp

lemma run_opens_append:
  "run_opens fs (cs @ ds) = Inr (fs2, out) \<longleftrightarrow>
    (\<exists>fs1 out1 out2. run_opens fs cs = Inr (fs1, out1) \<and> run_opens fs1 ds = Inr (fs2, out2) \<and> out = out1 @ out2)"
  (is "?l \<longleftrightarrow> ?r")
proof
  assume ?l
  then show ?r
    unfolding run_opens_def [of fs "cs @ ds"] abs_run_append
    by (fastforce split: sum.splits intro: abs_run_enough)
next
  assume ?r
  then obtain fs1 out1 out2 where cs: "run_opens fs cs = Inr (fs1, out1)"
    and ds: "run_opens fs1 ds = Inr (fs2, out2)" and out: "out = out1 @ out2"
    by blast
  let ?room = "length (run_bytes cs) + length (run_bytes ds)"
  have "abs_run ?room fs cs = Inr (fs1, out1)" "abs_run (?room - length (run_bytes cs)) fs1 ds = Inr (fs2, out2)"
    using run_opens_room [OF cs, of ?room] run_opens_room [OF ds, of "?room - length (run_bytes cs)"] by simp_all
  then show ?l by (simp add: run_opens_def abs_run_append out)
qed

lemma run_opens_single: "run_opens fs [c] = Inr x \<longleftrightarrow> opens fs c = Inr x"
  by (cases x) (auto simp: run_opens_def opens_def split: sum.splits prod.splits)

section \<open>Parsers\<close>

text \<open>\<open>valid x\<close>: the values the parser delivers; \<open>calls x\<close>: the encoder calls it reads back.\<close>

locale parser =
  fixes read :: "(ants_cbor_dec, 'a) reader"
    and valid :: "'a \<Rightarrow> bool"
    and calls :: "'a \<Rightarrow> enc_call list"
  assumes parse_sound: "dec.rel d tops fs \<Longrightarrow> read d = (Inr x, d') \<Longrightarrow>
      valid x \<and> (\<forall>c \<in> set (calls x). call_ok c) \<and>
      (\<exists>fs' out. run_opens fs (calls x) = Inr (fs', out) \<and> dec_moved d (run_bytes (calls x)) (tops @ out) fs' d')"
    and parse_complete: "dec.rel d tops fs \<Longrightarrow> valid x \<Longrightarrow> \<forall>c \<in> set (calls x). call_ok c \<Longrightarrow>
      dec_rest d = run_bytes (calls x) @ r \<Longrightarrow> run_opens fs (calls x) = Inr (fs', out) \<Longrightarrow>
      \<exists>d'. read d = (Inr x, d') \<and> dec_moved d (run_bytes (calls x)) (tops @ out) fs' d'"

sublocale call_reader \<subseteq> prs: parser read "\<lambda>_. True" "\<lambda>v. [call v]"
proof (unfold_locales, goal_cases)
  case (1 d tops fs x d')
  then show ?case using sound [of d tops fs x d'] by (auto simp: run_opens_single)
next
  case (2 d tops fs x r fs' out)
  then show ?case using complete [of d tops fs x r fs' out] by (auto simp: run_opens_single)
qed

lemma parser_cong:
  assumes "parser m V C" "\<And>x. V x \<longleftrightarrow> V' x" "\<And>x. V x \<Longrightarrow> C x = C' x"
  shows "parser m V' C'"
proof (unfold_locales, goal_cases)
  case (1 d tops fs x d')
  from parser.parse_sound [OF assms(1) 1] assms(2,3) [of x] show ?case by simp
next
  case (2 d tops fs x r fs' out)
  with assms(2,3) [of x] show ?case using parser.parse_complete [OF assms(1) 2(1), of x r fs' out] by simp
qed

lemma parser_ret: "parser (read_ret y) (\<lambda>x. x = y) (\<lambda>_. [])"
  by unfold_locales (auto simp: dec_moved_def read_ret_def)

lemma parser_fail: "parser (read_fail e) (\<lambda>x. False) C"
  by unfold_locales auto

lemma parser_if:
  assumes "b \<Longrightarrow> parser m V C" "\<not> b \<Longrightarrow> parser m' V' C"
  shows "parser (if b then m else m') (\<lambda>x. if b then V x else V' x) C"
  using assms by simp

lemma parser_guard:
  assumes "\<not> bad \<Longrightarrow> parser m V C" "\<And>x. bad \<Longrightarrow> \<not> V x"
  shows "parser (if bad then read_fail e else m) V C"
  using assms by (cases bad) (auto intro: parser_cong [OF parser_fail])

lemma parser_optional:
  assumes "parser m V C"
  shows "parser (if b then m else read_ret y) (\<lambda>x. if b then V x else x = y) (\<lambda>x. if b then C x else [])"
  using assms parser_ret [of y] by (cases b) simp_all

text \<open>Sequencing: the part \<open>sel\<close> of the final value is what the first parser delivered.\<close>

lemma parser_then:
  assumes m: "parser m V C" and f: "\<And>x. V x \<Longrightarrow> parser (f x) (\<lambda>y. W y \<and> sel y = x) D"
  shows "parser (then_read m f) (\<lambda>y. V (sel y) \<and> W y) (\<lambda>y. C (sel y) @ D y)"
proof (unfold_locales, goal_cases)
  case (1 d tops fs y d')
  then obtain x d1 where x: "m d = (Inr x, d1)" and y: "f x d1 = (Inr y, d')" by (auto simp: then_read_Inr)
  from parser.parse_sound [OF m 1(1) x] obtain fs1 out1 where vx: "V x" "\<forall>c \<in> set (C x). call_ok c"
    and r1: "run_opens fs (C x) = Inr (fs1, out1)" and m1: "dec_moved d (run_bytes (C x)) (tops @ out1) fs1 d1"
    by auto
  from m1 have "dec.rel d1 (tops @ out1) fs1" by (simp add: dec_moved_def)
  from parser.parse_sound [OF f [OF vx(1)] this y] obtain fs2 out2
    where vy: "W y" "sel y = x" "\<forall>c \<in> set (D y). call_ok c"
      and r2: "run_opens fs1 (D y) = Inr (fs2, out2)"
      and m2: "dec_moved d1 (run_bytes (D y)) ((tops @ out1) @ out2) fs2 d'"
    by auto
  show ?case
    using vx vy r1 r2 dec_moved_trans [OF m1 m2] by (auto simp: run_opens_append)
next
  case (2 d tops fs y r fs' out)
  then obtain fs1 out1 out2 where r: "run_opens fs (C (sel y)) = Inr (fs1, out1)" "run_opens fs1 (D y) = Inr (fs', out2)"
    and out: "out = out1 @ out2"
    by (auto simp: run_opens_append)
  have rest: "dec_rest d = run_bytes (C (sel y)) @ run_bytes (D y) @ r" using 2(4) by simp
  have v: "V (sel y)" "\<forall>c \<in> set (C (sel y)). call_ok c" "\<forall>c \<in> set (D y). call_ok c" "W y" using 2(2,3) by auto
  from parser.parse_complete [OF m 2(1) v(1,2) rest r(1)] obtain d1 where d1: "m d = (Inr (sel y), d1)"
      "dec_moved d (run_bytes (C (sel y))) (tops @ out1) fs1 d1"
    by auto
  then have "dec.rel d1 (tops @ out1) fs1" "dec_rest d1 = run_bytes (D y) @ r" using rest by (auto simp: dec_moved_def)
  from parser.parse_complete [OF f [OF v(1)] this(1) _ v(3) this(2) r(2)] v(4) obtain d'
    where "f (sel y) d1 = (Inr y, d')" "dec_moved d1 (run_bytes (D y)) ((tops @ out1) @ out2) fs' d'"
    by auto
  with d1 dec_moved_trans show ?case by (fastforce simp: then_read_Inr out)
qed

text \<open>A check on what was read, and a value computed from it.\<close>

lemma parser_check:
  assumes "parser m V C" and "\<And>x. V x \<Longrightarrow> \<not> bad x \<Longrightarrow> g (f x) = x"
  shows "parser (then_read m (\<lambda>x. if bad x then read_fail e else read_ret (f x)))
    (\<lambda>y. V (g y) \<and> \<not> bad (g y) \<and> y = f (g y)) (\<lambda>y. C (g y))"
proof (rule parser_cong)
  show "parser (then_read m (\<lambda>x. if bad x then read_fail e else read_ret (f x)))
      (\<lambda>y. V (g y) \<and> (\<not> bad (g y) \<and> y = f (g y))) (\<lambda>y. C (g y) @ [])"
  proof (rule parser_then [OF assms(1)])
    fix x
    assume "V x"
    then show "parser (if bad x then read_fail e else read_ret (f x)) (\<lambda>y. (\<not> bad (g y) \<and> y = f (g y)) \<and> g y = x) (\<lambda>_. [])"
      using assms(2) by (cases "bad x") (auto intro: parser_cong [OF parser_ret] parser_cong [OF parser_fail])
  qed
qed auto

text \<open>Reading the fields of a record one by one. \<open>K\<close> collects what is known of the record from
  the fields already read; the last step returns the record they determine.\<close>

lemma parser_field:
  assumes "parser m V C" "\<And>x. V x \<Longrightarrow> parser (f x) (\<lambda>y. W y \<and> (K y \<and> sel y = x)) D"
  shows "parser (then_read m f) (\<lambda>y. (V (sel y) \<and> W y) \<and> K y) (\<lambda>y. C (sel y) @ D y)"
proof (rule parser_cong)
  show "parser (then_read m f) (\<lambda>y. V (sel y) \<and> (W y \<and> K y)) (\<lambda>y. C (sel y) @ D y)"
    using assms by (intro parser_then) (auto simp: conj_assoc)
qed auto

lemma parser_done: "(\<And>y. K y \<longleftrightarrow> y = x) \<Longrightarrow> parser (read_ret x) (\<lambda>y. True \<and> K y) (\<lambda>_. [])"
  by (rule parser_cong [OF parser_ret]) auto

text \<open>A fixed value that is read and checked, as for container sizes and map keys.\<close>

lemma parser_expect:
  assumes "parser m V C" "V n" "parser f W D"
  shows "parser (then_read m (\<lambda>k. if k \<noteq> n then read_fail e else f)) W (\<lambda>y. C n @ D y)"
proof (rule parser_cong)
  show "parser (then_read m (\<lambda>k. if k \<noteq> n then read_fail e else f)) (\<lambda>y. V n \<and> W y) (\<lambda>y. C n @ D y)"
  proof (rule parser_then [where sel = "\<lambda>_. n" and C = C])
    show "parser (if x \<noteq> n then read_fail e else f) (\<lambda>y. W y \<and> n = x) D" for x
      using assms(3) by (cases "x = n") (auto intro: parser_cong [OF parser_fail])
  qed (rule assms(1))
qed (use assms(2) in auto)

fun read_times :: "nat \<Rightarrow> ('s, 'a) reader \<Rightarrow> ('s, 'a list) reader" where
  "read_times 0 m = read_ret []"
| "read_times (Suc n) m = then_read m (\<lambda>x. then_read (read_times n m) (\<lambda>xs. read_ret (x # xs)))"

lemma parser_times:
  assumes "parser m V C"
  shows "parser (read_times n m) (\<lambda>xs. length xs = n \<and> list_all V xs) (\<lambda>xs. concat (map C xs))"
proof (induction n)
  case 0
  show ?case by (auto intro!: parser_cong [OF parser_ret])
next
  case (Suc n)
  let ?D = "\<lambda>xs. concat (map C (tl xs)) @ []" and ?W = "\<lambda>xs. length (tl xs) = n \<and> list_all V (tl xs)"
  have "parser (read_times (Suc n) m) (\<lambda>xs. (V (hd xs) \<and> (?W xs \<and> True)) \<and> xs \<noteq> []) (\<lambda>xs. C (hd xs) @ ?D xs)"
    unfolding read_times.simps
    by (rule parser_field [OF assms], rule parser_field [OF Suc.IH], rule parser_done) (auto simp: neq_Nil_conv)
  then show ?case
    by (rule parser_cong) (auto simp: neq_Nil_conv length_Suc_conv)
qed

section \<open>Documents\<close>

text \<open>The error vocabulary of the client's decoders, and the frame of every \<^verbatim>\<open>*_decode\<close>.\<close>

definition norm_decode_err :: "ants_error \<Rightarrow> ants_error" where
  "norm_decode_err rc = (if rc = ANTS_OK \<or> rc = ANTS_ERROR_NON_CANONICAL then rc else ANTS_ERROR_MALFORMED)"

definition norm_read :: "('s, 'a) reader \<Rightarrow> ('s, 'a) reader" where
  "norm_read m s = (case m s of (Inl e, s') \<Rightarrow> (Inl (norm_decode_err e), s') | (Inr x, s') \<Rightarrow> (Inr x, s'))"

definition cbor_read_document :: "(ants_cbor_dec, 'a) reader \<Rightarrow> bytes \<Rightarrow> 'a res" where
  "cbor_read_document body buf =
    (case body (ants_cbor_dec_init buf) of
       (Inl e, d) \<Rightarrow> Inl e
     | (Inr x, d) \<Rightarrow>
         (let rc = norm_decode_err (ants_cbor_dec_finalise d) in if rc \<noteq> ANTS_OK then Inl rc else Inr x))"

lemma norm_read_Inr: "norm_read m d = (Inr x, d') \<longleftrightarrow> m d = (Inr x, d')"
  by (auto simp: norm_read_def split: prod.splits sum.splits)

lemma parser_norm: "parser m V C \<Longrightarrow> parser (norm_read m) V C"
  by (simp add: parser_def norm_read_Inr)

lemma calls_of_ok: "wf_item x \<Longrightarrow> \<forall>c \<in> set (calls_of x). call_ok c"
  by (induction x rule: calls_of.induct) (simp_all add: call_ok_def)

lemma item_opens:
  assumes "wf_item x" "nests_within ANTS_CBOR_MAX_DEPTH x"
  shows "run_opens [] (calls_of x) = Inr ([], enc_item x)" "run_bytes (calls_of x) = enc_item x"
  using encodes_item [OF assms] by (simp_all add: encodes_def run_opens_def)

lemma finalise_ok: "ants_cbor_dec_finalise d = ANTS_OK \<longleftrightarrow> dec_depth d = -1 \<and> dec_pos d = dec_len d"
  by (simp add: ants_cbor_dec_finalise_def)

lemma norm_ok [simp]: "norm_decode_err rc = ANTS_OK \<longleftrightarrow> rc = ANTS_OK"
  by (simp add: norm_decode_err_def)

lemma read_document_run:
  "cbor_read_document body bs = Inr x \<longleftrightarrow>
    (\<exists>d. body (ants_cbor_dec_init bs) = (Inr x, d) \<and> dec_depth d = -1 \<and> dec_pos d = dec_len d)"
  unfolding cbor_read_document_def by (auto simp: Let_def finalise_ok split: prod.splits sum.splits if_splits)

lemma read_document_iff:
  assumes p: "parser body V C"
    and item: "\<And>x. V x \<Longrightarrow> C x = calls_of (I x) \<and> wf_item (I x) \<and> nests_within ANTS_CBOR_MAX_DEPTH (I x)"
  shows "cbor_read_document body bs = Inr x \<longleftrightarrow> V x \<and> bs = enc_item (I x)"
proof
  assume "cbor_read_document body bs = Inr x"
  then obtain d where b: "body (ants_cbor_dec_init bs) = (Inr x, d)" and fin: "dec_depth d = -1" "dec_pos d = dec_len d"
    unfolding read_document_run by blast
  from parser.parse_sound [OF p dec_init_rel b] obtain fs out where v: "V x"
    and m: "dec_moved (ants_cbor_dec_init bs) (run_bytes (C x)) ([] @ out) fs d"
    by blast
  have "dec_rest d = []" using fin(2) by (simp add: dec_rest_def)
  then have "bs = run_bytes (C x)" using m unfolding dec_moved_def by simp
  also have "\<dots> = enc_item (I x)" using item [OF v] item_opens(2) [of "I x"] by simp
  finally show "V x \<and> bs = enc_item (I x)" using v by blast
next
  assume x: "V x \<and> bs = enc_item (I x)"
  then have i: "C x = calls_of (I x)" "wf_item (I x)" "nests_within ANTS_CBOR_MAX_DEPTH (I x)"
    using item [of x] by blast+
  have c: "\<forall>c \<in> set (C x). call_ok c" "dec_rest (ants_cbor_dec_init bs) = run_bytes (C x) @ []"
      "run_opens [] (C x) = Inr ([], enc_item (I x))"
    using calls_of_ok [OF i(2)] item_opens [OF i(2,3)] x by (simp_all only: i(1) dec_init_rest append_Nil2)
  from parser.parse_complete [OF p dec_init_rel conjunct1 [OF x] c] obtain d
    where d: "body (ants_cbor_dec_init bs) = (Inr x, d)"
      and m: "dec_moved (ants_cbor_dec_init bs) (run_bytes (C x)) ([] @ enc_item (I x)) [] d"
    by blast
  from m have rel: "dec.rel d ([] @ enc_item (I x)) []" by (simp only: dec_moved_def)
  have "dec_rest d = []" using m c(2) unfolding dec_moved_def by simp
  then have "dec_pos d = dec_len d" using rel by (simp add: dec_rest_def dec.rel_def)
  with d dec.rel_depth [OF rel] show "cbor_read_document body bs = Inr x" by (simp add: read_document_run)
qed

section \<open>Message formats\<close>

text \<open>What a message format promises: it encodes a valid value as one canonical item, and decodes
  exactly those encodings.\<close>

locale record_codec =
  fixes encode :: "bytes \<Rightarrow> 'r \<Rightarrow> bytes res"
    and decode :: "bytes \<Rightarrow> 'r res"
    and item_of :: "'r \<Rightarrow> item"
    and valid :: "'r \<Rightarrow> bool"
  assumes encode_eq: "valid r \<Longrightarrow> encode buf r = fits buf (enc_item (item_of r))"
    and decode_iff: "decode bs = Inr r \<longleftrightarrow> valid r \<and> bs = enc_item (item_of r)"
    and item_wf: "valid r \<Longrightarrow> wf_item (item_of r) \<and> nests_within ANTS_CBOR_MAX_DEPTH (item_of r)"
begin

lemma encode_decode: "valid r \<Longrightarrow> encode buf r = Inr bs \<Longrightarrow> decode bs = Inr r"
  by (auto simp: encode_eq decode_iff fits_def split: if_splits)

lemma decode_encode: "decode bs = Inr r \<Longrightarrow> length bs \<le> length buf \<Longrightarrow> encode buf r = Inr bs"
  by (auto simp: encode_eq decode_iff fits_def)

lemma decode_canonical: "decode bs = Inr r \<Longrightarrow> ants_cbor_is_canonical bs = ANTS_OK"
  using item_wf by (auto simp: decode_iff is_canonical_iff)

lemma codec:
  "(decode bs = Inr r \<longleftrightarrow> valid r \<and> encode bs r = Inr bs) \<and>
   (decode bs = Inr r \<longrightarrow> ants_cbor_is_canonical bs = ANTS_OK)"
  using decode_encode [of bs r bs] encode_decode [of r bs bs] decode_canonical [of bs r] decode_iff [of bs r] by blast

lemma encode_injective:
  "valid r \<Longrightarrow> valid r' \<Longrightarrow> encode buf r = Inr bs \<Longrightarrow> encode buf' r' = Inr bs \<Longrightarrow> r = r'"
  using encode_decode by (metis sum.inject(2))

lemma encode_error:
  "valid r \<Longrightarrow> encode buf r = Inl e \<Longrightarrow>
   e = (if length buf = 0 then ANTS_ERROR_INVALID_ARG else ANTS_ERROR_BUFFER_TOO_SMALL) \<and>
   length buf < length (enc_item (item_of r))"
  by (auto simp: encode_eq fits_def split: if_splits)

end

end
