(* ===== verification/Cbor_Fields.thy ===== *)
theory Cbor_Fields
  imports Cbor_Parser
begin

text \<open>
  The small helpers that the message codecs share: a map key and its value written in
  one go, and a key that is expected and its value read back. \<^verbatim>\<open>ledger.c\<close>,
  \<^verbatim>\<open>payment.c\<close> and \<^verbatim>\<open>bond.c\<close> each carry their own copy of the same functions; the
  model has them once.
\<close>

section \<open>Writing\<close>

definition enc_kv_uint :: "u64 \<Rightarrow> u64 \<Rightarrow> ants_cbor_enc step" where
  "enc_kv_uint key val = run_steps [ants_cbor_enc_uint key, ants_cbor_enc_uint val]"

definition enc_kv_bytes :: "u64 \<Rightarrow> bytes \<Rightarrow> ants_cbor_enc step" where
  "enc_kv_bytes key b = run_steps [ants_cbor_enc_uint key, ants_cbor_enc_bytes b]"

definition enc_kv_bool :: "u64 \<Rightarrow> bool \<Rightarrow> ants_cbor_enc step" where
  "enc_kv_bool key val = run_steps [ants_cbor_enc_uint key, ants_cbor_enc_bool val]"

definition enc_kv_text :: "u64 \<Rightarrow> bytes \<Rightarrow> ants_cbor_enc step" where
  "enc_kv_text key s = run_steps [ants_cbor_enc_uint key, ants_cbor_enc_text s]"

section \<open>Reading\<close>

definition expect_key :: "u64 \<Rightarrow> (ants_cbor_dec, unit) reader" where
  "expect_key want =
    then_read (norm_read ants_cbor_dec_uint)
      (\<lambda>key. if key \<noteq> want then read_fail ANTS_ERROR_MALFORMED else read_ret ())"

definition decode_uint_field :: "u64 \<Rightarrow> (ants_cbor_dec, u64) reader" where
  "decode_uint_field key = then_read (expect_key key) (\<lambda>_. norm_read ants_cbor_dec_uint)"

definition decode_bool_field :: "u64 \<Rightarrow> (ants_cbor_dec, bool) reader" where
  "decode_bool_field key = then_read (expect_key key) (\<lambda>_. norm_read ants_cbor_dec_bool)"

definition decode_bytes_field :: "u64 \<Rightarrow> nat \<Rightarrow> (ants_cbor_dec, bytes) reader" where
  "decode_bytes_field key want =
    then_read (expect_key key) (\<lambda>_.
    then_read (norm_read ants_cbor_dec_bytes) (\<lambda>p.
    if length p \<noteq> want then read_fail ANTS_ERROR_MALFORMED else read_ret p))"

section \<open>What they write and read\<close>

definition exec_calls :: "enc_call list \<Rightarrow> ants_cbor_enc step" where
  "exec_calls cs = run_steps (map exec_call cs)"

lemma run_exec_calls: "run_steps (map exec_calls css) = run_steps (map exec_call (concat css))"
proof (induction css)
  case (Cons cs css)
  then show ?case by (auto simp: fun_eq_iff exec_calls_def run_steps_append split: prod.splits)
qed simp

lemma document_groups:
  assumes "wf_item x" "nests_within ANTS_CBOR_MAX_DEPTH x" "calls = map exec_calls css" "concat css = calls_of x"
  shows "cbor_document buf calls = fits buf (enc_item x)"
  using document_item [OF assms(1,2) refl, of buf]
  unfolding cbor_document_def assms(3) run_exec_calls assms(4) .

lemma enc_kv_calls:
  "exec_calls [CUint k, CUint v] = enc_kv_uint k v" "exec_calls [CUint k, CBytes b] = enc_kv_bytes k b"
  "exec_calls [CUint k, CBool t] = enc_kv_bool k t" "exec_calls [CUint k, CText b] = enc_kv_text k b"
  by (simp_all add: exec_calls_def enc_kv_uint_def enc_kv_bytes_def enc_kv_bool_def enc_kv_text_def)

lemma exec_single: "exec_calls [c] = exec_call c"
  by (simp add: exec_calls_def fun_eq_iff split: prod.splits)

lemma parser_expect_key: "parser (expect_key want) (\<lambda>_. True) (\<lambda>_. [CUint want])"
  unfolding expect_key_def
  using parser_expect [OF parser_norm [OF dec_uint.prs.parser_axioms] TrueI, of "read_ret ()" "\<lambda>_. True" "\<lambda>_. []"]
  by (simp add: parser_cong [OF parser_ret])

lemma parser_after_key:
  assumes "parser m V C"
  shows "parser (then_read (expect_key key) (\<lambda>_. m)) V (\<lambda>y. CUint key # C y)"
proof (rule parser_cong)
  show "parser (then_read (expect_key key) (\<lambda>_. m)) (\<lambda>y. True \<and> V y) (\<lambda>y. [CUint key] @ C y)"
    by (rule parser_then [OF parser_expect_key, where sel = "\<lambda>_. ()"]) (simp add: assms)
qed auto

lemma parser_uint_field: "parser (decode_uint_field key) (\<lambda>_. True) (\<lambda>v. [CUint key, CUint v])"
  unfolding decode_uint_field_def by (rule parser_after_key [OF parser_norm [OF dec_uint.prs.parser_axioms]])

lemma parser_bool_field: "parser (decode_bool_field key) (\<lambda>_. True) (\<lambda>v. [CUint key, CBool v])"
  unfolding decode_bool_field_def by (rule parser_after_key [OF parser_norm [OF dec_bool.prs.parser_axioms]])

lemma parser_bytes_field: "parser (decode_bytes_field key n) (\<lambda>b. length b = n) (\<lambda>b. [CUint key, CBytes b])"
  unfolding decode_bytes_field_def
proof (rule parser_after_key)
  show "parser (then_read (norm_read ants_cbor_dec_bytes)
      (\<lambda>p. if length p \<noteq> n then read_fail ANTS_ERROR_MALFORMED else read_ret p)) (\<lambda>b. length b = n) (\<lambda>b. [CBytes b])"
    by (rule parser_cong [OF parser_check [OF parser_norm [OF dec_bytes.prs.parser_axioms], where g = "\<lambda>b. b"]]) simp_all
qed

lemma head_bytes_length:
  "length (head_bytes m v) = (if v < 24 then 1 else if v < 256 then 2 else if v < 65536 then 3 else if v < 0x100000000 then 5 else 9)"
  by (simp add: head_bytes_def Let_def be_bytes_code)

text \<open>A bounded array whose elements are read one after the other.\<close>

lemma parser_bounded_array:
  assumes m: "parser m V C"
  shows "parser (then_read (norm_read ants_cbor_dec_array) (\<lambda>n. if n > lim then read_fail e else read_times n m))
    (\<lambda>xs. length xs \<le> lim \<and> list_all V xs) (\<lambda>xs. CArray (length xs) # concat (map C xs))"
proof (rule parser_cong)
  let ?W = "\<lambda>xs. length xs \<le> lim \<and> list_all V xs" and ?D = "\<lambda>xs. concat (map C xs)"
  show "parser (then_read (norm_read ants_cbor_dec_array) (\<lambda>n. if n > lim then read_fail e else read_times n m))
      (\<lambda>xs. True \<and> ?W xs) (\<lambda>xs. [CArray (length xs)] @ ?D xs)"
  proof (rule parser_then [OF parser_norm [OF dec_array.prs.parser_axioms], where sel = length])
    show "parser (if n > lim then read_fail e else read_times n m) (\<lambda>xs. ?W xs \<and> length xs = n) ?D" for n
    proof (cases "n > lim")
      case True
      have "parser (read_fail e) (\<lambda>xs. ?W xs \<and> length xs = n) ?D"
        by (rule parser_cong [OF parser_fail]) (use True in auto)
      with True show ?thesis by simp
    next
      case False
      have "parser (read_times n m) (\<lambda>xs. ?W xs \<and> length xs = n) ?D"
        by (rule parser_cong [OF parser_times [OF m]]) (use False in auto)
      with False show ?thesis by simp
    qed
  qed
qed simp_all

text \<open>An array of any length.\<close>

lemma parser_array:
  assumes "parser arr (\<lambda>_. True) (\<lambda>n. [CArray n])" "parser m V C"
  shows "parser (then_read arr (\<lambda>n. read_times n m)) (list_all V) (\<lambda>xs. CArray (length xs) # concat (map C xs))"
proof (rule parser_cong)
  show "parser (then_read arr (\<lambda>n. read_times n m)) (\<lambda>xs. True \<and> list_all V xs) (\<lambda>xs. [CArray (length xs)] @ concat (map C xs))"
    by (rule parser_then [OF assms(1)]) (rule parser_cong [OF parser_times [OF assms(2)]], auto)
qed simp_all

end
