(* ===== verification/Bond.thy ===== *)
theory Bond
  imports Cbor_Fields "HOL-Library.Multiset"
begin

text \<open>
  Bonds for high-stakes acts (\<^verbatim>\<open>src/economy/bond\<close>). The ledger of locked bonds is a
  fixed array with a count; it is shown to implement a finite map from acts to bonds
  (the locale \<open>keyed_store\<close>), to lock additively without overflow, and to free what it
  locked. Then the bond formulas, the signed admission record and its tie-break. The
  hash of the tie-break, BLAKE3 in derive-key mode, is a parameter.
\<close>

section \<open>Definitions\<close>

definition ANTS_BOND_PEER_ID_SIZE :: nat where "ANTS_BOND_PEER_ID_SIZE = 32"
definition ANTS_BOND_ACT_ID_SIZE :: nat where "ANTS_BOND_ACT_ID_SIZE = 32"
definition ANTS_BOND_SIG_SIZE :: nat where "ANTS_BOND_SIG_SIZE = 64"
definition ANTS_BOND_HASH_SIZE :: nat where "ANTS_BOND_HASH_SIZE = 32"
definition ANTS_BOND_DISPUTE_WINDOW_S :: u64 where "ANTS_BOND_DISPUTE_WINDOW_S = 604800"
definition ANTS_BOND_MAX_LOCKED :: nat where "ANTS_BOND_MAX_LOCKED = 32"

lemmas bond_sizes = ANTS_BOND_PEER_ID_SIZE_def ANTS_BOND_ACT_ID_SIZE_def ANTS_BOND_SIG_SIZE_def
  ANTS_BOND_HASH_SIZE_def ANTS_BOND_MAX_LOCKED_def

record ants_bond =
  bond_act_id :: bytes
  bond_amount :: u64
  bond_t_start :: u64
  bond_t_release :: u64
  bond_slash_target :: bytes

record ants_bond_ledger =
  bl_count :: nat
  bl_locked :: "ants_bond list"

definition ants_bond_ledger_init :: "ants_bond_ledger \<Rightarrow> ants_bond_ledger" where
  "ants_bond_ledger_init ledger = ledger\<lparr>bl_count := 0\<rparr>"

definition ants_bond_count :: "ants_bond_ledger \<Rightarrow> nat" where
  "ants_bond_count ledger = bl_count ledger"

fun locked_total_loop :: "u64 \<Rightarrow> ants_bond list \<Rightarrow> u64" where
  "locked_total_loop tot [] = tot"
| "locked_total_loop tot (b # bs) =
    (let a = bond_amount b in
     if a > UINT64_MAX - tot then UINT64_MAX else locked_total_loop (tot + a) bs)"

definition ants_bond_locked_total :: "ants_bond_ledger \<Rightarrow> u64" where
  "ants_bond_locked_total ledger = locked_total_loop 0 (take (bl_count ledger) (bl_locked ledger))"

fun bond_index_loop :: "nat \<Rightarrow> ants_bond list \<Rightarrow> bytes \<Rightarrow> int" where
  "bond_index_loop i [] act_id = -1"
| "bond_index_loop i (b # bs) act_id =
    (if memcmp (bond_act_id b) act_id ANTS_BOND_ACT_ID_SIZE = 0 then int i else bond_index_loop (Suc i) bs act_id)"

definition bond_index :: "ants_bond_ledger \<Rightarrow> bytes \<Rightarrow> int" where
  "bond_index ledger act_id = bond_index_loop 0 (take (bl_count ledger) (bl_locked ledger)) act_id"

definition ants_bond_find :: "ants_bond_ledger \<Rightarrow> bytes \<Rightarrow> ants_bond option" where
  "ants_bond_find ledger act_id =
    (let idx = bond_index ledger act_id in if idx < 0 then None else Some (bl_locked ledger ! nat idx))"

definition ants_bond_bondable_a :: "ants_bond_ledger \<Rightarrow> u64 \<Rightarrow> u64" where
  "ants_bond_bondable_a ledger total_a =
    (let locked = ants_bond_locked_total ledger in if total_a > locked then total_a - locked else 0)"

text \<open>\<open>Inr b\<close>: the call succeeds with the verdict \<open>b\<close> in \<^verbatim>\<open>out_admitted\<close>.\<close>

definition ants_bond_admit ::
  "ants_bond_ledger \<Rightarrow> bytes \<Rightarrow> u64 \<Rightarrow> u64 \<Rightarrow> bytes \<Rightarrow> u64 \<Rightarrow> bool res \<times> ants_bond_ledger" where
  "ants_bond_admit ledger act_id amount t_start slash_target total_a =
    (if bond_index ledger act_id \<ge> 0 then (Inl ANTS_ERROR_INVALID_ARG, ledger)
     else if t_start > UINT64_MAX - ANTS_BOND_DISPUTE_WINDOW_S then (Inl ANTS_ERROR_INVALID_ARG, ledger)
     else if bl_count ledger \<ge> ANTS_BOND_MAX_LOCKED then (Inl ANTS_ERROR_BUFFER_TOO_SMALL, ledger)
     else
       let locked = ants_bond_locked_total ledger;
           bondable = (if total_a > locked then total_a - locked else 0) in
       if bondable < amount then (Inr False, ledger)
       else (Inr True, ledger\<lparr>
         bl_locked := (bl_locked ledger)[bl_count ledger :=
           \<lparr>bond_act_id = act_id, bond_amount = amount, bond_t_start = t_start,
            bond_t_release = t_start + ANTS_BOND_DISPUTE_WINDOW_S, bond_slash_target = slash_target\<rparr>],
         bl_count := bl_count ledger + 1\<rparr>))"

definition bond_remove_at :: "ants_bond_ledger \<Rightarrow> nat \<Rightarrow> ants_bond_ledger" where
  "bond_remove_at ledger idx =
    (let last = bl_count ledger - 1 in
     ledger\<lparr>bl_locked := (if idx \<noteq> last then (bl_locked ledger)[idx := bl_locked ledger ! last] else bl_locked ledger),
       bl_count := bl_count ledger - 1\<rparr>)"

text \<open>Release and slash always return \<^verbatim>\<open>ANTS_OK\<close>; the values are \<^verbatim>\<open>out_found\<close> and \<^verbatim>\<open>out_amount\<close>.\<close>

definition ants_bond_release :: "ants_bond_ledger \<Rightarrow> bytes \<Rightarrow> bool \<times> ants_bond_ledger" where
  "ants_bond_release ledger act_id =
    (let idx = bond_index ledger act_id in
     (idx \<ge> 0, if idx \<ge> 0 then bond_remove_at ledger (nat idx) else ledger))"

definition ants_bond_slash :: "ants_bond_ledger \<Rightarrow> bytes \<Rightarrow> u64 \<times> bool \<times> ants_bond_ledger" where
  "ants_bond_slash ledger act_id =
    (let idx = bond_index ledger act_id in
     if idx \<ge> 0 then (bond_amount (bl_locked ledger ! nat idx), True, bond_remove_at ledger (nat idx))
     else (0, False, ledger))"

definition ants_bond_required_tier3 :: "u64 \<Rightarrow> u64 \<Rightarrow> u64 res" where
  "ants_bond_required_tier3 query_stakes n =
    (if n = 0 then Inl ANTS_ERROR_INVALID_ARG else Inr (query_stakes div n))"

definition ants_bond_required_fork_recovery :: "u64 \<Rightarrow> u64 res" where
  "ants_bond_required_fork_recovery total_t_at_stake = Inr total_t_at_stake"

definition ants_bond_required_value_scaled :: "u64 \<Rightarrow> u64 \<Rightarrow> u64 \<Rightarrow> u64 res" where
  "ants_bond_required_value_scaled val mult_num mult_den =
    (if mult_den = 0 then Inl ANTS_ERROR_INVALID_ARG else
     let q = val div mult_den; r = val mod mult_den in
     if mult_num \<noteq> 0 \<and> q > UINT64_MAX div mult_num then Inl ANTS_ERROR_OVERFLOW else
     let term1 = q * mult_num in
     if mult_num \<noteq> 0 \<and> r > UINT64_MAX div mult_num then Inl ANTS_ERROR_OVERFLOW else
     let term2 = (r * mult_num) div mult_den in
     if term1 > UINT64_MAX - term2 then Inl ANTS_ERROR_OVERFLOW
     else Inr (term1 + term2))"

record ants_bond_admission =
  adm_act_id :: bytes
  adm_peer :: bytes
  adm_amount :: u64
  adm_v_id :: bytes
  adm_l1_view_hash :: bytes

definition write_le64 :: "u64 \<Rightarrow> bytes" where
  "write_le64 v = [ucast v, ucast (drop_bit 8 v), ucast (drop_bit 16 v), ucast (drop_bit 24 v),
    ucast (drop_bit 32 v), ucast (drop_bit 40 v), ucast (drop_bit 48 v), ucast (drop_bit 56 v)]"

definition ants_bond_admission_encode :: "bytes \<Rightarrow> ants_bond_admission \<Rightarrow> bytes res" where
  "ants_bond_admission_encode buf adm =
    cbor_document buf
      [ants_cbor_enc_map 5,
       enc_kv_bytes 1 (adm_act_id adm),
       enc_kv_bytes 2 (adm_peer adm),
       enc_kv_uint 3 (adm_amount adm),
       enc_kv_bytes 4 (adm_v_id adm),
       enc_kv_bytes 5 (adm_l1_view_hash adm)]"

definition bond_admission_body :: "(ants_cbor_dec, ants_bond_admission) reader" where
  "bond_admission_body =
    then_read (norm_read ants_cbor_dec_map) (\<lambda>n_pairs.
    if n_pairs \<noteq> 5 then read_fail ANTS_ERROR_MALFORMED else
    then_read (decode_bytes_field 1 ANTS_BOND_ACT_ID_SIZE) (\<lambda>act_id.
    then_read (decode_bytes_field 2 ANTS_BOND_PEER_ID_SIZE) (\<lambda>peer.
    then_read (decode_uint_field 3) (\<lambda>amount.
    then_read (decode_bytes_field 4 ANTS_BOND_PEER_ID_SIZE) (\<lambda>v_id.
    then_read (decode_bytes_field 5 ANTS_BOND_HASH_SIZE) (\<lambda>view_hash.
    read_ret \<lparr>adm_act_id = act_id, adm_peer = peer, adm_amount = amount,
      adm_v_id = v_id, adm_l1_view_hash = view_hash\<rparr>))))))"

definition ants_bond_admission_decode :: "bytes \<Rightarrow> ants_bond_admission res" where
  "ants_bond_admission_decode buf =
    (if length buf = 0 then Inl ANTS_ERROR_INVALID_ARG else cbor_read_document bond_admission_body buf)"

definition ants_bond_tiebreak_key :: "(string \<Rightarrow> bytes \<Rightarrow> bytes) \<Rightarrow> bytes \<Rightarrow> bytes \<Rightarrow> bytes \<Rightarrow> u64 \<Rightarrow> bytes" where
  "ants_bond_tiebreak_key blake3_derive epoch_seed act_id v_id admission_round =
    blake3_derive ''ants-v1-bond-tiebreak'' (epoch_seed @ act_id @ v_id @ write_le64 admission_round)"

definition ants_bond_admission_wins :: "bytes \<Rightarrow> bytes \<Rightarrow> bool" where
  "ants_bond_admission_wins my_key other_key = (memcmp my_key other_key ANTS_BOND_HASH_SIZE < 0)"

section \<open>The ledger is a finite map\<close>

text \<open>A store of values under keys they carry: what a lookup returns after an insertion or a
  removal.\<close>

locale keyed_store =
  fixes invar :: "'s \<Rightarrow> bool"
    and is_key :: "'k \<Rightarrow> bool"
    and key_of :: "'v \<Rightarrow> 'k"
    and lookup :: "'s \<Rightarrow> 'k \<Rightarrow> 'v option"
    and room :: "'s \<Rightarrow> 'v \<Rightarrow> bool"
    and add :: "'v \<Rightarrow> 's \<Rightarrow> 's"
    and del :: "'k \<Rightarrow> 's \<Rightarrow> 's"
  assumes lookup_add: "invar s \<Longrightarrow> room s v \<Longrightarrow> is_key k \<Longrightarrow> lookup s (key_of v) = None \<Longrightarrow>
      lookup (add v s) k = (if k = key_of v then Some v else lookup s k)"
    and lookup_del: "invar s \<Longrightarrow> is_key k \<Longrightarrow> is_key k' \<Longrightarrow>
      lookup (del k' s) k = (if k = k' then None else lookup s k)"
    and invar_add: "invar s \<Longrightarrow> room s v \<Longrightarrow> lookup s (key_of v) = None \<Longrightarrow> invar (add v s)"
    and invar_del: "invar s \<Longrightarrow> is_key k \<Longrightarrow> invar (del k s)"
    and room_key: "room s v \<Longrightarrow> is_key (key_of v)"
begin

lemma del_add:
  assumes "invar s" "room s v" "lookup s (key_of v) = None" "is_key k"
  shows "lookup (del (key_of v) (add v s)) k = lookup s k"
  using assms invar_add [OF assms(1-3)] room_key [OF assms(2)] by (simp add: lookup_del lookup_add)

lemma del_idem: "invar s \<Longrightarrow> is_key k \<Longrightarrow> is_key k' \<Longrightarrow> lookup (del k' (del k' s)) k = lookup (del k' s) k"
  using invar_del by (simp add: lookup_del)

end

definition bonds :: "ants_bond_ledger \<Rightarrow> ants_bond list" where
  "bonds L = take (bl_count L) (bl_locked L)"

definition bond_ok :: "ants_bond \<Rightarrow> bool" where
  "bond_ok b \<longleftrightarrow> length (bond_act_id b) = ANTS_BOND_ACT_ID_SIZE \<and> length (bond_slash_target b) = ANTS_BOND_SIG_SIZE \<and>
    unat (bond_t_release b) = unat (bond_t_start b) + unat ANTS_BOND_DISPUTE_WINDOW_S"

definition locked_sum :: "ants_bond list \<Rightarrow> nat" where
  "locked_sum bs = (\<Sum>b \<leftarrow> bs. unat (bond_amount b))"

definition bond_inv :: "ants_bond_ledger \<Rightarrow> bool" where
  "bond_inv L \<longleftrightarrow> length (bl_locked L) = ANTS_BOND_MAX_LOCKED \<and> bl_count L \<le> ANTS_BOND_MAX_LOCKED \<and>
    distinct (map bond_act_id (bonds L)) \<and> (\<forall>b \<in> set (bonds L). bond_ok b) \<and> locked_sum (bonds L) < 2 ^ 64"

definition is_act :: "bytes \<Rightarrow> bool" where
  "is_act a \<longleftrightarrow> length a = ANTS_BOND_ACT_ID_SIZE"

lemma length_bonds: "bond_inv L \<Longrightarrow> length (bonds L) = bl_count L"
  by (simp add: bond_inv_def bonds_def)

lemma index_loop:
  assumes "\<forall>b \<in> set bs. bond_ok b" "is_act a"
  shows "bond_index_loop i bs a \<ge> 0 \<and> (\<exists>j < length bs. bond_index_loop i bs a = int (i + j) \<and> bond_act_id (bs ! j) = a) \<or>
    bond_index_loop i bs a = -1 \<and> a \<notin> bond_act_id ` set bs"
  using assms(1)
proof (induction bs arbitrary: i)
  case (Cons b bs)
  have "memcmp (bond_act_id b) a ANTS_BOND_ACT_ID_SIZE = 0 \<longleftrightarrow> bond_act_id b = a"
    using Cons.prems assms(2) by (simp add: memcmp_eq_0 bond_ok_def is_act_def)
  moreover from Cons.IH [of "Suc i"] Cons.prems
  have "bond_index_loop (Suc i) bs a \<ge> 0 \<and> (\<exists>j < length bs. bond_index_loop (Suc i) bs a = int (Suc i + j) \<and> bond_act_id (bs ! j) = a) \<or>
      bond_index_loop (Suc i) bs a = -1 \<and> a \<notin> bond_act_id ` set bs"
    by simp
  ultimately show ?case by (fastforce intro: exI [of _ "Suc _"])
qed simp

lemma bond_index_cases:
  assumes "bond_inv L" "is_act a"
  obtains (found) j where "bond_index L a = int j" "j < bl_count L" "bonds L ! j = bl_locked L ! j" "bond_act_id (bonds L ! j) = a"
    | (absent) "bond_index L a = -1" "a \<notin> bond_act_id ` set (bonds L)"
  using index_loop [of "bonds L" a 0] assms length_bonds [OF assms(1)]
  by (auto simp: bond_index_def bonds_def [symmetric] bond_inv_def) (auto simp: bonds_def)

lemma find_iff:
  assumes inv: "bond_inv L" and a: "is_act a"
  shows "ants_bond_find L a = Some b \<longleftrightarrow> b \<in> set (bonds L) \<and> bond_act_id b = a"
proof (cases rule: bond_index_cases [OF assms, case_names found absent])
  case (found j)
  then have mem: "bl_locked L ! j \<in> set (bonds L)" using length_bonds [OF inv] nth_mem [of j "bonds L"] by simp
  have "b = bl_locked L ! j" if "b \<in> set (bonds L)" "bond_act_id b = a"
    using that mem found inv by (metis bond_inv_def distinct_map inj_onD)
  with found mem show ?thesis by (auto simp: ants_bond_find_def)
next
  case absent
  then show ?thesis by (auto simp: ants_bond_find_def)
qed

lemma find_None:
  assumes "bond_inv L" "is_act a"
  shows "ants_bond_find L a = None \<longleftrightarrow> a \<notin> bond_act_id ` set (bonds L)"
    and "bond_index L a \<ge> 0 \<longleftrightarrow> ants_bond_find L a \<noteq> None"
  by (cases rule: bond_index_cases [OF assms]; use length_bonds [OF assms(1)] in \<open>fastforce simp: ants_bond_find_def\<close>)+

lemma locked_loop: "unat t + locked_sum bs < 2 ^ 64 \<Longrightarrow> unat (locked_total_loop t bs) = unat t + locked_sum bs"
proof (induction bs arbitrary: t)
  case (Cons b bs)
  then have "unat t + unat (bond_amount b) < 2 ^ 64" by (simp add: locked_sum_def)
  moreover from this have "\<not> bond_amount b > UINT64_MAX - t" by (simp add: add_overflow_iff)
  moreover have "unat (t + bond_amount b) = unat t + unat (bond_amount b)" using calculation(1) by (simp add: unat_add_fits)
  ultimately show ?case using Cons by (simp add: Let_def locked_sum_def)
qed (simp add: locked_sum_def)

lemma locked_total: "bond_inv L \<Longrightarrow> unat (ants_bond_locked_total L) = locked_sum (bonds L)"
  using locked_loop [of 0 "bonds L"] by (simp add: bond_inv_def ants_bond_locked_total_def bonds_def)

text \<open>Admitting appends, removing swaps the last bond into the hole.\<close>

lemma mset_swap_remove:
  assumes "i < n" "n \<le> length xs"
  shows "mset (take (n - 1) (if i \<noteq> n - 1 then xs[i := xs ! (n - 1)] else xs)) + {#xs ! i#} = mset (take n xs)"
proof -
  obtain m where n: "n = Suc m" using assms(1) by (cases n) auto
  have full: "take n xs = take m xs @ [xs ! m]" using assms(2) by (simp add: n take_Suc_conv_app_nth)
  show ?thesis
  proof (cases "i = m")
    case False
    then have i: "i < length (take m xs)" using assms by (simp add: n)
    have "take m (xs[i := xs ! m]) = (take m xs)[i := xs ! m]" by (simp add: take_update_swap)
    moreover have "xs ! i \<in># mset (take m xs)" using nth_mem [OF i] i by simp
    ultimately show ?thesis using False i unfolding full by (simp add: n mset_update)
  qed (use full in \<open>simp add: n\<close>)
qed

definition put_bond :: "ants_bond \<Rightarrow> ants_bond_ledger \<Rightarrow> ants_bond_ledger" where
  "put_bond b L = L\<lparr>bl_locked := (bl_locked L)[bl_count L := b], bl_count := bl_count L + 1\<rparr>"

definition bond_room :: "ants_bond_ledger \<Rightarrow> ants_bond \<Rightarrow> bool" where
  "bond_room L b \<longleftrightarrow> bl_count L < ANTS_BOND_MAX_LOCKED \<and> bond_ok b \<and> locked_sum (bonds L) + unat (bond_amount b) < 2 ^ 64"

lemma bonds_put: "bond_inv L \<Longrightarrow> bl_count L < ANTS_BOND_MAX_LOCKED \<Longrightarrow> bonds (put_bond b L) = bonds L @ [b]"
  by (simp add: bonds_def put_bond_def bond_inv_def take_list_update_snoc)

lemma bond_inv_put:
  assumes "bond_inv L" "bond_room L b" "ants_bond_find L (bond_act_id b) = None"
  shows "bond_inv (put_bond b L)"
proof -
  have a: "is_act (bond_act_id b)" using assms(2) by (simp add: bond_room_def bond_ok_def is_act_def)
  have "bonds (put_bond b L) = bonds L @ [b]" using assms by (simp add: bonds_put bond_room_def)
  with assms a find_None(1) [OF assms(1) a] show ?thesis
    by (auto simp: bond_inv_def bond_room_def locked_sum_def) (auto simp: put_bond_def)
qed

lemma mset_remove:
  assumes "bond_inv L" "is_act a" "ants_bond_find L a = Some b"
  shows "add_mset b (mset (bonds (snd (ants_bond_release L a)))) = mset (bonds L)"
proof (cases rule: bond_index_cases [OF assms(1,2), case_names found absent])
  case (found j)
  then have "b = bl_locked L ! j" using assms(3) by (simp add: ants_bond_find_def)
  with found mset_swap_remove [of j "bl_count L" "bl_locked L"] assms(1) show ?thesis
    by (auto simp: ants_bond_release_def bond_remove_at_def bonds_def bond_inv_def Let_def split: if_splits)
qed (use assms(3) in \<open>simp add: ants_bond_find_def\<close>)

lemma release_absent: "ants_bond_find L a = None \<Longrightarrow> snd (ants_bond_release L a) = L"
  by (simp add: ants_bond_release_def ants_bond_find_def Let_def split: if_splits)

lemma bond_inv_release:
  assumes inv: "bond_inv L" and a: "is_act a"
  shows "bond_inv (snd (ants_bond_release L a))"
proof (cases "ants_bond_find L a")
  case None
  with inv show ?thesis by (simp add: release_absent)
next
  case (Some b)
  let ?L = "snd (ants_bond_release L a)"
  note m = mset_remove [OF assms Some]
  have sub: "mset (bonds ?L) \<subseteq># mset (bonds L)" by (metis m mset_subset_eq_add_right union_mset_add_mset_left add.left_neutral add_mset_add_single subset_mset.add_diff_inverse mset_subset_eq_add_left)
  have "distinct (map bond_act_id (bonds ?L))"
    using inv m unfolding bond_inv_def
    by (metis (no_types, lifting) distinct.simps(2) list.simps(9) mset.simps(2) mset_eq_imp_distinct_iff mset_map)
  moreover have "locked_sum (bonds ?L) < 2 ^ 64"
    using inv arg_cong [OF m, of "\<lambda>M. sum_mset (image_mset (\<lambda>b. unat (bond_amount b)) M)"]
    by (simp add: bond_inv_def locked_sum_def sum_mset_sum_list [symmetric] mset_map [symmetric] del: mset_map)
  moreover have "\<forall>b \<in> set (bonds ?L). bond_ok b"
    using inv sub unfolding bond_inv_def by (metis mset_subset_eqD set_mset_mset)
  ultimately show ?thesis
    using inv by (auto simp: bond_inv_def ants_bond_release_def bond_remove_at_def Let_def)
qed

lemma find_release:
  assumes inv: "bond_inv L" and a: "is_act a" and a': "is_act a'"
  shows "ants_bond_find (snd (ants_bond_release L a')) a = (if a = a' then None else ants_bond_find L a)"
proof (cases "ants_bond_find L a'")
  case None
  then show ?thesis by (simp add: release_absent)
next
  case (Some b)
  let ?L = "snd (ants_bond_release L a')"
  note m = mset_remove [OF inv a' Some]
  have inv': "bond_inv ?L" by (rule bond_inv_release [OF inv a'])
  have b: "bond_act_id b = a'" using find_iff [OF inv a'] Some by blast
  have set: "set (bonds L) = insert b (set (bonds ?L))" using arg_cong [OF m, of set_mset] by simp
  have "distinct (map bond_act_id (b # bonds ?L))"
    using inv m unfolding bond_inv_def by (metis mset.simps(2) mset_eq_imp_distinct_iff mset_map list.simps(9))
  then have new: "a' \<notin> bond_act_id ` set (bonds ?L)" using b by simp
  show ?thesis
  proof (cases "a = a'")
    case True
    with new find_None(1) [OF inv' a] show ?thesis by simp
  next
    case False
    have "ants_bond_find ?L a = Some c \<longleftrightarrow> ants_bond_find L a = Some c" for c
      using False b set by (auto simp: find_iff [OF inv' a] find_iff [OF inv a])
    with False show ?thesis by (metis not_Some_eq)
  qed
qed

lemma find_put:
  assumes inv: "bond_inv L" and room: "bond_room L b" and a: "is_act a"
    and new: "ants_bond_find L (bond_act_id b) = None"
  shows "ants_bond_find (put_bond b L) a = (if a = bond_act_id b then Some b else ants_bond_find L a)"
proof -
  have inv': "bond_inv (put_bond b L)" by (rule bond_inv_put [OF inv room new])
  have set: "set (bonds (put_bond b L)) = insert b (set (bonds L))"
    using inv room by (auto simp: bonds_put bond_room_def)
  have act: "is_act (bond_act_id b)" using room by (simp add: bond_room_def bond_ok_def is_act_def)
  have "ants_bond_find (put_bond b L) a = Some c \<longleftrightarrow> (if a = bond_act_id b then c = b else ants_bond_find L a = Some c)" for c
    using new act a set by (auto simp: find_iff [OF inv' a] find_iff [OF inv a] find_None(1) [OF inv act] image_iff)
  then show ?thesis by (metis not_Some_eq)
qed

interpretation bond_map: keyed_store bond_inv is_act bond_act_id ants_bond_find bond_room put_bond
  "\<lambda>a L. snd (ants_bond_release L a)"
  by unfold_locales
    (simp_all add: find_put find_release bond_inv_put bond_inv_release bond_room_def bond_ok_def is_act_def)

section \<open>Admission\<close>

definition new_bond :: "bytes \<Rightarrow> u64 \<Rightarrow> u64 \<Rightarrow> bytes \<Rightarrow> ants_bond" where
  "new_bond act_id amount t_start slash_target =
    \<lparr>bond_act_id = act_id, bond_amount = amount, bond_t_start = t_start,
     bond_t_release = t_start + ANTS_BOND_DISPUTE_WINDOW_S, bond_slash_target = slash_target\<rparr>"

lemma admit_eq:
  assumes inv: "bond_inv L" and a: "is_act a"
  shows "ants_bond_admit L a amount t st total_a =
    (if ants_bond_find L a \<noteq> None \<or> unat t + 604800 \<ge> 2 ^ 64 then (Inl ANTS_ERROR_INVALID_ARG, L)
     else if bl_count L \<ge> ANTS_BOND_MAX_LOCKED then (Inl ANTS_ERROR_BUFFER_TOO_SMALL, L)
     else if unat total_a - locked_sum (bonds L) < unat amount then (Inr False, L)
     else (Inr True, put_bond (new_bond a amount t st) L))"
proof -
  have "t > UINT64_MAX - ANTS_BOND_DISPUTE_WINDOW_S \<longleftrightarrow> unat t + 604800 \<ge> 2 ^ 64"
    by (auto simp: add_overflow_iff ANTS_BOND_DISPUTE_WINDOW_S_def)
  moreover have "unat (if total_a > ants_bond_locked_total L then total_a - ants_bond_locked_total L else 0) =
      unat total_a - locked_sum (bonds L)"
    using locked_total [OF inv] by (auto simp: word_less_nat_alt unat_diff word_le_nat_alt)
  ultimately show ?thesis
    using find_None(2) [OF inv a]
    by (simp add: ants_bond_admit_def Let_def word_less_nat_alt put_bond_def new_bond_def)
qed

lemma admit_room:
  assumes inv: "bond_inv L" and a: "is_act a" and st: "length st = ANTS_BOND_SIG_SIZE"
    and ok: "fst (ants_bond_admit L a amount t st total_a) = Inr True"
  shows "bond_room L (new_bond a amount t st)" "ants_bond_find L a = None"
proof -
  from ok have c: "ants_bond_find L a = None" "unat t + 604800 < 2 ^ 64" "bl_count L < ANTS_BOND_MAX_LOCKED"
      "unat amount \<le> unat total_a - locked_sum (bonds L)"
    by (auto simp: admit_eq [OF inv a] split: if_splits)
  show "ants_bond_find L a = None" by (rule c(1))
  have "locked_sum (bonds L) + unat amount < 2 ^ 64"
    using c(4) inv unat_bound [of total_a] by (auto simp: bond_inv_def)
  moreover have "unat (t + ANTS_BOND_DISPUTE_WINDOW_S) = unat t + 604800"
    using c(2) unat_add_fits [of t ANTS_BOND_DISPUTE_WINDOW_S] by (simp add: ANTS_BOND_DISPUTE_WINDOW_S_def)
  ultimately show "bond_room L (new_bond a amount t st)"
    using a st c by (simp add: bond_room_def bond_ok_def new_bond_def is_act_def ANTS_BOND_DISPUTE_WINDOW_S_def)
qed

section \<open>Runs of the ledger\<close>

inductive bond_reach :: "ants_bond_ledger \<Rightarrow> bool" where
  reach_init: "length (bl_locked L) = ANTS_BOND_MAX_LOCKED \<Longrightarrow> bond_reach (ants_bond_ledger_init L)"
| reach_admit: "bond_reach L \<Longrightarrow> is_act a \<Longrightarrow> length st = ANTS_BOND_SIG_SIZE \<Longrightarrow>
    bond_reach (snd (ants_bond_admit L a amount t st total_a))"
| reach_release: "bond_reach L \<Longrightarrow> is_act a \<Longrightarrow> bond_reach (snd (ants_bond_release L a))"
| reach_slash: "bond_reach L \<Longrightarrow> is_act a \<Longrightarrow> bond_reach (snd (snd (ants_bond_slash L a)))"

lemma slash_release: "snd (snd (ants_bond_slash L a)) = snd (ants_bond_release L a)"
  by (simp add: ants_bond_slash_def ants_bond_release_def Let_def)

lemma admit_inv:
  assumes inv: "bond_inv L" and a: "is_act a" and st: "length st = ANTS_BOND_SIG_SIZE"
  shows "bond_inv (snd (ants_bond_admit L a amount t st total_a))"
proof (cases "fst (ants_bond_admit L a amount t st total_a) = Inr True")
  case True
  from True have "snd (ants_bond_admit L a amount t st total_a) = put_bond (new_bond a amount t st) L"
    by (auto simp: admit_eq [OF inv a] split: if_splits)
  moreover have "bond_act_id (new_bond a amount t st) = a" by (simp add: new_bond_def)
  ultimately show ?thesis using bond_inv_put [OF inv admit_room(1) [OF assms True]] admit_room(2) [OF assms True] by simp
next
  case False
  then have "snd (ants_bond_admit L a amount t st total_a) = L" by (auto simp: admit_eq [OF inv a] split: if_splits)
  with inv show ?thesis by simp
qed

lemma reach_inv: "bond_reach L \<Longrightarrow> bond_inv L"
proof (induction rule: bond_reach.induct)
  case (reach_init L)
  then show ?case by (simp add: bond_inv_def ants_bond_ledger_init_def bonds_def locked_sum_def)
qed (simp_all add: admit_inv bond_inv_release slash_release)

lemma released_sum:
  assumes "bond_inv L" "is_act a" "ants_bond_find L a = Some b"
  shows "locked_sum (bonds (snd (ants_bond_release L a))) + unat (bond_amount b) = locked_sum (bonds L)"
  using arg_cong [OF mset_remove [OF assms], of "\<lambda>M. sum_mset (image_mset (\<lambda>b. unat (bond_amount b)) M)"]
  by (simp add: locked_sum_def sum_mset_sum_list [symmetric] mset_map [symmetric] del: mset_map)

section \<open>The admission record\<close>

definition admission_item :: "ants_bond_admission \<Rightarrow> item" where
  "admission_item adm = MapI
    [(UInt 1, ByteStr (adm_act_id adm)), (UInt 2, ByteStr (adm_peer adm)), (UInt 3, UInt (adm_amount adm)),
     (UInt 4, ByteStr (adm_v_id adm)), (UInt 5, ByteStr (adm_l1_view_hash adm))]"

definition admission_ok :: "ants_bond_admission \<Rightarrow> bool" where
  "admission_ok adm \<longleftrightarrow> length (adm_act_id adm) = ANTS_BOND_ACT_ID_SIZE \<and> length (adm_peer adm) = ANTS_BOND_PEER_ID_SIZE \<and>
    length (adm_v_id adm) = ANTS_BOND_PEER_ID_SIZE \<and> length (adm_l1_view_hash adm) = ANTS_BOND_HASH_SIZE"

lemma admission_item_wf: "admission_ok r \<Longrightarrow> wf_item (admission_item r) \<and> nests_within ANTS_CBOR_MAX_DEPTH (admission_item r)"
  by (simp add: admission_item_def admission_ok_def bond_sizes head_bytes_def ANTS_CBOR_MAX_DEPTH_def)

lemma admission_encode:
  assumes "admission_ok r"
  shows "ants_bond_admission_encode buf r = fits buf (enc_item (admission_item r))"
proof -
  note wf = admission_item_wf [OF assms]
  show ?thesis
    unfolding ants_bond_admission_encode_def
    by (rule document_groups [OF conjunct1 [OF wf] conjunct2 [OF wf],
        where css = "[[CMap 5], [CUint 1, CBytes (adm_act_id r)], [CUint 2, CBytes (adm_peer r)],
          [CUint 3, CUint (adm_amount r)], [CUint 4, CBytes (adm_v_id r)], [CUint 5, CBytes (adm_l1_view_hash r)]]"])
      (simp_all add: enc_kv_calls exec_single admission_item_def)
qed

lemma admission_parser: "parser bond_admission_body admission_ok (\<lambda>r. calls_of (admission_item r))"
proof (rule parser_cong)
  show "parser bond_admission_body
    (\<lambda>r. (length (adm_act_id r) = ANTS_BOND_ACT_ID_SIZE \<and> (length (adm_peer r) = ANTS_BOND_PEER_ID_SIZE \<and>
      (True \<and> (length (adm_v_id r) = ANTS_BOND_PEER_ID_SIZE \<and> (length (adm_l1_view_hash r) = ANTS_BOND_HASH_SIZE \<and> True))))) \<and> True)
    (\<lambda>r. [CMap 5] @ [CUint 1, CBytes (adm_act_id r)] @ [CUint 2, CBytes (adm_peer r)] @ [CUint 3, CUint (adm_amount r)] @
      [CUint 4, CBytes (adm_v_id r)] @ [CUint 5, CBytes (adm_l1_view_hash r)] @ [])"
    unfolding bond_admission_body_def
    by (rule parser_expect [OF parser_norm [OF dec_map.prs.parser_axioms] TrueI],
        rule parser_field [OF parser_bytes_field], rule parser_field [OF parser_bytes_field],
        rule parser_field [OF parser_uint_field], rule parser_field [OF parser_bytes_field],
        rule parser_field [OF parser_bytes_field], rule parser_done)
      auto
qed (auto simp: admission_ok_def admission_item_def)

lemma admission_decode: "ants_bond_admission_decode bs = Inr r \<longleftrightarrow> admission_ok r \<and> bs = enc_item (admission_item r)"
proof -
  have "cbor_read_document bond_admission_body bs = Inr r \<longleftrightarrow> admission_ok r \<and> bs = enc_item (admission_item r)"
    by (rule read_document_iff [OF admission_parser]) (simp add: admission_item_wf)
  then show ?thesis using enc_item_nonempty [of "admission_item r"] by (auto simp: ants_bond_admission_decode_def simp del: enc_item_nonempty)
qed

interpretation admission: record_codec ants_bond_admission_encode ants_bond_admission_decode admission_item admission_ok
  by unfold_locales (simp_all add: admission_encode admission_decode admission_item_wf)

section \<open>The formulas\<close>

lemma scaled_split:
  assumes "0 < d"
  shows "v * n div d = v div d * n + v mod d * n div (d :: nat)"
proof -
  define q r where "q = v div d" and "r = v mod d"
  have "v * n = (q * d + r) * n" by (simp only: q_def r_def div_mult_mod_eq)
  also have "\<dots> = r * n + d * (q * n)" by (simp add: algebra_simps)
  finally show ?thesis using assms by (simp add: q_def [symmetric] r_def [symmetric])
qed

lemma scaled_cases:
  fixes v n d :: u64
  defines "q \<equiv> unat v div unat d" and "r \<equiv> unat v mod unat d"
  assumes d: "d \<noteq> 0"
  shows "ants_bond_required_value_scaled v n d =
    (if q * unat n \<ge> 2 ^ 64 \<or> r * unat n \<ge> 2 ^ 64 \<or> unat v * unat n div unat d \<ge> 2 ^ 64 then Inl ANTS_ERROR_OVERFLOW
     else Inr (of_nat (unat v * unat n div unat d)))"
proof -
  have d': "0 < unat d" using d by (simp add: unat_gt_0)
  have q: "unat (v div d) = q" and r: "unat (v mod d) = r" by (simp_all add: q_def r_def unat_div unat_mod)
  have split: "unat v * unat n div unat d = q * unat n + r * unat n div unat d"
    unfolding q_def r_def by (rule scaled_split [OF d'])
  have over1: "(n \<noteq> 0 \<and> v div d > UINT64_MAX div n) \<longleftrightarrow> q * unat n \<ge> 2 ^ 64"
    using mult_overflow_iff [of n "v div d"] q by (cases "n = 0") simp_all
  have over2: "(n \<noteq> 0 \<and> v mod d > UINT64_MAX div n) \<longleftrightarrow> r * unat n \<ge> 2 ^ 64"
    using mult_overflow_iff [of n "v mod d"] r by (cases "n = 0") simp_all
  show ?thesis
  proof (cases "q * unat n \<ge> 2 ^ 64 \<or> r * unat n \<ge> 2 ^ 64")
    case True
    then show ?thesis unfolding ants_bond_required_value_scaled_def Let_def over1 over2 using d by auto
  next
    case False
    then have t1: "unat (v div d * n) = q * unat n" and t2: "unat (v mod d * n div d) = r * unat n div unat d"
      using q r by (simp_all add: unat_mult_fits unat_div)
    have "v div d * n > UINT64_MAX - v mod d * n div d \<longleftrightarrow> unat v * unat n div unat d \<ge> 2 ^ 64"
      unfolding add_overflow_iff t1 t2 split by (simp add: add.commute)
    moreover have "v div d * n + v mod d * n div d = of_nat (unat v * unat n div unat d)"
      unfolding split t1 [symmetric] t2 [symmetric] by simp
    ultimately show ?thesis
      using False d unfolding ants_bond_required_value_scaled_def Let_def over1 over2 by simp
  qed
qed

section \<open>Properties\<close>

text \<open>C12. On every ledger reachable from initialisation by admissions, releases and slashes, no
  act is bonded twice, at most 32 bonds are locked, each is held for exactly the dispute window,
  and the locked total is the true sum of the amounts: it never saturates.\<close>

theorem bond_ledger_invariant:
  assumes "bond_reach L"
  shows "distinct (map bond_act_id (bonds L)) \<and> ants_bond_count L \<le> 32 \<and>
    (\<forall>b \<in> set (bonds L). unat (bond_t_release b) = unat (bond_t_start b) + 604800) \<and>
    unat (ants_bond_locked_total L) = (\<Sum>b \<leftarrow> bonds L. unat (bond_amount b))"
  using reach_inv [OF assms] locked_total [OF reach_inv [OF assms]]
  by (auto simp: bond_inv_def ants_bond_count_def bond_ok_def locked_sum_def ANTS_BOND_MAX_LOCKED_def ANTS_BOND_DISPUTE_WINDOW_S_def)

theorem bond_ledger_invariant_witness:
  "let L0 = ants_bond_ledger_init \<lparr>bl_count = 7, bl_locked = replicate 32 (new_bond [] 0 0 [])\<rparr>;
       L = snd (ants_bond_admit L0 (replicate 32 1) 5 100 (replicate 64 2) 9)
   in bond_reach L \<and> ants_bond_count L = 1 \<and> unat (ants_bond_locked_total L) = (\<Sum>b \<leftarrow> bonds L. unat (bond_amount b))"
proof -
  define L0 where "L0 = ants_bond_ledger_init \<lparr>bl_count = 7, bl_locked = replicate 32 (new_bond [] 0 0 [])\<rparr>"
  define L where "L = snd (ants_bond_admit L0 (replicate 32 1) 5 100 (replicate 64 2) 9)"
  have "bond_reach L0" unfolding L0_def by (rule reach_init) (simp add: bond_sizes)
  then have "bond_reach L" unfolding L_def by (rule reach_admit) (simp_all add: is_act_def bond_sizes)
  moreover from bond_ledger_invariant [OF this]
  have "unat (ants_bond_locked_total L) = (\<Sum>b \<leftarrow> bonds L. unat (bond_amount b))" by blast
  moreover have "ants_bond_count L = 1" unfolding L_def L0_def by code_simp
  ultimately show ?thesis by (simp add: Let_def L_def L0_def)
qed

text \<open>C11. Admission refines insertion into a map of acts to bonds. It is refused with an error for an
  act already bonded, a release time that would wrap or a full ledger; the verdict is positive
  exactly when the amount fits the headroom \<open>max 0 (A - locked)\<close>; and a bond that is admitted
  keeps the locked total within \<open>A\<close>, while everything else leaves the ledger alone.\<close>

theorem bond_admit_refines:
  assumes "bond_reach L" "is_act a" "length st = ANTS_BOND_SIG_SIZE"
  shows "case ants_bond_admit L a amount t st total_a of
      (Inl e, L') \<Rightarrow> L' = L \<and>
        (e = ANTS_ERROR_INVALID_ARG \<and> (ants_bond_find L a \<noteq> None \<or> unat t + 604800 \<ge> 2 ^ 64) \<or>
         e = ANTS_ERROR_BUFFER_TOO_SMALL \<and> ants_bond_count L = 32)
    | (Inr False, L') \<Rightarrow> L' = L \<and> unat (ants_bond_bondable_a L total_a) < unat amount
    | (Inr True, L') \<Rightarrow> ants_bond_find L a = None \<and> unat amount \<le> unat (ants_bond_bondable_a L total_a) \<and>
        unat (ants_bond_locked_total L') = unat (ants_bond_locked_total L) + unat amount \<and>
        (\<forall>k. is_act k \<longrightarrow> ants_bond_find L' k =
          (if k = a then Some (new_bond a amount t st) else ants_bond_find L k))"
proof -
  note inv = reach_inv [OF assms(1)]
  have head: "unat (ants_bond_bondable_a L total_a) = unat total_a - locked_sum (bonds L)"
    using locked_total [OF inv] by (auto simp: ants_bond_bondable_a_def Let_def word_less_nat_alt unat_diff word_le_nat_alt)
  show ?thesis
  proof (cases "fst (ants_bond_admit L a amount t st total_a) = Inr True")
    case True
    let ?b = "new_bond a amount t st"
    note room = admit_room [OF inv assms(2,3) True]
    from True have eq: "ants_bond_admit L a amount t st total_a = (Inr True, put_bond ?b L)"
      and fit: "unat amount \<le> unat total_a - locked_sum (bonds L)"
      by (auto simp: admit_eq [OF inv assms(2)] split: if_splits)
    have b: "bond_act_id ?b = a" by (simp add: new_bond_def)
    have "bond_inv (put_bond ?b L)" using bond_inv_put [OF inv room(1)] room(2) b by simp
    then have "unat (ants_bond_locked_total (put_bond ?b L)) = locked_sum (bonds L) + unat amount"
      using bonds_put [OF inv, of ?b] room(1) by (simp add: locked_total bond_room_def locked_sum_def new_bond_def)
    then show ?thesis
      using eq fit head room(2) bond_map.lookup_add [OF inv room(1)] b locked_total [OF inv] by simp
  next
    case False
    then show ?thesis using head inv
      by (auto simp: admit_eq [OF inv assms(2)] bond_inv_def ants_bond_count_def ANTS_BOND_MAX_LOCKED_def split: if_splits)
  qed
qed

theorem bond_admit_refines_witness:
  "let L = ants_bond_ledger_init \<lparr>bl_count = 0, bl_locked = replicate 32 (new_bond [] 0 0 [])\<rparr>;
       a = replicate 32 1; r = ants_bond_admit L a 5 100 (replicate 64 2) 9
   in fst r = Inr True \<and> unat (ants_bond_locked_total (snd r)) = 5 \<and>
      ants_bond_find (snd r) a = Some (new_bond a 5 100 (replicate 64 2))"
proof -
  define L where "L = ants_bond_ledger_init \<lparr>bl_count = 0, bl_locked = replicate 32 (new_bond [] 0 0 [])\<rparr>"
  define a :: bytes where "a = replicate 32 1"
  define st :: bytes where "st = replicate 64 2"
  have ok: "bond_reach L" "is_act a" "length st = ANTS_BOND_SIG_SIZE"
    by (simp_all add: L_def a_def st_def reach_init bond_sizes is_act_def)
  have t: "fst (ants_bond_admit L a 5 100 st 9) = Inr True" unfolding L_def a_def st_def by code_simp
  have z: "unat (ants_bond_locked_total L) = 0" unfolding L_def by code_simp
  obtain L' where r: "ants_bond_admit L a 5 100 st 9 = (Inr True, L')" using t by (metis prod.collapse)
  from bond_admit_refines [OF ok, where amount = 5 and t = 100 and total_a = 9] z ok(2) have "unat (ants_bond_locked_total L') = 5"
      "ants_bond_find L' a = Some (new_bond a 5 100 st)"
    unfolding r by simp_all
  with r show ?thesis by (simp add: Let_def L_def a_def st_def)
qed

text \<open>C13. Slashing the bond of an act hands back exactly the amount frozen at admission, removes that
  bond and no other, and lowers the locked total by that amount; releasing does the same but for
  the amount.\<close>

theorem bond_slash_takes_frozen_amount:
  assumes "bond_reach L" "is_act a" "ants_bond_find L a = Some b"
  shows "\<exists>L'. ants_bond_slash L a = (bond_amount b, True, L') \<and> ants_bond_release L a = (True, L') \<and>
    (\<forall>k. is_act k \<longrightarrow> ants_bond_find L' k = (if k = a then None else ants_bond_find L k)) \<and>
    unat (ants_bond_locked_total L') + unat (bond_amount b) = unat (ants_bond_locked_total L)"
proof -
  note inv = reach_inv [OF assms(1)]
  define L' where "L' = snd (ants_bond_release L a)"
  have idx: "0 \<le> bond_index L a" using find_None(2) [OF inv assms(2)] assms(3) by simp
  then have amount: "bond_amount (bl_locked L ! nat (bond_index L a)) = bond_amount b"
    using assms(3) by (simp add: ants_bond_find_def Let_def)
  have slash: "ants_bond_slash L a = (bond_amount b, True, L')" and release: "ants_bond_release L a = (True, L')"
    using idx amount by (simp_all add: ants_bond_slash_def ants_bond_release_def L'_def Let_def)
  have "unat (ants_bond_locked_total L') + unat (bond_amount b) = unat (ants_bond_locked_total L)"
    unfolding L'_def locked_total [OF inv] locked_total [OF bond_inv_release [OF inv assms(2)]]
    by (rule released_sum [OF inv assms(2,3)])
  moreover have "\<forall>k. is_act k \<longrightarrow> ants_bond_find L' k = (if k = a then None else ants_bond_find L k)"
    unfolding L'_def using bond_map.lookup_del [OF inv _ assms(2)] by blast
  ultimately show ?thesis using slash release by blast
qed

theorem bond_slash_takes_frozen_amount_witness:
  "let L = snd (ants_bond_admit (ants_bond_ledger_init \<lparr>bl_count = 0, bl_locked = replicate 32 (new_bond [] 0 0 [])\<rparr>)
         (replicate 32 1) 5 100 (replicate 64 2) 9)
   in \<exists>L'. ants_bond_slash L (replicate 32 1) = (5, True, L') \<and> unat (ants_bond_locked_total L') + 5 = unat (ants_bond_locked_total L)"
proof -
  define L where "L = snd (ants_bond_admit (ants_bond_ledger_init \<lparr>bl_count = 0, bl_locked = replicate 32 (new_bond [] 0 0 [])\<rparr>)
         (replicate 32 1) 5 100 (replicate 64 2) 9)"
  have r: "bond_reach L" unfolding L_def by (intro reach_admit reach_init) (simp_all add: is_act_def bond_sizes)
  have f: "ants_bond_find L (replicate 32 1) = Some (new_bond (replicate 32 1) 5 100 (replicate 64 2))"
    unfolding L_def by code_simp
  have a: "is_act (replicate 32 1)" by (simp add: is_act_def bond_sizes)
  have amount: "bond_amount (new_bond (replicate 32 1) 5 100 (replicate 64 2)) = 5" by (simp add: new_bond_def)
  from bond_slash_takes_frozen_amount [OF r a f, unfolded amount] show ?thesis
    unfolding L_def [symmetric] Let_def by auto
qed

text \<open>C14. The value-scaled bond is exactly \<open>floor (value * num / den)\<close> whenever one is returned, with no
  wrap-around in any intermediate product; an overflow is reported only when the result or the
  product of the remainder with the numerator exceeds 64 bits.\<close>

theorem bond_value_scaled_exact:
  "case ants_bond_required_value_scaled v n d of
     Inr x \<Rightarrow> d \<noteq> 0 \<and> unat x = unat v * unat n div unat d
   | Inl e \<Rightarrow> e = ANTS_ERROR_INVALID_ARG \<and> d = 0 \<or>
       e = ANTS_ERROR_OVERFLOW \<and> d \<noteq> 0 \<and>
         (unat v * unat n div unat d \<ge> 2 ^ 64 \<or> (unat v mod unat d) * unat n \<ge> 2 ^ 64)"
proof (cases "d = 0")
  case True
  then show ?thesis by (simp add: ants_bond_required_value_scaled_def)
next
  case False
  then have "0 < unat d" by (simp add: unat_gt_0)
  from scaled_split [OF this, of "unat v" "unat n"] have "unat v div unat d * unat n \<le> unat v * unat n div unat d"
    by linarith
  with False show ?thesis by (auto simp: scaled_cases [OF False] unat_of_nat)
qed

text \<open>The overflow report is not exact: here the result is \<open>2^39\<close>.\<close>

lemma bond_value_scaled_spurious_overflow:
  "ants_bond_required_value_scaled (2 ^ 40) (2 ^ 40) (2 ^ 41) = Inl ANTS_ERROR_OVERFLOW"
  by code_simp

text \<open>A verification committee of \<open>n\<close> members together bonds the stakes of the query rounded down to
  a multiple of \<open>n\<close>: never more, and short by less than \<open>n\<close>.\<close>

theorem bond_tier3_total:
  assumes "ants_bond_required_tier3 stakes n = Inr x"
  shows "unat n * unat x \<le> unat stakes \<and> unat stakes < unat n * unat x + unat n"
proof -
  from assms have "n \<noteq> 0" "unat x = unat stakes div unat n"
    by (auto simp: ants_bond_required_tier3_def unat_div split: if_splits)
  then show ?thesis
    using dividend_less_times_div [of "unat n" "unat stakes"] times_div_less_eq_dividend [of "unat n" "unat stakes"]
    by (simp add: unat_gt_0)
qed

theorem bond_tier3_total_witness: "unat (3 :: u64) * unat (33 :: u64) \<le> unat (100 :: u64)"
  using bond_tier3_total [of 100 3 33] by (simp add: ants_bond_required_tier3_def)

lemma bond_tier3_can_be_zero: "ants_bond_required_tier3 2 3 = Inr 0"
  by code_simp

text \<open>The signed admission record: decoding accepts exactly the canonical encodings of records,
  each record has one encoding, and every accepted buffer re-encodes to itself, so a signature
  over the bytes covers the record and nothing else.\<close>

theorem bond_admission_codec:
  "(ants_bond_admission_decode bs = Inr r \<longleftrightarrow> admission_ok r \<and> ants_bond_admission_encode bs r = Inr bs) \<and>
   (ants_bond_admission_decode bs = Inr r \<longrightarrow> ants_cbor_is_canonical bs = ANTS_OK)"
  by (rule admission.codec)

theorem bond_admission_codec_witness:
  "\<exists>bs. let r = \<lparr>adm_act_id = replicate 32 1, adm_peer = replicate 32 2, adm_amount = 300,
        adm_v_id = replicate 32 3, adm_l1_view_hash = replicate 32 4\<rparr>
    in ants_bond_admission_encode bs r = Inr bs \<and> ants_bond_admission_decode bs = Inr r \<and> ants_cbor_is_canonical bs = ANTS_OK"
proof -
  define r where "r = \<lparr>adm_act_id = replicate 32 1, adm_peer = replicate 32 2, adm_amount = 300,
      adm_v_id = replicate 32 3, adm_l1_view_hash = replicate 32 4\<rparr>"
  have ok: "admission_ok r" by (simp add: r_def admission_ok_def bond_sizes)
  then have "ants_bond_admission_encode (enc_item (admission_item r)) r = Inr (enc_item (admission_item r))"
    by (simp add: admission_encode fits_def)
  with bond_admission_codec [of "enc_item (admission_item r)" r] ok show ?thesis
    unfolding r_def [symmetric] Let_def by blast
qed

text \<open>The tie-break between two conflicting admissions has one winner: of two different keys
  exactly one beats the other, and no key beats itself.\<close>

theorem bond_tiebreak_decides:
  assumes "length k1 = 32" "length k2 = 32"
  shows "(ants_bond_admission_wins k1 k2 \<longleftrightarrow> \<not> ants_bond_admission_wins k2 k1) \<longleftrightarrow> k1 \<noteq> k2"
  using assms bytes_less_linear [of k1 k2] bytes_less_asym [of k1 k2]
  by (auto simp: ants_bond_admission_wins_def memcmp_less_iff bond_sizes)

theorem bond_tiebreak_decides_witness:
  "ants_bond_admission_wins (replicate 32 1) (replicate 32 2) \<and> \<not> ants_bond_admission_wins (replicate 32 2) (replicate 32 1)"
proof -
  have "ants_bond_admission_wins (replicate 32 1) (replicate 32 2)" by code_simp
  with bond_tiebreak_decides [of "replicate 32 1" "replicate 32 2"] show ?thesis by (simp add: replicate_eq_replicate)
qed

end
