(* ===== verification/Ledger.thy ===== *)
theory Ledger
  imports Cbor_Fields "HOL-Library.Multiset"
begin

text \<open>
  The local economic ledger (\<^verbatim>\<open>src/economy/ledger/src/ledger.c\<close>): overflow-checked totals
  and the signed balance, the ring buffer of recent receipts and the generosity it
  yields, the choke/unchoke round, and the canonical record. A \<^verbatim>\<open>uint32_t\<close> that counts
  slots or indexes the ring is a \<open>nat\<close>; the scratch buffer the caller lends to a round is
  the list of scores.
\<close>

section \<open>Definitions\<close>

definition ANTS_LEDGER_PEER_ID_SIZE :: nat where "ANTS_LEDGER_PEER_ID_SIZE = 32"
definition ANTS_LEDGER_OPTIMISTIC_UNCHOKE_DIVISOR :: nat where "ANTS_LEDGER_OPTIMISTIC_UNCHOKE_DIVISOR = 8"
definition ANTS_LEDGER_RECENT_SAMPLES :: nat where "ANTS_LEDGER_RECENT_SAMPLES = 32"
definition LEDGER_QUALITY_ONE :: u16 where "LEDGER_QUALITY_ONE = 10000"

lemmas ledger_sizes = ANTS_LEDGER_PEER_ID_SIZE_def ANTS_LEDGER_OPTIMISTIC_UNCHOKE_DIVISOR_def ANTS_LEDGER_RECENT_SAMPLES_def

record ants_ledger_recv_sample =
  smp_unix_s :: u64
  smp_amount_uncs :: u64

record ants_ledger_peer =
  lp_peer_id :: bytes
  lp_served_to :: u64
  lp_served_by :: u64
  lp_since_unix_s :: u64
  lp_last_update_unix_s :: u64
  lp_quality_q14k :: u16
  lp_choked :: bool
  lp_recent :: "ants_ledger_recv_sample list"
  lp_recent_head :: nat
  lp_recent_count :: nat

subsection \<open>Accounting\<close>

definition ants_ledger_peer_init :: "bytes \<Rightarrow> u64 \<Rightarrow> ants_ledger_peer" where
  "ants_ledger_peer_init peer_id now_unix_s =
    \<lparr>lp_peer_id = peer_id, lp_served_to = 0, lp_served_by = 0,
     lp_since_unix_s = now_unix_s, lp_last_update_unix_s = now_unix_s,
     lp_quality_q14k = LEDGER_QUALITY_ONE, lp_choked = True,
     lp_recent = replicate ANTS_LEDGER_RECENT_SAMPLES \<lparr>smp_unix_s = 0, smp_amount_uncs = 0\<rparr>,
     lp_recent_head = 0, lp_recent_count = 0\<rparr>"

text \<open>\<^verbatim>\<open>credit\<close> works through a pointer to one of the record's totals, given here by its
  selector and update.\<close>

definition credit ::
  "(ants_ledger_peer \<Rightarrow> u64) \<Rightarrow> ((u64 \<Rightarrow> u64) \<Rightarrow> ants_ledger_peer \<Rightarrow> ants_ledger_peer) \<Rightarrow> u64 \<Rightarrow> u64 \<Rightarrow>
   ants_ledger_peer step" where
  "credit tot tot_update amount now_unix_s rec =
    (if amount > UINT64_MAX - tot rec then (ANTS_ERROR_OVERFLOW, rec) else
     let rec1 = tot_update (\<lambda>t. t + amount) rec in
     (ANTS_OK, if now_unix_s \<noteq> 0 then rec1\<lparr>lp_last_update_unix_s := now_unix_s\<rparr> else rec1))"

definition ants_ledger_credit_served_to :: "u64 \<Rightarrow> u64 \<Rightarrow> ants_ledger_peer step" where
  "ants_ledger_credit_served_to amount_uncs now_unix_s = credit lp_served_to lp_served_to_update amount_uncs now_unix_s"

definition ants_ledger_credit_served_by :: "u64 \<Rightarrow> u64 \<Rightarrow> ants_ledger_peer step" where
  "ants_ledger_credit_served_by amount_uncs now_unix_s = credit lp_served_by lp_served_by_update amount_uncs now_unix_s"

text \<open>The \<^verbatim>\<open>int64_t\<close> balance as an integer.\<close>

definition ants_ledger_net_balance :: "ants_ledger_peer \<Rightarrow> int res" where
  "ants_ledger_net_balance rec =
    (if lp_served_to rec \<ge> lp_served_by rec then
       let d = lp_served_to rec - lp_served_by rec in
       if d > INT64_MAX then Inl ANTS_ERROR_OVERFLOW else Inr (uint d)
     else
       let d = lp_served_by rec - lp_served_to rec in
       if d > INT64_MAX + 1 then Inl ANTS_ERROR_OVERFLOW
       else if d = INT64_MAX + 1 then Inr (- (2 ^ 63))
       else Inr (- uint d))"

subsection \<open>Recent receipts\<close>

definition sat_add_u64 :: "u64 \<Rightarrow> u64 \<Rightarrow> u64" where
  "sat_add_u64 a b = (if a > UINT64_MAX - b then UINT64_MAX else a + b)"

definition sat_mul_u64 :: "u64 \<Rightarrow> u64 \<Rightarrow> u64" where
  "sat_mul_u64 a b = (if a \<noteq> 0 \<and> b > UINT64_MAX div a then UINT64_MAX else a * b)"

definition recent_push :: "u64 \<Rightarrow> u64 \<Rightarrow> ants_ledger_peer \<Rightarrow> ants_ledger_peer" where
  "recent_push now_unix_s amount_uncs rec =
    (let cap = ANTS_LEDGER_RECENT_SAMPLES in
     rec\<lparr>lp_recent := (lp_recent rec)[lp_recent_head rec := \<lparr>smp_unix_s = now_unix_s, smp_amount_uncs = amount_uncs\<rparr>],
       lp_recent_head := (lp_recent_head rec + 1) mod cap,
       lp_recent_count := (if lp_recent_count rec < cap then lp_recent_count rec + 1 else lp_recent_count rec)\<rparr>)"

definition ants_ledger_record_recv :: "u64 \<Rightarrow> u64 \<Rightarrow> ants_ledger_peer step" where
  "ants_ledger_record_recv amount_uncs now_unix_s rec =
    (case credit lp_served_by lp_served_by_update amount_uncs now_unix_s rec of (rc, rec1) \<Rightarrow>
     if rc \<noteq> ANTS_OK then (rc, rec1) else (ANTS_OK, recent_push now_unix_s amount_uncs rec1))"

definition in_window :: "u64 \<Rightarrow> u64 \<Rightarrow> ants_ledger_recv_sample \<Rightarrow> bool" where
  "in_window now_unix_s window_s s =
    (if smp_unix_s s = 0 \<or> now_unix_s \<le> window_s then True
     else smp_unix_s s \<ge> now_unix_s - window_s)"

definition ants_ledger_generosity :: "ants_ledger_peer \<Rightarrow> u64 \<Rightarrow> u64 \<Rightarrow> u64" where
  "ants_ledger_generosity rec now_unix_s window_s =
    fold (\<lambda>s sum. if in_window now_unix_s window_s s then sat_add_u64 sum (smp_amount_uncs s) else sum)
      (take (lp_recent_count rec) (lp_recent rec)) 0"

subsection \<open>The unchoke round\<close>

definition unchoke_score :: "ants_ledger_peer \<Rightarrow> u64 \<Rightarrow> u64 \<Rightarrow> u64" where
  "unchoke_score rec now_unix_s window_s =
    sat_mul_u64 (ants_ledger_generosity rec now_unix_s window_s) (ucast (lp_quality_q14k rec))"

definition ranks_above :: "ants_ledger_peer list \<Rightarrow> u64 list \<Rightarrow> nat \<Rightarrow> nat \<Rightarrow> bool" where
  "ranks_above records scores i j =
    (if scores ! i \<noteq> scores ! j then scores ! i > scores ! j
     else memcmp (lp_peer_id (records ! i)) (lp_peer_id (records ! j)) ANTS_LEDGER_PEER_ID_SIZE < 0)"

text \<open>The inner loop that counts the records above \<open>i\<close>, left as soon as \<open>earned\<close> are found.\<close>

fun above_loop :: "(nat \<Rightarrow> bool) \<Rightarrow> nat \<Rightarrow> nat \<Rightarrow> nat list \<Rightarrow> nat" where
  "above_loop outranks earned n [] = n"
| "above_loop outranks earned n (j # js) =
    (if outranks j then
       if n + 1 \<ge> earned then n + 1 else above_loop outranks earned (n + 1) js
     else above_loop outranks earned n js)"

definition earned_unchoked :: "ants_ledger_peer list \<Rightarrow> u64 list \<Rightarrow> nat \<Rightarrow> nat \<Rightarrow> bool" where
  "earned_unchoked records scores earned i =
    (earned \<noteq> 0 \<and>
     above_loop (\<lambda>j. j \<noteq> i \<and> ranks_above records scores j i) earned 0 [0..<length records] < earned)"

text \<open>The optimistic pass over the records in index order: \<open>seen\<close> is the position among the
  records still choked, \<open>taken\<close> the slots given so far.\<close>

fun optimistic_loop :: "nat \<Rightarrow> nat \<Rightarrow> nat \<Rightarrow> nat \<Rightarrow> nat \<Rightarrow> ants_ledger_peer list \<Rightarrow> ants_ledger_peer list" where
  "optimistic_loop start still_choked optimistic seen taken [] = []"
| "optimistic_loop start still_choked optimistic seen taken (r # rs) =
    (if \<not> taken < optimistic then r # rs
     else if \<not> lp_choked r then r # optimistic_loop start still_choked optimistic seen taken rs
     else if (seen + still_choked - start) mod still_choked < optimistic
     then r\<lparr>lp_choked := False\<rparr> # optimistic_loop start still_choked optimistic (seen + 1) (taken + 1) rs
     else r # optimistic_loop start still_choked optimistic (seen + 1) taken rs)"

definition ants_ledger_unchoke_round ::
  "u64 \<Rightarrow> u64 \<Rightarrow> nat \<Rightarrow> u64 \<Rightarrow> nat \<Rightarrow> ants_ledger_peer list step" where
  "ants_ledger_unchoke_round now_unix_s window_s slots rotation scratch_len records =
    (if length records = 0 then (ANTS_OK, records)
     else if scratch_len < length records then (ANTS_ERROR_INVALID_ARG, records)
     else if slots = 0 then (ANTS_OK, map (\<lambda>r. r\<lparr>lp_choked := True\<rparr>) records)
     else
       let q = slots div ANTS_LEDGER_OPTIMISTIC_UNCHOKE_DIVISOR;
           optimistic = (if q = 0 then 1 else q);
           earned = (if optimistic \<ge> slots then 0 else slots - optimistic);
           scores = map (\<lambda>r. unchoke_score r now_unix_s window_s) records;
           records1 = map (\<lambda>i. (records ! i)\<lparr>lp_choked := \<not> earned_unchoked records scores earned i\<rparr>) [0..<length records];
           still_choked = length (filter lp_choked records1) in
       if still_choked = 0 \<or> optimistic = 0 then (ANTS_OK, records1)
       else (ANTS_OK, optimistic_loop (unat rotation mod still_choked) still_choked optimistic 0 0 records1))"

subsection \<open>The record codec\<close>

definition enc_recent_sample :: "ants_ledger_recv_sample \<Rightarrow> ants_cbor_enc step" where
  "enc_recent_sample s =
    run_steps [ants_cbor_enc_array 2, ants_cbor_enc_uint (smp_unix_s s), ants_cbor_enc_uint (smp_amount_uncs s)]"

definition oldest_first :: "ants_ledger_peer \<Rightarrow> ants_ledger_recv_sample list" where
  "oldest_first rec =
    (let ring_cap = ANTS_LEDGER_RECENT_SAMPLES;
         oldest = (lp_recent_head rec + ring_cap - lp_recent_count rec) mod ring_cap in
     map (\<lambda>k. lp_recent rec ! ((oldest + k) mod ring_cap)) [0..<lp_recent_count rec])"

definition ants_ledger_record_encode :: "bytes \<Rightarrow> ants_ledger_peer \<Rightarrow> bytes res" where
  "ants_ledger_record_encode buf rec =
    cbor_document buf
      ([ants_cbor_enc_map 8,
        enc_kv_bytes 1 (lp_peer_id rec),
        enc_kv_uint 2 (lp_served_to rec),
        enc_kv_uint 3 (lp_served_by rec),
        enc_kv_uint 4 (lp_since_unix_s rec),
        enc_kv_uint 5 (lp_last_update_unix_s rec),
        enc_kv_uint 6 (ucast (lp_quality_q14k rec)),
        enc_kv_bool 7 (lp_choked rec),
        ants_cbor_enc_uint 8,
        ants_cbor_enc_array (lp_recent_count rec)]
       @ map enc_recent_sample (oldest_first rec))"

definition decode_recent_sample :: "(ants_cbor_dec, ants_ledger_recv_sample) reader" where
  "decode_recent_sample =
    then_read (norm_read ants_cbor_dec_array) (\<lambda>two.
    if two \<noteq> 2 then read_fail ANTS_ERROR_MALFORMED else
    then_read (norm_read ants_cbor_dec_uint) (\<lambda>ts.
    then_read (norm_read ants_cbor_dec_uint) (\<lambda>amt.
    read_ret \<lparr>smp_unix_s = ts, smp_amount_uncs = amt\<rparr>)))"

text \<open>The quality is read as a 64-bit value and range-checked before it is narrowed.\<close>

definition decode_quality :: "(ants_cbor_dec, u16) reader" where
  "decode_quality =
    then_read (decode_uint_field 6) (\<lambda>u.
    if u > 0xffff then read_fail ANTS_ERROR_MALFORMED else read_ret (ucast u))"

definition decode_recent :: "(ants_cbor_dec, ants_ledger_recv_sample list) reader" where
  "decode_recent =
    then_read (expect_key 8) (\<lambda>_.
    then_read (norm_read ants_cbor_dec_array) (\<lambda>n_recent.
    if n_recent > ANTS_LEDGER_RECENT_SAMPLES then read_fail ANTS_ERROR_MALFORMED
    else read_times n_recent decode_recent_sample))"

text \<open>What is read goes into the caller's record: the samples to the front of its ring, whose
  remaining entries keep what they held.\<close>

definition ledger_record_body :: "ants_ledger_peer \<Rightarrow> (ants_cbor_dec, ants_ledger_peer) reader" where
  "ledger_record_body rec =
    then_read (norm_read ants_cbor_dec_map) (\<lambda>n_pairs.
    if n_pairs \<noteq> 8 then read_fail ANTS_ERROR_MALFORMED else
    then_read (decode_bytes_field 1 ANTS_LEDGER_PEER_ID_SIZE) (\<lambda>peer_id.
    then_read (decode_uint_field 2) (\<lambda>served_to.
    then_read (decode_uint_field 3) (\<lambda>served_by.
    then_read (decode_uint_field 4) (\<lambda>since.
    then_read (decode_uint_field 5) (\<lambda>last_update.
    then_read decode_quality (\<lambda>quality.
    then_read (decode_bool_field 7) (\<lambda>choked.
    then_read decode_recent (\<lambda>samples.
    read_ret (rec\<lparr>lp_peer_id := peer_id, lp_served_to := served_to, lp_served_by := served_by,
      lp_since_unix_s := since, lp_last_update_unix_s := last_update, lp_quality_q14k := quality,
      lp_choked := choked, lp_recent := samples @ drop (length samples) (lp_recent rec),
      lp_recent_count := length samples,
      lp_recent_head := (if length samples = ANTS_LEDGER_RECENT_SAMPLES then 0 else length samples)\<rparr>))))))))))"

definition ants_ledger_record_decode :: "ants_ledger_peer \<Rightarrow> bytes \<Rightarrow> ants_ledger_peer res" where
  "ants_ledger_record_decode rec buf = cbor_read_document (ledger_record_body rec) buf"

section \<open>Accounting\<close>

lemma net_balance_eq:
  "ants_ledger_net_balance rec =
    (let n = uint (lp_served_to rec) - uint (lp_served_by rec) in
     if - (2 ^ 63) \<le> n \<and> n < 2 ^ 63 then Inr n else Inl ANTS_ERROR_OVERFLOW)"
proof -
  have max: "uint INT64_MAX = 2 ^ 63 - 1" "uint (INT64_MAX + 1) = 2 ^ 63" by (simp_all add: INT64_MAX_def)
  show ?thesis
  proof (cases "lp_served_to rec \<ge> lp_served_by rec")
    case True
    then have "uint (lp_served_to rec - lp_served_by rec) = uint (lp_served_to rec) - uint (lp_served_by rec)"
      by (simp only: uint_minus_simple_alt)
    with True show ?thesis by (auto simp: ants_ledger_net_balance_def Let_def word_less_def word_le_def max)
  next
    case False
    then have le: "lp_served_to rec \<le> lp_served_by rec" and lt: "uint (lp_served_to rec) < uint (lp_served_by rec)"
      by (auto simp: word_le_def)
    from le have d: "uint (lp_served_by rec - lp_served_to rec) = uint (lp_served_by rec) - uint (lp_served_to rec)"
      by (simp only: uint_minus_simple_alt)
    have eq: "lp_served_by rec - lp_served_to rec = INT64_MAX + 1 \<longleftrightarrow> uint (lp_served_by rec) - uint (lp_served_to rec) = 2 ^ 63"
      unfolding word_uint_eq_iff d max ..
    show ?thesis
      using False lt unfolding ants_ledger_net_balance_def Let_def word_less_def d max eq by auto
  qed
qed

section \<open>The ring of recent receipts\<close>

definition ring_ok :: "ants_ledger_peer \<Rightarrow> bool" where
  "ring_ok r \<longleftrightarrow> length (lp_recent r) = ANTS_LEDGER_RECENT_SAMPLES \<and>
    lp_recent_count r \<le> ANTS_LEDGER_RECENT_SAMPLES \<and> lp_recent_head r < ANTS_LEDGER_RECENT_SAMPLES \<and>
    (lp_recent_count r < ANTS_LEDGER_RECENT_SAMPLES \<longrightarrow> lp_recent_head r = lp_recent_count r)"

lemma oldest_first_eq:
  assumes "ring_ok r"
  shows "oldest_first r = (if lp_recent_count r < ANTS_LEDGER_RECENT_SAMPLES then take (lp_recent_count r) (lp_recent r)
    else rotate (lp_recent_head r) (lp_recent r))"
proof (cases "lp_recent_count r < ANTS_LEDGER_RECENT_SAMPLES")
  case True
  then have "(lp_recent_head r + ANTS_LEDGER_RECENT_SAMPLES - lp_recent_count r) mod ANTS_LEDGER_RECENT_SAMPLES = 0"
    using assms by (simp add: ring_ok_def)
  then show ?thesis using True assms
    by (intro nth_equalityI) (auto simp: oldest_first_def ring_ok_def)
next
  case False
  then have c: "lp_recent_count r = ANTS_LEDGER_RECENT_SAMPLES" "length (lp_recent r) = ANTS_LEDGER_RECENT_SAMPLES"
      "lp_recent_head r < ANTS_LEDGER_RECENT_SAMPLES"
    using assms by (auto simp: ring_ok_def)
  then show ?thesis
    by (intro nth_equalityI) (auto simp: oldest_first_def nth_rotate add.commute)
qed

lemma length_oldest_first [simp]: "length (oldest_first r) = lp_recent_count r"
  by (simp add: oldest_first_def)

lemma mset_oldest_first:
  assumes "ring_ok r"
  shows "mset (oldest_first r) = mset (take (lp_recent_count r) (lp_recent r))"
proof -
  have "mset (rotate m xs) = mset xs" for m and xs :: "ants_ledger_recv_sample list"
    unfolding rotate_drop_take mset_append by (metis append_take_drop_id mset_append union_commute)
  then show ?thesis using assms by (auto simp: oldest_first_eq ring_ok_def)
qed

text \<open>Pushing appends, and evicts the oldest sample once the ring is full.\<close>

definition keep_last :: "nat \<Rightarrow> 'a list \<Rightarrow> 'a list" where
  "keep_last n xs = drop (length xs - n) xs"

lemma recent_push_ring:
  assumes "ring_ok r"
  shows "ring_ok (recent_push t a r)"
    and "oldest_first (recent_push t a r) =
      keep_last ANTS_LEDGER_RECENT_SAMPLES (oldest_first r @ [\<lparr>smp_unix_s = t, smp_amount_uncs = a\<rparr>])"
proof -
  let ?s = "\<lparr>smp_unix_s = t, smp_amount_uncs = a\<rparr>"
  show ok: "ring_ok (recent_push t a r)"
    using assms by (auto simp: ring_ok_def recent_push_def Let_def ledger_sizes)
  define n where "n = ANTS_LEDGER_RECENT_SAMPLES"
  have n: "0 < n" by (simp add: n_def ledger_sizes)
  show "oldest_first (recent_push t a r) = keep_last ANTS_LEDGER_RECENT_SAMPLES (oldest_first r @ [?s])"
  proof (cases "lp_recent_count r < n")
    case True
    then have h: "lp_recent_head r = lp_recent_count r" "length (lp_recent r) = n" using assms by (auto simp: ring_ok_def n_def)
    have old: "oldest_first r = take (lp_recent_count r) (lp_recent r)" using True assms by (simp add: oldest_first_eq n_def)
    show ?thesis
    proof (cases "lp_recent_count r + 1 < n")
      case True
      then show ?thesis
        using h old unfolding oldest_first_eq [OF ok]
        by (simp add: recent_push_def Let_def n_def [symmetric] keep_last_def take_list_update_snoc)
    next
      case False
      then have "lp_recent_count r + 1 = n" using \<open>lp_recent_count r < n\<close> by simp
      then show ?thesis
        using h old unfolding oldest_first_eq [OF ok]
        by (simp add: recent_push_def Let_def n_def [symmetric] keep_last_def take_list_update_snoc [symmetric])
    qed
  next
    case False
    then have c: "lp_recent_count r = n" and h: "lp_recent_head r < n" "length (lp_recent r) = n"
      using assms by (auto simp: ring_ok_def n_def)
    have old: "oldest_first r = drop (lp_recent_head r) (lp_recent r) @ take (lp_recent_head r) (lp_recent r)"
      using c h by (simp add: oldest_first_eq [OF assms] rotate_drop_take n_def)
    have new: "rotate ((lp_recent_head r + 1) mod n) xs = drop (Suc (lp_recent_head r)) xs @ take (Suc (lp_recent_head r)) xs"
      if "length xs = n" for xs :: "ants_ledger_recv_sample list"
      using h that by (cases "Suc (lp_recent_head r) = n") (simp_all add: rotate_drop_take)
    have "oldest_first (recent_push t a r) =
        drop (Suc (lp_recent_head r)) (lp_recent r) @ take (lp_recent_head r) (lp_recent r) @ [?s]"
      unfolding oldest_first_eq [OF ok]
      using c h new [of "(lp_recent r)[lp_recent_head r := ?s]"]
      by (simp add: recent_push_def Let_def n_def [symmetric] take_list_update_snoc)
    then show ?thesis
      using c h old by (simp add: keep_last_def n_def [symmetric] drop_eq_Cons)
  qed
qed

section \<open>Generosity\<close>

lemma sat_add_min: "unat (sat_add_u64 a b) = min (2 ^ 64 - 1) (unat a + unat b)"
proof (cases "a > UINT64_MAX - b")
  case True
  then show ?thesis by (simp add: sat_add_u64_def unat_UINT64_MAX add_overflow_iff)
next
  case False
  then have "unat a + unat b < 2 ^ 64" by (simp add: add_overflow_iff add.commute)
  with False show ?thesis by (simp add: sat_add_u64_def unat_add_fits min_def)
qed

lemma sat_mul_min: "unat (sat_mul_u64 a b) = min (2 ^ 64 - 1) (unat a * unat b)"
proof (cases "a \<noteq> 0 \<and> b > UINT64_MAX div a")
  case True
  then have "unat a * unat b \<ge> 2 ^ 64" using mult_overflow_iff [of a b] by (simp add: mult.commute)
  with True show ?thesis by (simp add: sat_mul_u64_def unat_UINT64_MAX)
next
  case False
  then have "unat a * unat b < 2 ^ 64" using mult_overflow_iff [of a b] by (cases "a = 0") (simp_all add: mult.commute)
  with False show ?thesis by (auto simp: sat_mul_u64_def unat_mult_fits min_def)
qed

definition window_sum :: "u64 \<Rightarrow> u64 \<Rightarrow> ants_ledger_recv_sample list \<Rightarrow> nat" where
  "window_sum now w ss = (\<Sum>s \<leftarrow> filter (in_window now w) ss. unat (smp_amount_uncs s))"

lemma generosity_loop:
  "unat (fold (\<lambda>s sum. if in_window now w s then sat_add_u64 sum (smp_amount_uncs s) else sum) ss x) =
    min (2 ^ 64 - 1) (unat x + window_sum now w ss)"
proof (induction ss arbitrary: x)
  case Nil
  then show ?case using unat_bound [of x] by (simp add: window_sum_def min_def)
next
  case (Cons s ss)
  show ?case unfolding fold_simps Cons.IH by (simp add: window_sum_def sat_add_min min_def)
qed

lemma window_sum_mset: "mset ss = mset ss' \<Longrightarrow> window_sum now w ss = window_sum now w ss'"
  unfolding window_sum_def sum_mset_sum_list [symmetric] mset_map mset_filter by simp

lemma generosity_eq:
  "ring_ok r \<Longrightarrow> unat (ants_ledger_generosity r now w) = min (2 ^ 64 - 1) (window_sum now w (oldest_first r))"
  unfolding ants_ledger_generosity_def generosity_loop using window_sum_mset [OF mset_oldest_first, of r now w] by simp

lemma in_window_eq: "in_window now w s \<longleftrightarrow> smp_unix_s s = 0 \<or> unat now \<le> unat (smp_unix_s s) + unat w"
proof -
  have "smp_unix_s s \<ge> now - w \<longleftrightarrow> unat now \<le> unat (smp_unix_s s) + unat w" if "\<not> now \<le> w"
    using that by (auto simp: word_le_nat_alt unat_diff)
  then show ?thesis by (auto simp: in_window_def word_le_nat_alt)
qed

section \<open>Ranking\<close>

text \<open>In a strict total order on \<open>n\<close> things, exactly \<open>min e n\<close> of them have fewer than \<open>e\<close> above.\<close>

lemma rank_count:
  fixes R :: "nat \<Rightarrow> nat \<Rightarrow> bool"
  assumes irrefl: "\<And>i. i < n \<Longrightarrow> \<not> R i i"
    and trans: "\<And>i j k. i < n \<Longrightarrow> j < n \<Longrightarrow> k < n \<Longrightarrow> R i j \<Longrightarrow> R j k \<Longrightarrow> R i k"
    and total: "\<And>i j. i < n \<Longrightarrow> j < n \<Longrightarrow> i \<noteq> j \<Longrightarrow> R i j \<or> R j i"
  shows "card {i. i < n \<and> card {j. j < n \<and> R j i} < e} = min e n"
proof -
  define rank where "rank i = card {j. j < n \<and> R j i}" for i
  have mono: "rank i < rank j" if "i < n" "j < n" "R i j" for i j
    unfolding rank_def
  proof (rule psubset_card_mono)
    have "{k. k < n \<and> R k i} \<subseteq> {k. k < n \<and> R k j}" using that trans [of _ i j] by blast
    moreover have "i \<in> {k. k < n \<and> R k j}" "i \<notin> {k. k < n \<and> R k i}" using that irrefl [of i] by simp_all
    ultimately show "{k. k < n \<and> R k i} \<subset> {k. k < n \<and> R k j}" by blast
  qed simp
  have inj: "inj_on rank {..<n}"
  proof (rule inj_onI, rule ccontr)
    fix i j
    assume "i \<in> {..<n}" "j \<in> {..<n}" "rank i = rank j" "i \<noteq> j"
    with total [of i j] mono [of i j] mono [of j i] show False by auto
  qed
  have below: "rank i < n" if "i < n" for i
  proof -
    have "{j. j < n \<and> R j i} \<subseteq> {..<n} - {i}" using irrefl [OF that] by blast
    from card_mono [OF _ this] that show ?thesis by (simp add: rank_def)
  qed
  have img: "rank ` {..<n} = {..<n}"
  proof (rule card_subset_eq)
    show "rank ` {..<n} \<subseteq> {..<n}" using below by blast
    show "card (rank ` {..<n}) = card {..<n}" using inj by (rule card_image)
  qed simp
  have "rank ` {i. i < n \<and> rank i < e} = rank ` {..<n} \<inter> {..<e}" by blast
  also have "\<dots> = {..<min e n}" unfolding img by auto
  finally have "card (rank ` {i. i < n \<and> rank i < e}) = min e n" by simp
  moreover have "inj_on rank {i. i < n \<and> rank i < e}" using inj by (rule inj_on_subset) blast
  ultimately show ?thesis unfolding rank_def [symmetric] by (simp add: card_image)
qed

lemma above_loop_less: "n < e \<Longrightarrow> above_loop P e n js < e \<longleftrightarrow> n + length (filter P js) < e"
  by (induction js arbitrary: n) auto

lemma earned_iff:
  "earned_unchoked records scores earned i \<longleftrightarrow>
    card {j. j < length records \<and> (j \<noteq> i \<and> ranks_above records scores j i)} < earned"
proof -
  have "length (filter P [0..<n]) = card {j. j < n \<and> P j}" for P n
    using distinct_card [of "filter P [0..<n]"] by (simp add: conj_commute)
  then show ?thesis by (cases "earned = 0") (simp_all add: earned_unchoked_def above_loop_less)
qed

text \<open>Peers with different 32-byte identifiers are strictly ranked.\<close>

definition peers_distinct :: "ants_ledger_peer list \<Rightarrow> bool" where
  "peers_distinct records \<longleftrightarrow> distinct (map lp_peer_id records) \<and>
    (\<forall>r \<in> set records. length (lp_peer_id r) = ANTS_LEDGER_PEER_ID_SIZE)"

lemma ranks_above_bytes:
  assumes "peers_distinct records" "i < length records" "j < length records"
  shows "ranks_above records scores i j \<longleftrightarrow> scores ! i > scores ! j \<or>
    scores ! i = scores ! j \<and> bytes_less (lp_peer_id (records ! i)) (lp_peer_id (records ! j))"
proof -
  have "length (lp_peer_id (records ! i)) = ANTS_LEDGER_PEER_ID_SIZE" "length (lp_peer_id (records ! j)) = ANTS_LEDGER_PEER_ID_SIZE"
    using assms by (simp_all add: peers_distinct_def)
  then show ?thesis by (auto simp: ranks_above_def memcmp_less_iff)
qed

lemma peer_ids_eq:
  assumes "peers_distinct records" "i < length records" "j < length records"
  shows "lp_peer_id (records ! i) = lp_peer_id (records ! j) \<longleftrightarrow> i = j"
  using assms nth_eq_iff_index_eq [of "map lp_peer_id records" i j] by (simp add: peers_distinct_def)

lemma lex_greater_trans:
  fixes a b c :: "'a :: linorder"
  assumes "a > b \<or> a = b \<and> P" "b > c \<or> b = c \<and> Q" "P \<Longrightarrow> Q \<Longrightarrow> S"
  shows "a > c \<or> a = c \<and> S"
  using assms by auto

lemma ranks_above_trans:
  assumes d: "peers_distinct records" and n: "i < length records" "j < length records" "k < length records"
    and r: "ranks_above records scores i j" "ranks_above records scores j k"
  shows "ranks_above records scores i k"
  using r bytes_less_trans [of "lp_peer_id (records ! i)" "lp_peer_id (records ! j)" "lp_peer_id (records ! k)"]
  unfolding ranks_above_bytes [OF d n(1,2)] ranks_above_bytes [OF d n(2,3)] ranks_above_bytes [OF d n(1,3)]
  by (rule lex_greater_trans)

lemma ranks_above_irrefl: "\<not> ranks_above records scores i i"
  by (simp add: ranks_above_def)

lemma earned_count:
  assumes d: "peers_distinct records"
  shows "card {i. i < length records \<and> earned_unchoked records scores earned i} = min earned (length records)"
  unfolding earned_iff
proof (rule rank_count)
  fix i j
  assume "i < length records" "j < length records" "i \<noteq> j"
  then show "(i \<noteq> j \<and> ranks_above records scores i j) \<or> (j \<noteq> i \<and> ranks_above records scores j i)"
    using bytes_less_linear [of "lp_peer_id (records ! i)" "lp_peer_id (records ! j)"] peer_ids_eq [OF d, of i j]
    by (auto simp: ranks_above_bytes [OF d])
next
  fix i j k
  assume "i < length records" "j < length records" "k < length records"
    and "i \<noteq> j \<and> ranks_above records scores i j" "j \<noteq> k \<and> ranks_above records scores j k"
  then show "i \<noteq> k \<and> ranks_above records scores i k"
    using ranks_above_trans [OF d, of i j k scores] ranks_above_irrefl [of records scores i] by metis
qed simp

text \<open>The earned peers are the best ranked: whoever ranks above one of them is one of them.\<close>

lemma earned_upward:
  assumes d: "peers_distinct records" and ij: "i < length records" "j < length records"
    and e: "earned_unchoked records scores earned i" and r: "ranks_above records scores j i"
  shows "earned_unchoked records scores earned j"
proof -
  have "{k. k < length records \<and> (k \<noteq> j \<and> ranks_above records scores k j)} \<subseteq>
      {k. k < length records \<and> (k \<noteq> i \<and> ranks_above records scores k i)}"
    using r ij ranks_above_trans [OF d _ ij(2,1), of _ scores] ranks_above_irrefl [of records scores] by blast
  then have "card {k. k < length records \<and> (k \<noteq> j \<and> ranks_above records scores k j)} \<le>
      card {k. k < length records \<and> (k \<noteq> i \<and> ranks_above records scores k i)}"
    by (rule card_mono [rotated]) simp
  then show ?thesis using e unfolding earned_iff by simp
qed

section \<open>The optimistic slots\<close>

text \<open>Without the counter of slots given: unchoke the still-choked records whose position
  satisfies \<open>sel\<close>.\<close>

fun unchoke_where :: "(nat \<Rightarrow> bool) \<Rightarrow> nat \<Rightarrow> ants_ledger_peer list \<Rightarrow> ants_ledger_peer list" where
  "unchoke_where sel seen [] = []"
| "unchoke_where sel seen (r # rs) =
    (if \<not> lp_choked r then r # unchoke_where sel seen rs
     else (if sel seen then r\<lparr>lp_choked := False\<rparr> else r) # unchoke_where sel (Suc seen) rs)"

lemma unchoke_where_none:
  "(\<And>p. seen \<le> p \<Longrightarrow> p < seen + length (filter lp_choked rs) \<Longrightarrow> \<not> sel p) \<Longrightarrow> unchoke_where sel seen rs = rs"
  by (induction rs arbitrary: seen) auto

lemma card_Suc_sel: "card {p. p < Suc n \<and> sel p} = (if sel n then 1 else 0) + card {p. p < n \<and> sel p}"
proof -
  have "{p. p < Suc n \<and> sel p} = (if sel n then insert n {p. p < n \<and> sel p} else {p. p < n \<and> sel p})"
    by (auto simp: less_Suc_eq)
  then show ?thesis by simp
qed

lemma optimistic_loop_eq:
  assumes "card {p. p < seen + length (filter lp_choked rs) \<and> (p + s - start) mod s < opt} \<le> opt"
    and "taken = card {p. p < seen \<and> (p + s - start) mod s < opt}"
  shows "optimistic_loop start s opt seen taken rs = unchoke_where (\<lambda>p. (p + s - start) mod s < opt) seen rs"
  using assms
proof (induction rs arbitrary: seen taken)
  case (Cons r rs)
  let ?sel = "\<lambda>p. (p + s - start) mod s < opt"
  show ?case
  proof (cases "taken < opt")
    case False
    have "\<not> ?sel p" if p: "seen \<le> p" "p < seen + length (filter lp_choked (r # rs))" for p
    proof
      assume "?sel p"
      with p have "insert p {q. q < seen \<and> ?sel q} \<subseteq> {q. q < seen + length (filter lp_choked (r # rs)) \<and> ?sel q}" by auto
      from card_mono [OF _ this] p(1) have "Suc taken \<le> card {q. q < seen + length (filter lp_choked (r # rs)) \<and> ?sel q}"
        by (simp add: Cons.prems(2))
      with Cons.prems(1) False show False by linarith
    qed
    then have "unchoke_where ?sel seen (r # rs) = r # rs" by (rule unchoke_where_none)
    with False show ?thesis by simp
  next
    case True
    then show ?thesis
      using Cons.IH [of seen taken] Cons.IH [of "Suc seen" "card {p. p < Suc seen \<and> ?sel p}"] Cons.prems
      by (auto simp: card_Suc_sel)
  qed
qed simp

lemma rotated:
  assumes "start < s" "p < (s :: nat)"
  shows "(p + s - start) mod s = (if start \<le> p then p - start else p + s - start)"
proof (cases "start \<le> p")
  case True
  then have "p + s - start = s + (p - start)" using assms by simp
  also have "\<dots> mod s = (p - start) mod s" by simp
  also have "\<dots> = p - start" using assms(2) by simp
  finally show ?thesis using True by simp
qed (use assms in simp)

lemma card_rotated:
  assumes "start < s"
  shows "card {p. p < s \<and> (p + s - start) mod s < opt} = min opt s"
proof -
  let ?f = "\<lambda>p. (p + s - start) mod s"
  have inj: "inj_on ?f {..<s}" using assms by (intro inj_onI) (auto simp: rotated split: if_splits)
  have img: "?f ` {..<s} = {..<s}"
  proof (rule card_subset_eq)
    show "?f ` {..<s} \<subseteq> {..<s}" using assms by auto
    show "card (?f ` {..<s}) = card {..<s}" using inj by (rule card_image)
  qed simp
  have "?f ` {p. p < s \<and> ?f p < opt} = ?f ` {..<s} \<inter> {..<opt}" by blast
  also have "\<dots> = {..<min opt s}" unfolding img by auto
  finally have "card (?f ` {p. p < s \<and> ?f p < opt}) = min opt s" by simp
  moreover have "inj_on ?f {p. p < s \<and> ?f p < opt}" using inj by (rule inj_on_subset) blast
  ultimately show ?thesis by (simp add: card_image)
qed

lemma optimistic_round:
  assumes "start < length (filter lp_choked rs)"
  defines "s \<equiv> length (filter lp_choked rs)"
  shows "optimistic_loop start s opt 0 0 rs = unchoke_where (\<lambda>p. (p + s - start) mod s < opt) 0 rs"
  using assms card_rotated [of start s opt] by (intro optimistic_loop_eq) (simp_all add: s_def)

lemma choked_after:
  "length (filter lp_choked (unchoke_where sel seen rs)) + card {p. p < seen + length (filter lp_choked rs) \<and> sel p} =
    length (filter lp_choked rs) + card {p. p < seen \<and> sel p}"
proof (induction rs arbitrary: seen)
  case (Cons r rs)
  show ?case using Cons.IH [of seen] Cons.IH [of "Suc seen"] by (auto simp: card_Suc_sel)
qed simp

lemma length_unchoke_where [simp]: "length (unchoke_where sel seen rs) = length rs"
  by (induction rs arbitrary: seen) auto

lemma nth_unchoke_where:
  "i < length rs \<Longrightarrow> lp_choked (unchoke_where sel seen rs ! i) \<longleftrightarrow>
     lp_choked (rs ! i) \<and> \<not> sel (seen + length (filter lp_choked (take i rs)))"
proof (induction rs arbitrary: seen i)
  case (Cons r rs)
  then show ?case by (cases i) auto
qed simp

section \<open>A whole round\<close>

definition optimistic_slots :: "nat \<Rightarrow> nat" where
  "optimistic_slots slots = max 1 (slots div 8)"

definition earned_pass :: "u64 \<Rightarrow> u64 \<Rightarrow> nat \<Rightarrow> ants_ledger_peer list \<Rightarrow> ants_ledger_peer list" where
  "earned_pass now w slots records =
    map (\<lambda>i. (records ! i)\<lparr>lp_choked := \<not> earned_unchoked records (map (\<lambda>r. unchoke_score r now w) records)
      (slots - optimistic_slots slots) i\<rparr>) [0..<length records]"

lemma round_eq:
  fixes now w :: u64
  assumes "records \<noteq> []" "length records \<le> scratch" "slots \<noteq> 0"
  defines "rs \<equiv> earned_pass now w slots records"
  defines "s \<equiv> length (filter lp_choked rs)"
  shows "ants_ledger_unchoke_round now w slots rotation scratch records =
    (ANTS_OK, if s = 0 then rs
      else unchoke_where (\<lambda>p. (p + s - unat rotation mod s) mod s < optimistic_slots slots) 0 rs)"
proof -
  have opt: "(if slots div 8 = 0 then 1 else slots div 8) = optimistic_slots slots"
    and earned: "(if optimistic_slots slots \<ge> slots then 0 else slots - optimistic_slots slots) = slots - optimistic_slots slots"
    by (auto simp: optimistic_slots_def)
  have pos: "optimistic_slots slots \<noteq> 0" by (simp add: optimistic_slots_def)
  have "s \<noteq> 0 \<Longrightarrow> optimistic_loop (unat rotation mod s) s (optimistic_slots slots) 0 0 rs =
      unchoke_where (\<lambda>p. (p + s - unat rotation mod s) mod s < optimistic_slots slots) 0 rs"
    unfolding s_def by (rule optimistic_round) simp
  then show ?thesis
    using assms(1-3) pos unfolding ants_ledger_unchoke_round_def Let_def ANTS_LEDGER_OPTIMISTIC_UNCHOKE_DIVISOR_def opt earned
      rs_def [unfolded earned_pass_def, symmetric] s_def [symmetric]
    by (simp add: not_less)
qed

lemma length_earned_pass [simp]: "length (earned_pass now w slots records) = length records"
  by (simp add: earned_pass_def)

lemma earned_pass_choked:
  assumes "peers_distinct records"
  shows "length (filter lp_choked (earned_pass now w slots records)) =
    length records - min (slots - optimistic_slots slots) (length records)"
proof -
  let ?P = "earned_unchoked records (map (\<lambda>r. unchoke_score r now w) records) (slots - optimistic_slots slots)"
  have "length (filter lp_choked (earned_pass now w slots records)) = card {i. i < length records \<and> \<not> ?P i}"
    using distinct_card [of "filter (\<lambda>i. \<not> ?P i) [0..<length records]"]
    by (simp add: earned_pass_def filter_map o_def conj_commute)
  also have "{i. i < length records \<and> \<not> ?P i} = {..<length records} - {i. i < length records \<and> ?P i}" by auto
  also have "card \<dots> = length records - card {i. i < length records \<and> ?P i}"
    by (subst card_Diff_subset) auto
  finally show ?thesis using earned_count [OF assms] by simp
qed

lemma slots_split: "slots \<noteq> 0 \<Longrightarrow> slots - optimistic_slots slots + optimistic_slots slots = slots"
  by (auto simp: optimistic_slots_def)

lemma slots_full: "(e :: nat) + opt = slots \<Longrightarrow> s = n - min e n \<Longrightarrow> s = 0 \<Longrightarrow> n = min slots n"
  by (auto simp: min_def split: if_splits)

lemma slots_served: "(e :: nat) + opt = slots \<Longrightarrow> s = n - min e n \<Longrightarrow> n - (s - min opt s) = min slots n"
  by (auto simp: min_def)

lemma round_unchoked_count:
  assumes d: "peers_distinct records" and sc: "length records \<le> scratch"
  shows "length (filter (\<lambda>r. \<not> lp_choked r) (snd (ants_ledger_unchoke_round now w slots rotation scratch records))) =
    min slots (length records)"
proof -
  have compl: "length (filter (\<lambda>r. \<not> lp_choked r) xs) = length xs - length (filter lp_choked xs)" for xs
    using sum_length_filter_compl [of lp_choked xs] by simp
  consider "records = []" | "records \<noteq> []" "slots = 0" | "records \<noteq> []" "slots \<noteq> 0" by blast
  then show ?thesis
  proof cases
    case 3
    define rs where "rs = earned_pass now w slots records"
    define s where "s = length (filter lp_choked rs)"
    define opt where "opt = optimistic_slots slots"
    let ?sel = "\<lambda>p. (p + s - unat rotation mod s) mod s < opt"
    have s: "s = length records - min (slots - opt) (length records)" and len: "length rs = length records"
      using earned_pass_choked [OF d] by (simp_all add: s_def rs_def opt_def)
    have sum: "slots - opt + opt = slots" using slots_split [OF 3(2)] by (simp add: opt_def)
    note eq = round_eq [OF 3(1) sc 3(2), of now w rotation, folded rs_def, folded s_def, folded opt_def]
    show ?thesis
    proof (cases "s = 0")
      case True
      with eq have "snd (ants_ledger_unchoke_round now w slots rotation scratch records) = rs" by simp
      moreover have "length (filter (\<lambda>r. \<not> lp_choked r) rs) = length records"
        unfolding compl [of rs] len s_def [symmetric] True by simp
      moreover have "length records = min slots (length records)" by (rule slots_full [OF sum s True])
      ultimately show ?thesis by (simp only:)
    next
      case False
      then have "card {p. p < s \<and> ?sel p} = min opt s" by (intro card_rotated) simp
      with choked_after [of ?sel 0 rs] have after: "length (filter lp_choked (unchoke_where ?sel 0 rs)) + min opt s = s"
        by (simp add: s_def [symmetric])
      from False eq have "snd (ants_ledger_unchoke_round now w slots rotation scratch records) = unchoke_where ?sel 0 rs" by simp
      moreover have "length (filter (\<lambda>r. \<not> lp_choked r) (unchoke_where ?sel 0 rs)) = length records - (s - min opt s)"
        unfolding compl [of "unchoke_where ?sel 0 rs"] length_unchoke_where len using after by linarith
      ultimately show ?thesis using slots_served [OF sum s] by (simp only:)
    qed
  next
    case 2
    have "filter (\<lambda>r. \<not> lp_choked r) (map (\<lambda>r. r\<lparr>lp_choked := True\<rparr>) records) = []" by (simp add: filter_empty_conv)
    with 2 sc show ?thesis by (simp add: ants_ledger_unchoke_round_def)
  qed (simp add: ants_ledger_unchoke_round_def)
qed

lemma round_choked:
  fixes now w :: u64
  assumes "i < length records" "length records \<le> scratch" "slots \<noteq> 0"
  defines "rs \<equiv> earned_pass now w slots records"
  defines "s \<equiv> length (filter lp_choked rs)"
  shows "lp_choked (snd (ants_ledger_unchoke_round now w slots rotation scratch records) ! i) \<longleftrightarrow>
    lp_choked (rs ! i) \<and>
    \<not> (length (filter lp_choked (take i rs)) + s - unat rotation mod s) mod s < optimistic_slots slots"
proof -
  have "records \<noteq> []" using assms(1) by auto
  note eq = round_eq [OF this assms(2,3), of now w rotation, folded rs_def, folded s_def]
  have i: "i < length rs" using assms(1) by (simp add: rs_def)
  have "\<not> lp_choked (rs ! i)" if "s = 0" using that i nth_mem [of i rs] by (auto simp: s_def filter_empty_conv)
  then show ?thesis unfolding eq using i by (auto simp: nth_unchoke_where)
qed

lemma choked_position:
  assumes "i < length rs" "lp_choked (rs ! i)"
  shows "length (filter lp_choked (take i rs)) < length (filter lp_choked rs)"
proof -
  have "rs = take i rs @ rs ! i # drop (Suc i) rs" using assms(1) by (simp add: id_take_nth_drop)
  from arg_cong [OF this, of "\<lambda>xs. length (filter lp_choked xs)"] assms(2) show ?thesis by simp
qed

text \<open>Rounds agree on who is still choked after the earned slots when they rank the peers alike.\<close>

definition ranking :: "u64 \<Rightarrow> u64 \<Rightarrow> ants_ledger_peer list \<Rightarrow> nat \<Rightarrow> nat \<Rightarrow> bool" where
  "ranking now w records i j \<longleftrightarrow> ranks_above records (map (\<lambda>r. unchoke_score r now w) records) i j"

lemma above_loop_cong: "(\<And>j. j \<in> set js \<Longrightarrow> f j = g j) \<Longrightarrow> above_loop f earned n js = above_loop g earned n js"
  by (induction js arbitrary: n) auto

lemma same_ranking_choked:
  assumes "length records' = length records" "\<And>i j. i < length records \<Longrightarrow> j < length records \<Longrightarrow> ranking now' w records' i j = ranking now w records i j"
  shows "map lp_choked (earned_pass now' w slots records') = map lp_choked (earned_pass now w slots records)"
proof -
  have "above_loop (\<lambda>j. j \<noteq> i \<and> ranking now' w records' j i) e 0 [0..<length records] = above_loop (\<lambda>j. j \<noteq> i \<and> ranking now w records j i) e 0 [0..<length records]"
    if "i < length records" for e i by (rule above_loop_cong) (use assms(2) that in simp)
  then have "earned_unchoked records' (map (\<lambda>r. unchoke_score r now' w) records') e i = earned_unchoked records (map (\<lambda>r. unchoke_score r now w) records) e i"
    if "i < length records" for e i unfolding earned_unchoked_def assms(1) ranking_def [symmetric] using that by presburger
  then show ?thesis using assms(1) by (simp add: earned_pass_def)
qed

lemma round_turn:
  assumes i: "i < n" and len: "\<And>k. length (rs k) = n" and sc: "n \<le> scratch" "slots \<noteq> 0" and base: "base + n \<le> 2 ^ 64"
    and same: "\<And>k. k < n \<Longrightarrow> map lp_choked (earned_pass (now k) w slots (rs k)) = cs"
  shows "\<exists>k < n. \<not> lp_choked (snd (ants_ledger_unchoke_round (now k) w slots (of_nat (base + k)) scratch (rs k)) ! i)"
proof -
  define s where "s = length (filter id cs)"
  define p where "p = length (filter id (take i cs))"
  have cs: "length cs = n" using same [of 0] i len [of 0] by auto
  have choked: "lp_choked (snd (ants_ledger_unchoke_round (now k) w slots rotation scratch (rs k)) ! i) \<longleftrightarrow>
      cs ! i \<and> \<not> (p + s - unat rotation mod s) mod s < optimistic_slots slots" if "k < n" for k rotation
  proof -
    let ?e = "earned_pass (now k) w slots (rs k)"
    have "length (filter lp_choked ?e) = s" "length (filter lp_choked (take i ?e)) = p" "lp_choked (?e ! i) = cs ! i"
      using i len by (simp_all add: s_def p_def same [OF that, symmetric] take_map filter_map comp_def)
    then show ?thesis using round_choked [of i "rs k" scratch slots "now k" w rotation] i len sc by simp
  qed
  show ?thesis
  proof (cases "cs ! i")
    case True
    have "cs = take i cs @ cs ! i # drop (Suc i) cs" using i cs by (simp add: id_take_nth_drop)
    from arg_cong [OF this, of "\<lambda>xs. length (filter id xs)"] True have p: "p < s" by (simp add: p_def s_def)
    have s: "s \<le> n" using cs length_filter_le [of id cs] by (simp add: s_def)
    define k where "k = (p + s - base mod s) mod s"
    have k: "k < s" using p by (simp add: k_def)
    have "(base + k) mod s = (base mod s + (p + s - base mod s)) mod s" unfolding k_def by (simp add: mod_simps)
    also have "base mod s + (p + s - base mod s) = p + s" using mod_less_divisor [of s base] p by linarith
    finally have "(base + k) mod s = p" using p by simp
    moreover have "unat (of_nat (base + k) :: u64) = base + k" using k s base by (intro unat_of_nat_fits) linarith
    ultimately have "\<not> lp_choked (snd (ants_ledger_unchoke_round (now k) w slots (of_nat (base + k)) scratch (rs k)) ! i)"
      using choked [of k "of_nat (base + k)"] p k s by (simp add: optimistic_slots_def)
    with k s show ?thesis by (intro exI [of _ k]) simp
  next
    case False
    then show ?thesis using choked [of 0 "of_nat (base + 0)"] i by (intro exI [of _ 0]) auto
  qed
qed

section \<open>The record\<close>

definition sample_item :: "ants_ledger_recv_sample \<Rightarrow> item" where
  "sample_item s = Arr [UInt (smp_unix_s s), UInt (smp_amount_uncs s)]"

definition ledger_item :: "ants_ledger_peer \<Rightarrow> item" where
  "ledger_item r = MapI
    [(UInt 1, ByteStr (lp_peer_id r)), (UInt 2, UInt (lp_served_to r)), (UInt 3, UInt (lp_served_by r)),
     (UInt 4, UInt (lp_since_unix_s r)), (UInt 5, UInt (lp_last_update_unix_s r)),
     (UInt 6, UInt (ucast (lp_quality_q14k r))), (UInt 7, Boolean (lp_choked r)),
     (UInt 8, Arr (map sample_item (oldest_first r)))]"

definition ledger_ok :: "ants_ledger_peer \<Rightarrow> bool" where
  "ledger_ok r \<longleftrightarrow> length (lp_peer_id r) = ANTS_LEDGER_PEER_ID_SIZE \<and> ring_ok r"

text \<open>A record decoded over the caller's record \<open>rec\<close>: its ring starts at index 0.\<close>

definition stored_over :: "ants_ledger_peer \<Rightarrow> ants_ledger_peer \<Rightarrow> bool" where
  "stored_over rec r \<longleftrightarrow> lp_recent_count r \<le> length (lp_recent r) \<and>
    lp_recent_head r = (if lp_recent_count r = ANTS_LEDGER_RECENT_SAMPLES then 0 else lp_recent_count r) \<and>
    lp_recent r = take (lp_recent_count r) (lp_recent r) @ drop (lp_recent_count r) (lp_recent rec)"

definition decoded_over :: "ants_ledger_peer \<Rightarrow> ants_ledger_peer \<Rightarrow> bool" where
  "decoded_over rec r \<longleftrightarrow> length (lp_peer_id r) = ANTS_LEDGER_PEER_ID_SIZE \<and>
    lp_recent_count r \<le> ANTS_LEDGER_RECENT_SAMPLES \<and> stored_over rec r"

lemma ledger_item_wf: "ledger_ok r \<Longrightarrow> wf_item (ledger_item r) \<and> nests_within ANTS_CBOR_MAX_DEPTH (ledger_item r)"
  by (auto simp: ledger_item_def ledger_ok_def ring_ok_def ledger_sizes sample_item_def head_bytes_def ANTS_CBOR_MAX_DEPTH_def)

lemma exec_sample: "exec_calls [CArray 2, CUint (smp_unix_s s), CUint (smp_amount_uncs s)] = enc_recent_sample s"
  by (simp add: exec_calls_def enc_recent_sample_def)

lemma ledger_encode:
  assumes "ledger_ok r"
  shows "ants_ledger_record_encode buf r = fits buf (enc_item (ledger_item r))"
proof -
  note wf = ledger_item_wf [OF assms]
  show ?thesis
    unfolding ants_ledger_record_encode_def
    by (rule document_groups [OF conjunct1 [OF wf] conjunct2 [OF wf],
        where css = "[[CMap 8], [CUint 1, CBytes (lp_peer_id r)], [CUint 2, CUint (lp_served_to r)],
          [CUint 3, CUint (lp_served_by r)], [CUint 4, CUint (lp_since_unix_s r)],
          [CUint 5, CUint (lp_last_update_unix_s r)], [CUint 6, CUint (ucast (lp_quality_q14k r))],
          [CUint 7, CBool (lp_choked r)], [CUint 8], [CArray (lp_recent_count r)]] @
          map (\<lambda>s. [CArray 2, CUint (smp_unix_s s), CUint (smp_amount_uncs s)]) (oldest_first r)"])
      (simp_all add: enc_kv_calls exec_single exec_sample ledger_item_def sample_item_def o_def numeral_2_eq_2 [symmetric])
qed

lemma parser_sample:
  "parser decode_recent_sample (\<lambda>_. True) (\<lambda>s. calls_of (sample_item s))"
proof (rule parser_cong)
  show "parser decode_recent_sample (\<lambda>s. (True \<and> (True \<and> True)) \<and> True)
      (\<lambda>s. [CArray 2] @ [CUint (smp_unix_s s)] @ [CUint (smp_amount_uncs s)] @ [])"
    unfolding decode_recent_sample_def
    by (rule parser_expect [OF parser_norm [OF dec_array.prs.parser_axioms] TrueI],
        rule parser_field [OF parser_norm [OF dec_uint.prs.parser_axioms]],
        rule parser_field [OF parser_norm [OF dec_uint.prs.parser_axioms]], rule parser_done) auto
qed (simp_all add: sample_item_def numeral_2_eq_2)

lemma parser_quality: "parser decode_quality (\<lambda>_. True) (\<lambda>q. [CUint 6, CUint (ucast q)])"
  unfolding decode_quality_def
  by (rule parser_cong [OF parser_check [OF parser_uint_field, where g = ucast]])
    (simp_all add: ucast_narrow_u16 ucast_wide_u16 ucast_u16_back not_less)

lemma parser_recent:
  "parser decode_recent (\<lambda>xs. length xs \<le> ANTS_LEDGER_RECENT_SAMPLES)
    (\<lambda>xs. CUint 8 # CArray (length xs) # concat (map (\<lambda>s. calls_of (sample_item s)) xs))"
  unfolding decode_recent_def
  by (rule parser_after_key, rule parser_cong [OF parser_bounded_array [OF parser_sample]]) (simp_all add: list_all_iff)

lemma ledger_parser:
  "parser (ledger_record_body rec) (decoded_over rec)
    (\<lambda>r. [CMap 8] @ [CUint 1, CBytes (lp_peer_id r)] @ [CUint 2, CUint (lp_served_to r)] @ [CUint 3, CUint (lp_served_by r)] @
      [CUint 4, CUint (lp_since_unix_s r)] @ [CUint 5, CUint (lp_last_update_unix_s r)] @
      [CUint 6, CUint (ucast (lp_quality_q14k r))] @ [CUint 7, CBool (lp_choked r)] @
      (CUint 8 # CArray (length (take (lp_recent_count r) (lp_recent r))) #
        concat (map (\<lambda>s. calls_of (sample_item s)) (take (lp_recent_count r) (lp_recent r)))) @ [])"
proof (rule parser_cong)
  show "parser (ledger_record_body rec)
    (\<lambda>r. (length (lp_peer_id r) = ANTS_LEDGER_PEER_ID_SIZE \<and> (True \<and> (True \<and> (True \<and> (True \<and> (True \<and> (True \<and>
      (length (take (lp_recent_count r) (lp_recent r)) \<le> ANTS_LEDGER_RECENT_SAMPLES \<and> True)))))))) \<and> stored_over rec r)
    (\<lambda>r. [CMap 8] @ [CUint 1, CBytes (lp_peer_id r)] @ [CUint 2, CUint (lp_served_to r)] @ [CUint 3, CUint (lp_served_by r)] @
      [CUint 4, CUint (lp_since_unix_s r)] @ [CUint 5, CUint (lp_last_update_unix_s r)] @
      [CUint 6, CUint (ucast (lp_quality_q14k r))] @ [CUint 7, CBool (lp_choked r)] @
      (CUint 8 # CArray (length (take (lp_recent_count r) (lp_recent r))) #
        concat (map (\<lambda>s. calls_of (sample_item s)) (take (lp_recent_count r) (lp_recent r)))) @ [])"
    unfolding ledger_record_body_def
    by (rule parser_expect [OF parser_norm [OF dec_map.prs.parser_axioms] TrueI],
        rule parser_field [OF parser_bytes_field], rule parser_field [OF parser_uint_field],
        rule parser_field [OF parser_uint_field], rule parser_field [OF parser_uint_field],
        rule parser_field [OF parser_uint_field], rule parser_field [OF parser_quality],
        rule parser_field [OF parser_bool_field],
        rule parser_field [OF parser_recent, where sel = "\<lambda>r. take (lp_recent_count r) (lp_recent r)"], rule parser_done)
      (auto simp: stored_over_def)
qed (auto simp: decoded_over_def stored_over_def)

lemma decoded_ring:
  assumes "decoded_over rec r" "length (lp_recent rec) = ANTS_LEDGER_RECENT_SAMPLES"
  shows "ledger_ok r" "oldest_first r = take (lp_recent_count r) (lp_recent r)"
proof -
  have len: "length (lp_recent r) = ANTS_LEDGER_RECENT_SAMPLES"
  proof -
    have "length (lp_recent r) = length (take (lp_recent_count r) (lp_recent r) @ drop (lp_recent_count r) (lp_recent rec))"
      using assms(1) by (simp add: decoded_over_def stored_over_def)
    then show ?thesis using assms by (simp add: decoded_over_def stored_over_def)
  qed
  then show ok: "ledger_ok r"
    using assms(1) by (auto simp: ledger_ok_def ring_ok_def decoded_over_def stored_over_def ledger_sizes)
  then show "oldest_first r = take (lp_recent_count r) (lp_recent r)"
    using len assms(1) by (auto simp: oldest_first_eq ledger_ok_def decoded_over_def stored_over_def)
qed

lemma ledger_decode:
  assumes "length (lp_recent rec) = ANTS_LEDGER_RECENT_SAMPLES"
  shows "ants_ledger_record_decode rec bs = Inr r \<longleftrightarrow> decoded_over rec r \<and> bs = enc_item (ledger_item r)"
  unfolding ants_ledger_record_decode_def
proof (rule read_document_iff [OF ledger_parser])
  fix r
  assume r: "decoded_over rec r"
  note ring = decoded_ring [OF r assms]
  show "([CMap 8] @ [CUint 1, CBytes (lp_peer_id r)] @ [CUint 2, CUint (lp_served_to r)] @ [CUint 3, CUint (lp_served_by r)] @
      [CUint 4, CUint (lp_since_unix_s r)] @ [CUint 5, CUint (lp_last_update_unix_s r)] @
      [CUint 6, CUint (ucast (lp_quality_q14k r))] @ [CUint 7, CBool (lp_choked r)] @
      (CUint 8 # CArray (length (take (lp_recent_count r) (lp_recent r))) #
        concat (map (\<lambda>s. calls_of (sample_item s)) (take (lp_recent_count r) (lp_recent r)))) @ []) = calls_of (ledger_item r) \<and>
    wf_item (ledger_item r) \<and> nests_within ANTS_CBOR_MAX_DEPTH (ledger_item r)"
    using ledger_item_wf [OF ring(1)] ring(2) by (simp add: ledger_item_def o_def)
qed

text \<open>Decoding into a zeroed record is a message format of its own.\<close>

definition zero_peer :: ants_ledger_peer where
  "zero_peer = ants_ledger_peer_init (replicate ANTS_LEDGER_PEER_ID_SIZE 0) 0"

lemma zero_peer_ring: "length (lp_recent zero_peer) = ANTS_LEDGER_RECENT_SAMPLES"
  by (simp add: zero_peer_def ants_ledger_peer_init_def)

interpretation ledger_rec: record_codec ants_ledger_record_encode "ants_ledger_record_decode zero_peer" ledger_item
  "decoded_over zero_peer"
  by unfold_locales (simp_all add: ledger_decode [OF zero_peer_ring] decoded_ring [OF _ zero_peer_ring] ledger_encode ledger_item_wf)

text \<open>The record a given record decodes to over \<open>rec\<close>.\<close>

definition normalised :: "ants_ledger_peer \<Rightarrow> ants_ledger_peer \<Rightarrow> ants_ledger_peer" where
  "normalised rec r = r\<lparr>lp_recent := oldest_first r @ drop (lp_recent_count r) (lp_recent rec),
    lp_recent_head := (if lp_recent_count r = ANTS_LEDGER_RECENT_SAMPLES then 0 else lp_recent_count r)\<rparr>"

lemma normalised_decoded:
  assumes "ledger_ok r" "length (lp_recent rec) = ANTS_LEDGER_RECENT_SAMPLES"
  shows "decoded_over rec (normalised rec r)" "oldest_first (normalised rec r) = oldest_first r"
    "ledger_item (normalised rec r) = ledger_item r"
proof -
  show d: "decoded_over rec (normalised rec r)"
    using assms(1) by (simp add: decoded_over_def stored_over_def normalised_def ledger_ok_def ring_ok_def)
  show o: "oldest_first (normalised rec r) = oldest_first r"
    unfolding decoded_ring(2) [OF d assms(2)] by (simp add: normalised_def)
  show "ledger_item (normalised rec r) = ledger_item r"
    unfolding ledger_item_def o by (simp add: normalised_def)
qed

section \<open>A history of receipts\<close>

text \<open>A refused receipt leaves the record as it was; a receipt is accepted when the served-by total has room for it.\<close>

definition recv_all :: "(u64 \<times> u64) list \<Rightarrow> ants_ledger_peer \<Rightarrow> ants_ledger_peer" where
  "recv_all hist rec = fold (\<lambda>(amount, t) rec. snd (ants_ledger_record_recv amount t rec)) hist rec"

fun accepted :: "nat \<Rightarrow> (u64 \<times> u64) list \<Rightarrow> (u64 \<times> u64) list" where
  "accepted acc [] = []"
| "accepted acc ((a, t) # hist) =
    (if acc + unat a < 2 ^ 64 then (a, t) # accepted (acc + unat a) hist else accepted acc hist)"

definition sample_of :: "u64 \<times> u64 \<Rightarrow> ants_ledger_recv_sample" where
  "sample_of h = \<lparr>smp_unix_s = snd h, smp_amount_uncs = fst h\<rparr>"

lemma ring_ok_same:
  "lp_recent r' = lp_recent r \<Longrightarrow> lp_recent_head r' = lp_recent_head r \<Longrightarrow> lp_recent_count r' = lp_recent_count r \<Longrightarrow>
   ring_ok r' = ring_ok r \<and> oldest_first r' = oldest_first r"
  by (simp add: ring_ok_def oldest_first_def)

lemma recv_cases:
  assumes "ring_ok r"
  shows "case ants_ledger_record_recv a t r of (rc, r') \<Rightarrow>
    if unat (lp_served_by r) + unat a < 2 ^ 64
    then rc = ANTS_OK \<and> unat (lp_served_by r') = unat (lp_served_by r) + unat a \<and> lp_served_to r' = lp_served_to r \<and>
      ring_ok r' \<and> oldest_first r' = keep_last ANTS_LEDGER_RECENT_SAMPLES (oldest_first r @ [sample_of (a, t)])
    else rc = ANTS_ERROR_OVERFLOW \<and> r' = r"
proof (cases "a > UINT64_MAX - lp_served_by r")
  case True
  then show ?thesis by (simp add: ants_ledger_record_recv_def credit_def add_overflow_iff)
next
  case False
  define r1 where "r1 = snd (credit lp_served_by lp_served_by_update a t r)"
  have r1: "credit lp_served_by lp_served_by_update a t r = (ANTS_OK, r1)"
      "lp_served_by r1 = lp_served_by r + a" "lp_served_to r1 = lp_served_to r"
      "lp_recent r1 = lp_recent r" "lp_recent_head r1 = lp_recent_head r" "lp_recent_count r1 = lp_recent_count r"
    using False by (simp_all add: r1_def credit_def Let_def)
  from ring_ok_same [OF r1(4-6)] assms have "ring_ok r1" "oldest_first r1 = oldest_first r" by simp_all
  with False r1 recent_push_ring [of r1 t a] show ?thesis
    by (simp add: ants_ledger_record_recv_def add_overflow_iff sample_of_def unat_add_fits) (simp add: recent_push_def Let_def unat_add_fits)
qed

lemma keep_last_append: "keep_last n (keep_last n xs @ ys) = keep_last n (xs @ ys)"
proof (cases "length xs \<le> n")
  case False
  then show ?thesis by (cases "length ys \<le> n") (simp_all add: keep_last_def add.commute)
qed (simp add: keep_last_def)

lemma recv_all_ring:
  "ring_ok r \<Longrightarrow> ring_ok (recv_all hist r) \<and>
    oldest_first (recv_all hist r) = keep_last ANTS_LEDGER_RECENT_SAMPLES (oldest_first r @ map sample_of (accepted (unat (lp_served_by r)) hist))"
proof (induction hist arbitrary: r)
  case Nil
  then show ?case by (auto simp: recv_all_def keep_last_def ring_ok_def)
next
  case (Cons h hist)
  obtain a t where h: "h = (a, t)" by (cases h)
  obtain rc r1 where s: "ants_ledger_record_recv a t r = (rc, r1)" by fastforce
  have step: "recv_all (h # hist) r = recv_all hist r1" by (simp add: recv_all_def h s)
  show ?case
  proof (cases "unat (lp_served_by r) + unat a < 2 ^ 64")
    case True
    with recv_cases [OF Cons.prems, of a t] s
    have "ring_ok r1" "oldest_first r1 = keep_last ANTS_LEDGER_RECENT_SAMPLES (oldest_first r @ [sample_of (a, t)])"
      "unat (lp_served_by r1) = unat (lp_served_by r) + unat a" by auto
    with Cons.IH [of r1] True show ?thesis unfolding step by (simp add: h keep_last_append)
  next
    case False
    then show ?thesis using recv_cases [OF Cons.prems, of a t] s Cons.IH [OF Cons.prems] unfolding step by (simp add: h)
  qed
qed

lemma init_ring: "ring_ok (ants_ledger_peer_init pid now)" "oldest_first (ants_ledger_peer_init pid now) = []"
  by (simp_all add: ants_ledger_peer_init_def ring_ok_def oldest_first_def ledger_sizes)

lemma init_served: "lp_served_by (ants_ledger_peer_init pid now) = 0"
  by (simp add: ants_ledger_peer_init_def)

lemma window_sum_samples:
  "window_sum now w ss = (\<Sum>s \<leftarrow> ss. if smp_unix_s s = 0 \<or> unat now \<le> unat (smp_unix_s s) + unat w then unat (smp_amount_uncs s) else 0)"
  unfolding window_sum_def by (induction ss) (auto simp: in_window_eq)

section \<open>Properties\<close>

text \<open>Crediting service given to a peer adds the amount exactly and touches no other total; when
  the 64-bit total would wrap, the call reports an overflow and the record is unchanged.\<close>

theorem ledger_credit_exact:
  "case ants_ledger_credit_served_to a now r of (rc, r') \<Rightarrow>
    if unat (lp_served_to r) + unat a < 2 ^ 64
    then rc = ANTS_OK \<and> unat (lp_served_to r') = unat (lp_served_to r) + unat a \<and> lp_served_by r' = lp_served_by r \<and>
      lp_last_update_unix_s r' = (if now = 0 then lp_last_update_unix_s r else now)
    else rc = ANTS_ERROR_OVERFLOW \<and> r' = r"
  by (cases "a > UINT64_MAX - lp_served_to r")
    (simp_all add: ants_ledger_credit_served_to_def credit_def Let_def add_overflow_iff unat_add_fits)

text \<open>The net balance is the exact integer difference of the two totals whenever that
  difference is a signed 64-bit integer, the least one included, and an overflow error
  otherwise.\<close>

theorem ledger_net_balance_exact:
  "ants_ledger_net_balance rec =
    (let n = uint (lp_served_to rec) - uint (lp_served_by rec) in
     if - (2 ^ 63) \<le> n \<and> n < 2 ^ 63 then Inr n else Inl ANTS_ERROR_OVERFLOW)"
  by (rule net_balance_eq)

text \<open>C8. Recording a receipt adds to the served-by total exactly, keeps the ring well formed and
  refines a queue of the last 32 receipts: the new receipt is appended and the oldest is
  dropped once 32 are held. On overflow nothing is recorded.\<close>

theorem ledger_recv_refines_queue:
  assumes "ring_ok r"
  shows "case ants_ledger_record_recv a t r of (rc, r') \<Rightarrow>
    if unat (lp_served_by r) + unat a < 2 ^ 64
    then rc = ANTS_OK \<and> unat (lp_served_by r') = unat (lp_served_by r) + unat a \<and> lp_served_to r' = lp_served_to r \<and>
      ring_ok r' \<and> oldest_first r' = keep_last ANTS_LEDGER_RECENT_SAMPLES (oldest_first r @ [sample_of (a, t)])
    else rc = ANTS_ERROR_OVERFLOW \<and> r' = r"
  by (rule recv_cases [OF assms])

theorem ledger_recv_refines_queue_witness:
  "ring_ok (ants_ledger_peer_init [] 0) \<and>
   oldest_first (snd (ants_ledger_record_recv 7 100 (ants_ledger_peer_init [] 0))) = [sample_of (7, 100)]"
  using ledger_recv_refines_queue [OF init_ring(1), of "[]" 0 7 100]
  by (simp add: init_ring case_prod_beta) (simp add: init_ring keep_last_def ledger_sizes init_served)

text \<open>C9. From any record with a well-formed ring, such as a new or a decoded one, and any sequence of receipts, of which
  those that would overflow the served-by total are refused: the generosity is the sum of the amounts in the
  window over the last 32 samples, the stored ones followed by the accepted ones, cut off at the largest 64-bit
  value.\<close>

theorem ledger_generosity_of_history:
  assumes "ring_ok r"
  shows "unat (ants_ledger_generosity (recv_all hist r) now w) =
    min (2 ^ 64 - 1) (\<Sum>s \<leftarrow> keep_last ANTS_LEDGER_RECENT_SAMPLES (oldest_first r @ map sample_of (accepted (unat (lp_served_by r)) hist)).
      if smp_unix_s s = 0 \<or> unat now \<le> unat (smp_unix_s s) + unat w then unat (smp_amount_uncs s) else 0)"
  using recv_all_ring [OF assms, of hist] generosity_eq [of "recv_all hist r"] by (simp add: window_sum_samples)

text \<open>A stored record whose samples add up to more than the served-by total: the decoder accepts it. The second receipt
  is refused, and the sum saturates.\<close>

definition rich_peer :: ants_ledger_peer where
  "rich_peer = (ants_ledger_peer_init (replicate 32 1) 0)\<lparr>lp_served_by := UINT64_MAX - 2,
    lp_recent := [\<lparr>smp_unix_s = 190, smp_amount_uncs = UINT64_MAX\<rparr>] @ replicate 31 \<lparr>smp_unix_s = 0, smp_amount_uncs = 0\<rparr>,
    lp_recent_head := 1, lp_recent_count := 1\<rparr>"

theorem ledger_generosity_of_history_witness:
  "(\<exists>bs. ants_ledger_record_decode rich_peer bs = Inr rich_peer) \<and>
   accepted (unat (lp_served_by rich_peer)) [(1, 200), (7, 200)] = [(1, 200)] \<and>
   unat (ants_ledger_generosity (recv_all [(1, 200), (7, 200)] rich_peer) 250 60) = 2 ^ 64 - 1"
proof -
  have ok: "ring_ok rich_peer" by (simp add: ring_ok_def rich_peer_def ledger_sizes)
  have old: "oldest_first rich_peer = [\<lparr>smp_unix_s = 190, smp_amount_uncs = UINT64_MAX\<rparr>]"
    by (simp add: oldest_first_def rich_peer_def ledger_sizes)
  have acc: "accepted (unat (lp_served_by rich_peer)) [(1, 200), (7, 200)] = [(1, 200)]"
    by (simp add: rich_peer_def UINT64_MAX_def)
  have rich: "ledger_ok rich_peer" "length (lp_recent rich_peer) = ANTS_LEDGER_RECENT_SAMPLES"
    using ok by (simp_all add: ledger_ok_def ring_ok_def) (simp add: rich_peer_def ants_ledger_peer_init_def ledger_sizes)
  have "normalised rich_peer rich_peer = rich_peer"
    unfolding normalised_def old by (simp add: rich_peer_def ledger_sizes)
  then have dec: "ants_ledger_record_decode rich_peer (enc_item (ledger_item rich_peer)) = Inr rich_peer"
    using normalised_decoded [OF rich] by (simp add: ledger_decode [OF rich(2)])
  have "unat (ants_ledger_generosity (recv_all [(1, 200), (7, 200)] rich_peer) 250 60) = 2 ^ 64 - 1"
    unfolding ledger_generosity_of_history [OF ok] old acc by (simp add: keep_last_def sample_of_def ledger_sizes unat_UINT64_MAX)
  with dec acc show ?thesis by blast
qed

text \<open>C7. A round over peers with different identifiers unchokes exactly as many of them as there
  are slots, or all of them when there are fewer peers than slots.\<close>

theorem ledger_round_fills_slots:
  assumes "peers_distinct records" "length records \<le> scratch"
  shows "length (filter (\<lambda>r. \<not> lp_choked r) (snd (ants_ledger_unchoke_round now w slots rotation scratch records))) =
    min slots (length records)"
  by (rule round_unchoked_count [OF assms])

theorem ledger_round_fills_slots_witness:
  "peers_distinct [ants_ledger_peer_init (replicate 32 1) 0, ants_ledger_peer_init (replicate 32 2) 0] \<and>
   length (filter (\<lambda>r. \<not> lp_choked r) (snd (ants_ledger_unchoke_round 10 5 1 3 2
     [ants_ledger_peer_init (replicate 32 1) 0, ants_ledger_peer_init (replicate 32 2) 0]))) = 1"
proof -
  have "peers_distinct [ants_ledger_peer_init (replicate 32 1) 0, ants_ledger_peer_init (replicate 32 2) 0]" by code_simp
  with ledger_round_fills_slots [of "[ants_ledger_peer_init (replicate 32 1) 0, ants_ledger_peer_init (replicate 32 2) 0]" 2 10 5 1 3]
  show ?thesis by simp
qed

text \<open>The slots that are not optimistic go to the best ranked peers: a peer that fewer others
  outrank (by score, ties to the smaller identifier) than there are such slots is unchoked,
  whatever the rotation.\<close>

theorem ledger_round_serves_best:
  assumes "i < length records" "length records \<le> scratch" "slots \<noteq> 0"
    and "card {j. j < length records \<and> j \<noteq> i \<and>
      ranks_above records (map (\<lambda>r. unchoke_score r now w) records) j i} < slots - optimistic_slots slots"
  shows "\<not> lp_choked (snd (ants_ledger_unchoke_round now w slots rotation scratch records) ! i)"
  using assms round_choked [OF assms(1-3), of now w rotation] by (simp add: earned_pass_def earned_iff)

theorem ledger_round_serves_best_witness:
  "\<not> lp_choked (snd (ants_ledger_unchoke_round 10 5 2 3 3
     [snd (ants_ledger_record_recv 9 8 (ants_ledger_peer_init (replicate 32 3) 0)),
      ants_ledger_peer_init (replicate 32 1) 0, ants_ledger_peer_init (replicate 32 2) 0]) ! 0)"
proof -
  let ?rs = "[snd (ants_ledger_record_recv 9 8 (ants_ledger_peer_init (replicate 32 3) 0)),
      ants_ledger_peer_init (replicate 32 1) 0, ants_ledger_peer_init (replicate 32 2) 0]"
  have "filter (\<lambda>j. j \<noteq> 0 \<and> ranks_above ?rs (map (\<lambda>r. unchoke_score r 10 5) ?rs) j 0) [0..<3] = []" by code_simp
  then have "{j. j < length ?rs \<and> j \<noteq> 0 \<and> ranks_above ?rs (map (\<lambda>r. unchoke_score r 10 5) ?rs) j 0} = {}"
    by (auto simp: filter_empty_conv)
  then have "card {j. j < length ?rs \<and> j \<noteq> 0 \<and> ranks_above ?rs (map (\<lambda>r. unchoke_score r 10 5) ?rs) j 0} <
      2 - optimistic_slots 2" by (simp add: optimistic_slots_def ledger_sizes)
  then show ?thesis by (intro ledger_round_serves_best) simp_all
qed



text \<open>When the rotation counter wraps, a peer can be passed over for a whole turn: with three peers and one slot the
  rotations \<open>2 ^ 64 - 1\<close>, 0 and 1 never reach the third one.\<close>

lemma rotation_wrap_skips:
  assumes "rotation \<in> {2 ^ 64 - 1, 0, 1}"
  shows "lp_choked (snd (ants_ledger_unchoke_round now w 1 rotation 3 (replicate 3 (ants_ledger_peer_init [] 0))) ! 2)"
proof -
  let ?rs = "earned_pass now w 1 (replicate 3 (ants_ledger_peer_init [] 0))"
  have rs: "map lp_choked ?rs = [True, True, True]"
    by (simp add: earned_pass_def earned_unchoked_def optimistic_slots_def upt_rec)
  then have "length (filter lp_choked ?rs) = 3" "length (filter lp_choked (take 2 ?rs)) = 2" "lp_choked (?rs ! 2)"
    by (auto simp: map_eq_Cons_conv)
  moreover have "unat rotation mod 3 \<noteq> 2" using assms by auto
  then have "(2 + 3 - unat rotation mod 3) mod 3 \<noteq> 0" by presburger
  ultimately show ?thesis by (subst round_choked) (simp_all add: optimistic_slots_def)
qed

text \<open>C10. Encoding a record and decoding it over any record gives back every field and the recent
  receipts oldest first, and every document the decoder accepts is the one the encoder
  writes for the decoded record.\<close>

theorem ledger_record_round_trip:
  assumes "ledger_ok r" "length (lp_recent rec) = ANTS_LEDGER_RECENT_SAMPLES"
  shows "(ants_ledger_record_encode buf r = Inr bs \<longrightarrow>
      ants_ledger_record_decode rec bs = Inr (normalised rec r) \<and> oldest_first (normalised rec r) = oldest_first r) \<and>
    (ants_ledger_record_decode rec bs = Inr r' \<longrightarrow>
      ants_ledger_record_encode bs r' = Inr bs \<and> ants_cbor_is_canonical bs = ANTS_OK)"
proof (intro conjI impI)
  note n = normalised_decoded [OF assms]
  assume "ants_ledger_record_encode buf r = Inr bs"
  then show "ants_ledger_record_decode rec bs = Inr (normalised rec r)" "oldest_first (normalised rec r) = oldest_first r"
    using n by (auto simp: ledger_encode [OF assms(1)] ledger_decode [OF assms(2)] fits_def split: if_splits)
next
  assume "ants_ledger_record_decode rec bs = Inr r'"
  then have "ledger_ok r'" "bs = enc_item (ledger_item r')"
    using decoded_ring(1) [OF _ assms(2)] by (simp_all add: ledger_decode [OF assms(2)])
  then show "ants_ledger_record_encode bs r' = Inr bs" "ants_cbor_is_canonical bs = ANTS_OK"
    using ledger_item_wf [of r'] by (auto simp: ledger_encode fits_def is_canonical_iff)
qed

theorem ledger_record_round_trip_witness:
  "\<exists>bs. let r = snd (ants_ledger_record_recv 7 100 zero_peer) in
    ants_ledger_record_encode bs r = Inr bs \<and>
    ants_ledger_record_decode zero_peer bs = Inr (normalised zero_peer r) \<and> ants_cbor_is_canonical bs = ANTS_OK"
proof -
  define r where "r = snd (ants_ledger_record_recv 7 100 zero_peer)"
  have ok: "ledger_ok r" unfolding r_def by code_simp
  then have "ants_ledger_record_encode (enc_item (ledger_item r)) r = Inr (enc_item (ledger_item r))"
    by (simp add: ledger_encode fits_def)
  with ledger_record_round_trip [OF ok zero_peer_ring] show ?thesis
    unfolding r_def [symmetric] Let_def by blast
qed

end
