(* ===== verification/Payment.thy ===== *)
theory Payment
  imports Cbor_Fields
begin

text \<open>
  Payment terms (\<^verbatim>\<open>src/economy/ledger/src/payment.c\<close>): validation of a scheme against the
  fields its kind carries, building and matching a terms object, and its codec. A
  \<^verbatim>\<open>char\<close> array is a byte list of the array's size; the enums are the \<open>32 word\<close> they are cast
  from and to, so that values outside the enumeration can be written down.
\<close>

unbundle bit_operations_syntax

section \<open>Definitions\<close>

definition ANTS_PAYMENT_MAX_SCHEMES :: nat where "ANTS_PAYMENT_MAX_SCHEMES = 8"
definition ANTS_PAYMENT_REF_MAX :: nat where "ANTS_PAYMENT_REF_MAX = 128"
definition ANTS_PAYMENT_CURRENCY_MAX :: nat where "ANTS_PAYMENT_CURRENCY_MAX = 8"
definition ANTS_PAYMENT_NOTES_MAX :: nat where "ANTS_PAYMENT_NOTES_MAX = 256"
definition ANTS_PAYMENT_ENCODED_MAX :: nat where "ANTS_PAYMENT_ENCODED_MAX = 2560"

lemmas payment_sizes = ANTS_PAYMENT_MAX_SCHEMES_def ANTS_PAYMENT_REF_MAX_def ANTS_PAYMENT_CURRENCY_MAX_def
  ANTS_PAYMENT_NOTES_MAX_def ANTS_PAYMENT_ENCODED_MAX_def

definition ANTS_PAYMENT_SCHEME_NONE :: u32 where "ANTS_PAYMENT_SCHEME_NONE = 0"
definition ANTS_PAYMENT_SCHEME_NCS :: u32 where "ANTS_PAYMENT_SCHEME_NCS = 1"
definition ANTS_PAYMENT_SCHEME_FIAT_STRIPE :: u32 where "ANTS_PAYMENT_SCHEME_FIAT_STRIPE = 2"
definition ANTS_PAYMENT_SCHEME_FIAT_LIGHTNING :: u32 where "ANTS_PAYMENT_SCHEME_FIAT_LIGHTNING = 3"
definition ANTS_PAYMENT_SCHEME_SUBSCRIPTION :: u32 where "ANTS_PAYMENT_SCHEME_SUBSCRIPTION = 4"
definition ANTS_PAYMENT_SCHEME_CUSTOM :: u32 where "ANTS_PAYMENT_SCHEME_CUSTOM = 5"

lemmas payment_kinds = ANTS_PAYMENT_SCHEME_NONE_def ANTS_PAYMENT_SCHEME_NCS_def ANTS_PAYMENT_SCHEME_FIAT_STRIPE_def
  ANTS_PAYMENT_SCHEME_FIAT_LIGHTNING_def ANTS_PAYMENT_SCHEME_SUBSCRIPTION_def ANTS_PAYMENT_SCHEME_CUSTOM_def

definition ANTS_PAYMENT_SCOPE_PER_QUERY :: u32 where "ANTS_PAYMENT_SCOPE_PER_QUERY = 0"
definition ANTS_PAYMENT_SCOPE_SUBSCRIPTION :: u32 where "ANTS_PAYMENT_SCOPE_SUBSCRIPTION = 2"

lemmas payment_scopes = ANTS_PAYMENT_SCOPE_PER_QUERY_def ANTS_PAYMENT_SCOPE_SUBSCRIPTION_def

record ants_payment_scheme =
  ps_kind :: u32
  ps_amount :: u64
  ps_currency :: bytes
  ps_ref_a :: bytes
  ps_ref_b :: bytes

record ants_payment_terms =
  pt_schemes :: "ants_payment_scheme list"
  pt_n_schemes :: nat
  pt_validity_unix_s :: u64
  pt_scope :: u32
  pt_notes :: bytes

subsection \<open>The fields of a kind\<close>

definition F_AMOUNT :: u32 where "F_AMOUNT = 0x1"
definition F_CURRENCY :: u32 where "F_CURRENCY = 0x2"
definition F_REF_A :: u32 where "F_REF_A = 0x4"
definition F_REF_B :: u32 where "F_REF_B = 0x8"

lemmas field_bits = F_AMOUNT_def F_CURRENCY_def F_REF_A_def F_REF_B_def

definition kind_valid :: "u32 \<Rightarrow> bool" where
  "kind_valid kind \<longleftrightarrow> kind \<le> ANTS_PAYMENT_SCHEME_CUSTOM"

definition scheme_field_mask :: "u32 \<Rightarrow> u32" where
  "scheme_field_mask kind =
    (if kind = ANTS_PAYMENT_SCHEME_NONE then 0
     else if kind = ANTS_PAYMENT_SCHEME_NCS then F_REF_A
     else if kind = ANTS_PAYMENT_SCHEME_FIAT_STRIPE then F_AMOUNT OR F_CURRENCY OR F_REF_A
     else if kind = ANTS_PAYMENT_SCHEME_FIAT_LIGHTNING then F_AMOUNT OR F_REF_A
     else if kind = ANTS_PAYMENT_SCHEME_SUBSCRIPTION then F_REF_A OR F_REF_B
     else if kind = ANTS_PAYMENT_SCHEME_CUSTOM then F_REF_A
     else 0)"

definition has_field :: "u32 \<Rightarrow> u32 \<Rightarrow> bool" where
  "has_field fmask f \<longleftrightarrow> fmask AND f \<noteq> 0"

definition scheme_pairs :: "u32 \<Rightarrow> nat" where
  "scheme_pairs fmask =
    1 + (if has_field fmask F_AMOUNT then 1 else 0) + (if has_field fmask F_CURRENCY then 1 else 0)
      + (if has_field fmask F_REF_A then 1 else 0) + (if has_field fmask F_REF_B then 1 else 0)"

text \<open>\<^verbatim>\<open>memchr\<close> looks for a NUL among the first \<open>cap\<close> bytes; \<^verbatim>\<open>strlen\<close> ends a string at the first one.\<close>

definition field_terminated :: "bytes \<Rightarrow> nat \<Rightarrow> bool" where
  "field_terminated s cap \<longleftrightarrow> 0 \<in> set (take cap s)"

definition c_str :: "bytes \<Rightarrow> bytes" where
  "c_str s = takeWhile (\<lambda>c. c \<noteq> 0) s"

subsection \<open>Validation\<close>

definition ants_payment_scheme_valid :: "ants_payment_scheme \<Rightarrow> bool" where
  "ants_payment_scheme_valid scheme =
    (if \<not> kind_valid (ps_kind scheme) then False
     else if \<not> field_terminated (ps_currency scheme) ANTS_PAYMENT_CURRENCY_MAX \<or>
       \<not> field_terminated (ps_ref_a scheme) ANTS_PAYMENT_REF_MAX \<or>
       \<not> field_terminated (ps_ref_b scheme) ANTS_PAYMENT_REF_MAX then False
     else
       let fmask = scheme_field_mask (ps_kind scheme) in
       if \<not> has_field fmask F_AMOUNT \<and> ps_amount scheme \<noteq> 0 then False
       else if \<not> has_field fmask F_CURRENCY \<and> ps_currency scheme ! 0 \<noteq> 0 then False
       else if \<not> has_field fmask F_REF_A \<and> ps_ref_a scheme ! 0 \<noteq> 0 then False
       else if \<not> has_field fmask F_REF_B \<and> ps_ref_b scheme ! 0 \<noteq> 0 then False
       else if ps_kind scheme = ANTS_PAYMENT_SCHEME_FIAT_STRIPE \<and> ps_currency scheme ! 0 = 0 then False
       else True)"

subsection \<open>The terms object\<close>

definition zero_scheme :: ants_payment_scheme where
  "zero_scheme = \<lparr>ps_kind = 0, ps_amount = 0, ps_currency = replicate ANTS_PAYMENT_CURRENCY_MAX 0,
    ps_ref_a = replicate ANTS_PAYMENT_REF_MAX 0, ps_ref_b = replicate ANTS_PAYMENT_REF_MAX 0\<rparr>"

definition zero_terms :: ants_payment_terms where
  "zero_terms = \<lparr>pt_schemes = replicate ANTS_PAYMENT_MAX_SCHEMES zero_scheme, pt_n_schemes = 0,
    pt_validity_unix_s = 0, pt_scope = 0, pt_notes = replicate ANTS_PAYMENT_NOTES_MAX 0\<rparr>"

definition ants_payment_terms_init :: ants_payment_terms where
  "ants_payment_terms_init = zero_terms\<lparr>pt_n_schemes := 0, pt_validity_unix_s := 0,
    pt_scope := ANTS_PAYMENT_SCOPE_PER_QUERY, pt_notes := (pt_notes zero_terms)[0 := 0]\<rparr>"

definition ants_payment_terms_add_scheme :: "ants_payment_scheme \<Rightarrow> ants_payment_terms step" where
  "ants_payment_terms_add_scheme scheme terms =
    (if \<not> ants_payment_scheme_valid scheme then (ANTS_ERROR_INVALID_ARG, terms)
     else if pt_n_schemes terms \<ge> ANTS_PAYMENT_MAX_SCHEMES then (ANTS_ERROR_BUFFER_TOO_SMALL, terms)
     else (ANTS_OK, terms\<lparr>pt_schemes := (pt_schemes terms)[pt_n_schemes terms := scheme],
       pt_n_schemes := pt_n_schemes terms + 1\<rparr>))"

text \<open>The two nested loops, left at the first match.\<close>

definition ants_payment_terms_intersects :: "ants_payment_terms \<Rightarrow> ants_payment_terms \<Rightarrow> bool" where
  "ants_payment_terms_intersects a b =
    list_ex (\<lambda>i. list_ex (\<lambda>j. ps_kind (pt_schemes a ! i) = ps_kind (pt_schemes b ! j)) [0..<pt_n_schemes b])
      [0..<pt_n_schemes a]"

subsection \<open>Encoding\<close>

definition enc_scheme :: "ants_payment_scheme \<Rightarrow> ants_cbor_enc step" where
  "enc_scheme s =
    (let fmask = scheme_field_mask (ps_kind s) in
     run_steps
      ([ants_cbor_enc_map (scheme_pairs fmask), enc_kv_uint 1 (ucast (ps_kind s))]
       @ (if has_field fmask F_AMOUNT then [enc_kv_uint 2 (ps_amount s)] else [])
       @ (if has_field fmask F_CURRENCY then [enc_kv_text 3 (c_str (ps_currency s))] else [])
       @ (if has_field fmask F_REF_A then [enc_kv_text 4 (c_str (ps_ref_a s))] else [])
       @ (if has_field fmask F_REF_B then [enc_kv_text 5 (c_str (ps_ref_b s))] else [])))"

definition ants_payment_terms_encode :: "bytes \<Rightarrow> ants_payment_terms \<Rightarrow> bytes res" where
  "ants_payment_terms_encode buf terms =
    (if pt_n_schemes terms > ANTS_PAYMENT_MAX_SCHEMES then Inl ANTS_ERROR_INVALID_ARG
     else if pt_scope terms > ANTS_PAYMENT_SCOPE_SUBSCRIPTION then Inl ANTS_ERROR_INVALID_ARG
     else if \<not> field_terminated (pt_notes terms) ANTS_PAYMENT_NOTES_MAX then Inl ANTS_ERROR_INVALID_ARG
     else if \<not> list_all ants_payment_scheme_valid (take (pt_n_schemes terms) (pt_schemes terms))
     then Inl ANTS_ERROR_INVALID_ARG
     else cbor_document buf
       ([ants_cbor_enc_map 4, ants_cbor_enc_uint 1, ants_cbor_enc_array (pt_n_schemes terms)]
        @ map enc_scheme (take (pt_n_schemes terms) (pt_schemes terms))
        @ [enc_kv_uint 2 (pt_validity_unix_s terms), enc_kv_uint 3 (ucast (pt_scope terms)),
           enc_kv_text 4 (c_str (pt_notes terms))]))"

subsection \<open>Decoding\<close>

definition decode_text_into :: "bytes \<Rightarrow> nat \<Rightarrow> (ants_cbor_dec, bytes) reader" where
  "decode_text_into dst cap =
    then_read (norm_read ants_cbor_dec_text) (\<lambda>p.
    if length p \<ge> cap then read_fail ANTS_ERROR_MALFORMED
    else read_ret (p @ [0] @ drop (length p + 1) dst))"

definition decode_text_field :: "u64 \<Rightarrow> bytes \<Rightarrow> nat \<Rightarrow> (ants_cbor_dec, bytes) reader" where
  "decode_text_field key dst cap = then_read (expect_key key) (\<lambda>_. decode_text_into dst cap)"

definition decode_scheme :: "(ants_cbor_dec, ants_payment_scheme) reader" where
  "decode_scheme =
    then_read (norm_read ants_cbor_dec_map) (\<lambda>n_pairs.
    then_read (decode_uint_field 1) (\<lambda>kind_u.
    if kind_u > ucast ANTS_PAYMENT_SCHEME_CUSTOM then read_fail ANTS_ERROR_MALFORMED else
    let fmask = scheme_field_mask (ucast kind_u) in
    if n_pairs \<noteq> scheme_pairs fmask then read_fail ANTS_ERROR_MALFORMED else
    then_read (if has_field fmask F_AMOUNT then decode_uint_field 2 else read_ret (ps_amount zero_scheme)) (\<lambda>amount.
    then_read (if has_field fmask F_CURRENCY then decode_text_field 3 (ps_currency zero_scheme) ANTS_PAYMENT_CURRENCY_MAX
      else read_ret (ps_currency zero_scheme)) (\<lambda>currency.
    then_read (if has_field fmask F_REF_A then decode_text_field 4 (ps_ref_a zero_scheme) ANTS_PAYMENT_REF_MAX
      else read_ret (ps_ref_a zero_scheme)) (\<lambda>ref_a.
    then_read (if has_field fmask F_REF_B then decode_text_field 5 (ps_ref_b zero_scheme) ANTS_PAYMENT_REF_MAX
      else read_ret (ps_ref_b zero_scheme)) (\<lambda>ref_b.
    let s = \<lparr>ps_kind = ucast kind_u, ps_amount = amount, ps_currency = currency, ps_ref_a = ref_a, ps_ref_b = ref_b\<rparr> in
    if \<not> ants_payment_scheme_valid s then read_fail ANTS_ERROR_MALFORMED else read_ret s))))))"

definition payment_terms_body :: "(ants_cbor_dec, ants_payment_terms) reader" where
  "payment_terms_body =
    then_read (norm_read ants_cbor_dec_map) (\<lambda>n_pairs.
    if n_pairs \<noteq> 4 then read_fail ANTS_ERROR_MALFORMED else
    then_read (expect_key 1) (\<lambda>_.
    then_read (norm_read ants_cbor_dec_array) (\<lambda>n_schemes.
    if n_schemes > ANTS_PAYMENT_MAX_SCHEMES then read_fail ANTS_ERROR_MALFORMED else
    then_read (read_times n_schemes decode_scheme) (\<lambda>schemes.
    then_read (decode_uint_field 2) (\<lambda>validity.
    then_read (decode_uint_field 3) (\<lambda>scope_u.
    if scope_u > ucast ANTS_PAYMENT_SCOPE_SUBSCRIPTION then read_fail ANTS_ERROR_MALFORMED else
    then_read (decode_text_field 4 (pt_notes zero_terms) ANTS_PAYMENT_NOTES_MAX) (\<lambda>notes.
    read_ret (zero_terms\<lparr>pt_schemes := schemes @ drop n_schemes (pt_schemes zero_terms), pt_n_schemes := n_schemes,
      pt_validity_unix_s := validity, pt_scope := ucast scope_u, pt_notes := notes\<rparr>))))))))"

definition ants_payment_terms_decode :: "bytes \<Rightarrow> ants_payment_terms res" where
  "ants_payment_terms_decode buf = cbor_read_document payment_terms_body buf"

section \<open>What a document says\<close>

text \<open>The decoded values before they are stored into the fixed-size buffers: the texts as they
  stand in the document.\<close>

record scheme_doc =
  sd_kind :: u64
  sd_amount :: u64
  sd_currency :: bytes
  sd_ref_a :: bytes
  sd_ref_b :: bytes

record terms_doc =
  td_schemes :: "scheme_doc list"
  td_validity :: u64
  td_scope :: u64
  td_notes :: bytes

definition pad :: "nat \<Rightarrow> bytes \<Rightarrow> bytes" where
  "pad cap p = p @ replicate (cap - length p) 0"

definition scheme_of :: "scheme_doc \<Rightarrow> ants_payment_scheme" where
  "scheme_of d = \<lparr>ps_kind = ucast (sd_kind d), ps_amount = sd_amount d, ps_currency = pad ANTS_PAYMENT_CURRENCY_MAX (sd_currency d),
    ps_ref_a = pad ANTS_PAYMENT_REF_MAX (sd_ref_a d), ps_ref_b = pad ANTS_PAYMENT_REF_MAX (sd_ref_b d)\<rparr>"

definition terms_of :: "terms_doc \<Rightarrow> ants_payment_terms" where
  "terms_of d = \<lparr>pt_schemes = map scheme_of (td_schemes d) @ drop (length (td_schemes d)) (pt_schemes zero_terms),
    pt_n_schemes = length (td_schemes d), pt_validity_unix_s = td_validity d, pt_scope = ucast (td_scope d),
    pt_notes = pad ANTS_PAYMENT_NOTES_MAX (td_notes d)\<rparr>"

definition doc_mask :: "scheme_doc \<Rightarrow> u32" where
  "doc_mask d = scheme_field_mask (ucast (sd_kind d))"

definition scheme_doc_ok :: "scheme_doc \<Rightarrow> bool" where
  "scheme_doc_ok d \<longleftrightarrow> sd_kind d \<le> ucast ANTS_PAYMENT_SCHEME_CUSTOM \<and>
    (\<not> has_field (doc_mask d) F_AMOUNT \<longrightarrow> sd_amount d = 0) \<and>
    (if has_field (doc_mask d) F_CURRENCY then length (sd_currency d) < ANTS_PAYMENT_CURRENCY_MAX else sd_currency d = []) \<and>
    (if has_field (doc_mask d) F_REF_A then length (sd_ref_a d) < ANTS_PAYMENT_REF_MAX else sd_ref_a d = []) \<and>
    (if has_field (doc_mask d) F_REF_B then length (sd_ref_b d) < ANTS_PAYMENT_REF_MAX else sd_ref_b d = []) \<and>
    ants_payment_scheme_valid (scheme_of d)"

definition terms_doc_ok :: "terms_doc \<Rightarrow> bool" where
  "terms_doc_ok d \<longleftrightarrow> length (td_schemes d) \<le> ANTS_PAYMENT_MAX_SCHEMES \<and> list_all scheme_doc_ok (td_schemes d) \<and>
    td_scope d \<le> ucast ANTS_PAYMENT_SCOPE_SUBSCRIPTION \<and> length (td_notes d) < ANTS_PAYMENT_NOTES_MAX"

definition scheme_item :: "scheme_doc \<Rightarrow> item" where
  "scheme_item d = MapI
    ([(UInt 1, UInt (sd_kind d))]
     @ (if has_field (doc_mask d) F_AMOUNT then [(UInt 2, UInt (sd_amount d))] else [])
     @ (if has_field (doc_mask d) F_CURRENCY then [(UInt 3, TextStr (sd_currency d))] else [])
     @ (if has_field (doc_mask d) F_REF_A then [(UInt 4, TextStr (sd_ref_a d))] else [])
     @ (if has_field (doc_mask d) F_REF_B then [(UInt 5, TextStr (sd_ref_b d))] else []))"

definition terms_item :: "terms_doc \<Rightarrow> item" where
  "terms_item d = MapI
    [(UInt 1, Arr (map scheme_item (td_schemes d))), (UInt 2, UInt (td_validity d)), (UInt 3, UInt (td_scope d)),
     (UInt 4, TextStr (td_notes d))]"

definition doc_scheme :: "ants_payment_scheme \<Rightarrow> scheme_doc" where
  "doc_scheme s = \<lparr>sd_kind = ucast (ps_kind s), sd_amount = ps_amount s, sd_currency = c_str (ps_currency s),
    sd_ref_a = c_str (ps_ref_a s), sd_ref_b = c_str (ps_ref_b s)\<rparr>"

definition doc_terms :: "ants_payment_terms \<Rightarrow> terms_doc" where
  "doc_terms t = \<lparr>td_schemes = map doc_scheme (take (pt_n_schemes t) (pt_schemes t)), td_validity = pt_validity_unix_s t,
    td_scope = ucast (pt_scope t), td_notes = c_str (pt_notes t)\<rparr>"

section \<open>Reading a document\<close>

text \<open>A reader whose result is converted.\<close>

definition map_read :: "('a \<Rightarrow> 'b) \<Rightarrow> ('s, 'a) reader \<Rightarrow> ('s, 'b) reader" where
  "map_read f m = then_read m (\<lambda>x. read_ret (f x))"

lemma map_read_then: "map_read f (then_read m g) = then_read m (\<lambda>x. map_read f (g x))"
  by (auto simp: map_read_def then_read_def fun_eq_iff split: prod.splits sum.splits)

lemma map_read_basic:
  "map_read f (read_fail e) = read_fail e"
  "map_read f (read_ret x) = read_ret (f x)"
  "map_read f (if b then m else m') = (if b then map_read f m else map_read f m')"
  by (auto simp: map_read_def then_read_def read_ret_def read_fail_def fun_eq_iff)

lemma then_map_read: "then_read (map_read f m) h = then_read m (\<lambda>x. h (f x))"
  by (auto simp: map_read_def then_read_def read_ret_def fun_eq_iff split: prod.splits sum.splits)

lemmas map_read_simps = map_read_then map_read_basic then_map_read

lemma read_times_map: "read_times n (map_read f m) = map_read (map f) (read_times n m)"
  by (induction n) (simp_all add: map_read_simps)

definition text_doc :: "u64 \<Rightarrow> nat \<Rightarrow> (ants_cbor_dec, bytes) reader" where
  "text_doc key cap = then_read (expect_key key) (\<lambda>_. then_read (norm_read ants_cbor_dec_text) (\<lambda>p.
    if length p \<ge> cap then read_fail ANTS_ERROR_MALFORMED else read_ret p))"

lemma decode_text_doc: "decode_text_field key (replicate cap 0) cap = map_read (pad cap) (text_doc key cap)"
proof -
  have "p @ [0] @ drop (length p + 1) (replicate cap 0) = pad cap p" if "\<not> cap \<le> length p" for p :: bytes
    using that by (cases "cap - length p") (simp_all add: pad_def Suc_diff_Suc)
  then show ?thesis
    by (simp add: decode_text_field_def decode_text_into_def text_doc_def map_read_simps cong: if_cong)
qed

lemma optional_text_doc:
  "(if b then decode_text_field key (replicate cap 0) cap else read_ret (replicate cap 0)) =
   map_read (pad cap) (if b then text_doc key cap else read_ret [])"
  by (simp add: decode_text_doc map_read_simps pad_def)

definition scheme_doc_fields :: "u64 \<Rightarrow> (ants_cbor_dec, scheme_doc) reader" where
  "scheme_doc_fields kind_u = (let fmask = scheme_field_mask (ucast kind_u) in
    then_read (if has_field fmask F_AMOUNT then decode_uint_field 2 else read_ret 0) (\<lambda>amount.
    then_read (if has_field fmask F_CURRENCY then text_doc 3 ANTS_PAYMENT_CURRENCY_MAX else read_ret []) (\<lambda>currency.
    then_read (if has_field fmask F_REF_A then text_doc 4 ANTS_PAYMENT_REF_MAX else read_ret []) (\<lambda>ref_a.
    then_read (if has_field fmask F_REF_B then text_doc 5 ANTS_PAYMENT_REF_MAX else read_ret []) (\<lambda>ref_b.
    if \<not> ants_payment_scheme_valid (scheme_of \<lparr>sd_kind = kind_u, sd_amount = amount, sd_currency = currency, sd_ref_a = ref_a, sd_ref_b = ref_b\<rparr>)
    then read_fail ANTS_ERROR_MALFORMED
    else read_ret \<lparr>sd_kind = kind_u, sd_amount = amount, sd_currency = currency, sd_ref_a = ref_a, sd_ref_b = ref_b\<rparr>)))))"

definition scheme_doc_body :: "(ants_cbor_dec, scheme_doc) reader" where
  "scheme_doc_body =
    then_read (norm_read ants_cbor_dec_map) (\<lambda>n_pairs.
    then_read (decode_uint_field 1) (\<lambda>kind_u.
    if kind_u > ucast ANTS_PAYMENT_SCHEME_CUSTOM then read_fail ANTS_ERROR_MALFORMED else
    if n_pairs \<noteq> scheme_pairs (scheme_field_mask (ucast kind_u)) then read_fail ANTS_ERROR_MALFORMED else
    scheme_doc_fields kind_u))"

lemma decode_scheme_doc: "decode_scheme = map_read scheme_of scheme_doc_body"
  unfolding decode_scheme_def scheme_doc_body_def scheme_doc_fields_def zero_scheme_def Let_def ants_payment_scheme.simps optional_text_doc then_map_read
  by (simp add: map_read_then map_read_basic scheme_of_def cong: if_cong)

lemma parser_text_doc: "parser (text_doc key cap) (\<lambda>p. length p < cap) (\<lambda>p. [CUint key, CText p])"
  unfolding text_doc_def
  by (rule parser_after_key, rule parser_cong [OF parser_check [OF parser_norm [OF dec_text.prs.parser_axioms], where g = "\<lambda>p. p"]]) auto

definition field_calls :: "u32 \<Rightarrow> scheme_doc \<Rightarrow> enc_call list" where
  "field_calls fmask d =
    (if has_field fmask F_AMOUNT then [CUint 2, CUint (sd_amount d)] else []) @
    (if has_field fmask F_CURRENCY then [CUint 3, CText (sd_currency d)] else []) @
    (if has_field fmask F_REF_A then [CUint 4, CText (sd_ref_a d)] else []) @
    (if has_field fmask F_REF_B then [CUint 5, CText (sd_ref_b d)] else []) @ []"

definition field_lengths :: "u32 \<Rightarrow> scheme_doc \<Rightarrow> bool" where
  "field_lengths fmask d \<longleftrightarrow> ((if has_field fmask F_AMOUNT then True else sd_amount d = 0) \<and>
    ((if has_field fmask F_CURRENCY then length (sd_currency d) < ANTS_PAYMENT_CURRENCY_MAX else sd_currency d = []) \<and>
    ((if has_field fmask F_REF_A then length (sd_ref_a d) < ANTS_PAYMENT_REF_MAX else sd_ref_a d = []) \<and>
    ((if has_field fmask F_REF_B then length (sd_ref_b d) < ANTS_PAYMENT_REF_MAX else sd_ref_b d = []) \<and> True))))"

lemma scheme_doc_eta:
  "\<lparr>sd_kind = sd_kind d, sd_amount = sd_amount d, sd_currency = sd_currency d, sd_ref_a = sd_ref_a d, sd_ref_b = sd_ref_b d\<rparr> = d"
  by simp

lemma parser_scheme_fields:
  "parser (scheme_doc_fields k)
    (\<lambda>d. field_lengths (scheme_field_mask (ucast k)) d \<and> (sd_kind d = k \<and> ants_payment_scheme_valid (scheme_of d)))
    (field_calls (scheme_field_mask (ucast k)))"
  unfolding scheme_doc_fields_def field_calls_def field_lengths_def Let_def
  by (rule parser_field [OF parser_optional [OF parser_uint_field]],
      rule parser_field [OF parser_optional [OF parser_text_doc]],
      rule parser_field [OF parser_optional [OF parser_text_doc]],
      rule parser_field [OF parser_optional [OF parser_text_doc]], rule parser_guard, rule parser_done)
    (auto simp: scheme_doc_eta)

lemma scheme_doc_ok_fields:
  "scheme_doc_ok d \<longleftrightarrow> sd_kind d \<le> ucast ANTS_PAYMENT_SCHEME_CUSTOM \<and> field_lengths (doc_mask d) d \<and> ants_payment_scheme_valid (scheme_of d)"
  by (auto simp: scheme_doc_ok_def field_lengths_def)

definition scheme_calls :: "scheme_doc \<Rightarrow> enc_call list" where
  "scheme_calls d = [CMap (scheme_pairs (doc_mask d))] @ [CUint 1, CUint (sd_kind d)] @ field_calls (doc_mask d) d"

lemma parser_scheme: "parser scheme_doc_body scheme_doc_ok scheme_calls"
proof (rule parser_cong)
  show "parser scheme_doc_body (\<lambda>d. (True \<and> (True \<and> scheme_doc_ok d)) \<and> True) scheme_calls"
    unfolding scheme_doc_body_def scheme_calls_def
  proof (rule parser_field [OF parser_norm [OF dec_map.prs.parser_axioms]], rule parser_field [OF parser_uint_field],
      rule parser_guard, rule parser_guard)
    fix n :: nat and k :: u64
    assume "\<not> ucast ANTS_PAYMENT_SCHEME_CUSTOM < k" "\<not> n \<noteq> scheme_pairs (scheme_field_mask (ucast k))"
    then show "parser (scheme_doc_fields k)
        (\<lambda>d. scheme_doc_ok d \<and> ((True \<and> scheme_pairs (doc_mask d) = n) \<and> sd_kind d = k)) (\<lambda>d. field_calls (doc_mask d) d)"
      by (intro parser_cong [OF parser_scheme_fields]) (auto simp: scheme_doc_ok_fields doc_mask_def)
  qed (auto simp: scheme_doc_ok_fields doc_mask_def)
qed auto

definition terms_doc_body :: "(ants_cbor_dec, terms_doc) reader" where
  "terms_doc_body =
    then_read (norm_read ants_cbor_dec_map) (\<lambda>n_pairs.
    if n_pairs \<noteq> 4 then read_fail ANTS_ERROR_MALFORMED else
    then_read (then_read (expect_key 1) (\<lambda>_. then_read (norm_read ants_cbor_dec_array) (\<lambda>n.
      if n > ANTS_PAYMENT_MAX_SCHEMES then read_fail ANTS_ERROR_MALFORMED else read_times n scheme_doc_body))) (\<lambda>schemes.
    then_read (decode_uint_field 2) (\<lambda>validity.
    then_read (decode_uint_field 3) (\<lambda>scope_u.
    if scope_u > ucast ANTS_PAYMENT_SCOPE_SUBSCRIPTION then read_fail ANTS_ERROR_MALFORMED else
    then_read (text_doc 4 ANTS_PAYMENT_NOTES_MAX) (\<lambda>notes.
    read_ret \<lparr>td_schemes = schemes, td_validity = validity, td_scope = scope_u, td_notes = notes\<rparr>)))))"

lemma then_read_assoc: "then_read (then_read m f) g = then_read m (\<lambda>x. then_read (f x) g)"
  by (auto simp: then_read_def fun_eq_iff split: prod.splits sum.splits)

lemma then_read_fail: "then_read (read_fail e) f = read_fail e"
  by (simp add: then_read_def read_fail_def fun_eq_iff)

lemma then_read_if: "then_read (if b then m else m') f = (if b then then_read m f else then_read m' f)"
  by simp

lemma read_times_length: "read_times n m s = (Inr xs, s') \<Longrightarrow> length xs = n"
  by (induction n arbitrary: s xs) (auto simp: read_ret_def then_read_Inr)

lemma read_times_cong: "(\<And>xs. length xs = n \<Longrightarrow> f xs = g xs) \<Longrightarrow> then_read (read_times n m) f = then_read (read_times n m) g"
  by (auto simp: then_read_def fun_eq_iff split: prod.splits sum.splits dest: read_times_length)

lemma then_cong: "(\<And>x. f x = g x) \<Longrightarrow> then_read m f = then_read m g"
  by (rule arg_cong [where f = "then_read m"]) (rule ext)

lemma payment_terms_doc: "payment_terms_body = map_read terms_of terms_doc_body"
  unfolding payment_terms_body_def terms_doc_body_def decode_scheme_doc read_times_map then_map_read then_read_assoc
  by (simp only: map_read_then map_read_basic then_read_if then_read_fail if_cancel cong: if_cong,
      rule then_cong, rule if_cong [OF refl refl], rule then_cong, rule then_cong, rule if_cong [OF refl refl], rule read_times_cong)
    (simp add: terms_of_def zero_terms_def decode_text_doc then_map_read map_read_then map_read_basic cong: if_cong)

lemma parser_terms:
  "parser terms_doc_body terms_doc_ok
    (\<lambda>d. [CMap 4] @ (CUint 1 # CArray (length (td_schemes d)) # concat (map scheme_calls (td_schemes d))) @
      [CUint 2, CUint (td_validity d)] @ [CUint 3, CUint (td_scope d)] @ [CUint 4, CText (td_notes d)] @ [])"
proof (rule parser_cong)
  show "parser terms_doc_body
    (\<lambda>d. ((length (td_schemes d) \<le> ANTS_PAYMENT_MAX_SCHEMES \<and> list_all scheme_doc_ok (td_schemes d)) \<and> (True \<and> (True \<and>
      (length (td_notes d) < ANTS_PAYMENT_NOTES_MAX \<and> True)))) \<and> td_scope d \<le> ucast ANTS_PAYMENT_SCOPE_SUBSCRIPTION)
    (\<lambda>d. [CMap 4] @ (CUint 1 # CArray (length (td_schemes d)) # concat (map scheme_calls (td_schemes d))) @
      [CUint 2, CUint (td_validity d)] @ [CUint 3, CUint (td_scope d)] @ [CUint 4, CText (td_notes d)] @ [])"
    unfolding terms_doc_body_def
    by (rule parser_expect [OF parser_norm [OF dec_map.prs.parser_axioms] TrueI],
        rule parser_field [OF parser_after_key [OF parser_bounded_array [OF parser_scheme]]],
        rule parser_field [OF parser_uint_field], rule parser_field [OF parser_uint_field], rule parser_guard,
        rule parser_field [OF parser_text_doc], rule parser_done) auto
qed (auto simp: terms_doc_ok_def)

section \<open>The documents that are accepted and written\<close>

lemma kind_cases:
  "(k :: u32) \<le> ANTS_PAYMENT_SCHEME_CUSTOM \<Longrightarrow> k = 0 \<or> k = 1 \<or> k = 2 \<or> k = 3 \<or> k = 4 \<or> k = 5"
  by (simp add: payment_kinds word_le_nat_alt word_unat_eq_iff) arith

lemma mask_fields:
  "has_field (scheme_field_mask k) F_AMOUNT \<longleftrightarrow> k = 2 \<or> k = 3"
  "has_field (scheme_field_mask k) F_CURRENCY \<longleftrightarrow> k = 2"
  "has_field (scheme_field_mask k) F_REF_A \<longleftrightarrow> k = 1 \<or> k = 2 \<or> k = 3 \<or> k = 4 \<or> k = 5"
  "has_field (scheme_field_mask k) F_REF_B \<longleftrightarrow> k = 4"
  by (auto simp: has_field_def scheme_field_mask_def payment_kinds field_bits)

lemma scheme_calls_item: "scheme_calls d = calls_of (scheme_item d)"
  by (simp add: scheme_calls_def field_calls_def scheme_item_def scheme_pairs_def)

lemma scheme_calls_eq: "scheme_calls = (\<lambda>d. calls_of (scheme_item d))"
  by (rule ext) (rule scheme_calls_item)

lemma scheme_item_wf:
  assumes "scheme_doc_ok d"
  shows "wf_item (scheme_item d)" "0 < h \<Longrightarrow> nests_within h (scheme_item d)"
  using assms by (auto simp: scheme_item_def scheme_doc_ok_def payment_sizes head_bytes_def split: if_splits)

lemma terms_item_wf:
  assumes "terms_doc_ok d"
  shows "wf_item (terms_item d) \<and> nests_within ANTS_CBOR_MAX_DEPTH (terms_item d)"
  using assms scheme_item_wf
  by (auto simp: terms_item_def terms_doc_ok_def list_all_iff payment_sizes head_bytes_def ANTS_CBOR_MAX_DEPTH_def)

lemma terms_doc_iff:
  "cbor_read_document terms_doc_body bs = Inr d \<longleftrightarrow> terms_doc_ok d \<and> bs = enc_item (terms_item d)"
proof (rule read_document_iff [OF parser_terms])
  fix d
  assume "terms_doc_ok d"
  from terms_item_wf [OF this]
  show "[CMap 4] @ (CUint 1 # CArray (length (td_schemes d)) # concat (map scheme_calls (td_schemes d))) @
      [CUint 2, CUint (td_validity d)] @ [CUint 3, CUint (td_scope d)] @ [CUint 4, CText (td_notes d)] @ [] =
      calls_of (terms_item d) \<and> wf_item (terms_item d) \<and> nests_within ANTS_CBOR_MAX_DEPTH (terms_item d)"
    by (simp only: simp_thms) (simp add: terms_item_def scheme_calls_eq o_def)
qed

lemma terms_decode_iff:
  "ants_payment_terms_decode bs = Inr t \<longleftrightarrow> (\<exists>d. terms_doc_ok d \<and> bs = enc_item (terms_item d) \<and> t = terms_of d)"
proof -
  have "ants_payment_terms_decode bs = Inr t \<longleftrightarrow> (\<exists>d. cbor_read_document terms_doc_body bs = Inr d \<and> t = terms_of d)"
    unfolding ants_payment_terms_decode_def read_document_run payment_terms_doc
    by (auto simp: map_read_def then_read_Inr read_ret_def)
  then show ?thesis unfolding terms_doc_iff by blast
qed

lemma c_str_length: "field_terminated s cap \<Longrightarrow> length (c_str s) < cap"
proof -
  assume "field_terminated s cap"
  then obtain i where i: "i < cap" "i < length s" "s ! i = 0" by (auto simp: field_terminated_def in_set_conv_nth)
  then have "\<not> i < length (c_str s)" using nth_length_takeWhile set_takeWhileD by (metis (full_types) c_str_def nth_mem takeWhile_nth)
  then show "length (c_str s) < cap" using i by linarith
qed

lemma c_str_first: "field_terminated s cap \<Longrightarrow> c_str s = [] \<longleftrightarrow> s ! 0 = 0"
  by (cases s) (simp_all add: field_terminated_def c_str_def)

lemma c_str_no_nul: "0 \<notin> set (c_str s)"
  using set_takeWhileD by (fastforce simp: c_str_def)

lemma pad_terminated: "length p < cap \<Longrightarrow> field_terminated (pad cap p) cap"
  by (simp add: field_terminated_def pad_def)

lemma pad_first: "length p < cap \<Longrightarrow> 0 \<notin> set p \<Longrightarrow> pad cap p ! 0 = 0 \<longleftrightarrow> p = []"
  by (cases p) (auto simp: pad_def)

lemma c_str_pad: "length p < cap \<Longrightarrow> 0 \<notin> set p \<Longrightarrow> c_str (pad cap p) = p"
  unfolding c_str_def pad_def by (subst takeWhile_append2) (auto simp: takeWhile_eq_Nil_iff)

lemma scheme_valid_iff:
  "ants_payment_scheme_valid s \<longleftrightarrow> kind_valid (ps_kind s) \<and> field_terminated (ps_currency s) ANTS_PAYMENT_CURRENCY_MAX \<and>
    field_terminated (ps_ref_a s) ANTS_PAYMENT_REF_MAX \<and> field_terminated (ps_ref_b s) ANTS_PAYMENT_REF_MAX \<and>
    (ps_amount s \<noteq> 0 \<longrightarrow> ps_kind s = 2 \<or> ps_kind s = 3) \<and> (ps_currency s ! 0 \<noteq> 0 \<longleftrightarrow> ps_kind s = 2) \<and>
    (ps_ref_a s ! 0 \<noteq> 0 \<longrightarrow> ps_kind s \<noteq> 0) \<and> (ps_ref_b s ! 0 \<noteq> 0 \<longrightarrow> ps_kind s = 4)"
  using kind_cases [of "ps_kind s"]
  unfolding ants_payment_scheme_valid_def Let_def mask_fields kind_valid_def ANTS_PAYMENT_SCHEME_FIAT_STRIPE_def by auto

lemma kind_round: "ucast (ucast (k :: u32) :: u64) = k"
  by transfer (simp add: take_bit_take_bit)

lemma doc_scheme_ok:
  assumes "ants_payment_scheme_valid s"
  shows "scheme_doc_ok (doc_scheme s)" "doc_scheme (scheme_of (doc_scheme s)) = doc_scheme s"
proof -
  note v = assms [unfolded scheme_valid_iff]
  have t: "field_terminated (ps_currency s) ANTS_PAYMENT_CURRENCY_MAX" "field_terminated (ps_ref_a s) ANTS_PAYMENT_REF_MAX"
      "field_terminated (ps_ref_b s) ANTS_PAYMENT_REF_MAX"
    using v by blast+
  have len: "length (c_str (ps_currency s)) < ANTS_PAYMENT_CURRENCY_MAX" "length (c_str (ps_ref_a s)) < ANTS_PAYMENT_REF_MAX"
      "length (c_str (ps_ref_b s)) < ANTS_PAYMENT_REF_MAX"
    by (simp_all add: c_str_length t)
  have first: "c_str (ps_currency s) = [] \<longleftrightarrow> ps_currency s ! 0 = 0" "c_str (ps_ref_a s) = [] \<longleftrightarrow> ps_ref_a s ! 0 = 0"
      "c_str (ps_ref_b s) = [] \<longleftrightarrow> ps_ref_b s ! 0 = 0"
    using c_str_first [OF t(1)] c_str_first [OF t(2)] c_str_first [OF t(3)] by blast+
  show "doc_scheme (scheme_of (doc_scheme s)) = doc_scheme s"
    using len by (simp add: doc_scheme_def scheme_of_def kind_round c_str_pad c_str_no_nul)
  have "ucast (ps_kind s) \<le> (ucast ANTS_PAYMENT_SCHEME_CUSTOM :: u64)"
    using v kind_cases [of "ps_kind s"] by (auto simp: kind_valid_def payment_kinds)
  moreover have "ants_payment_scheme_valid (scheme_of (doc_scheme s))"
    using v unfolding scheme_valid_iff scheme_of_def doc_scheme_def ants_payment_scheme.simps scheme_doc.simps kind_round
      pad_first [OF len(1) c_str_no_nul] pad_first [OF len(2) c_str_no_nul] pad_first [OF len(3) c_str_no_nul] first
    by (simp add: pad_terminated len)
  ultimately show "scheme_doc_ok (doc_scheme s)"
    unfolding scheme_doc_ok_def doc_mask_def mask_fields
    using v len first kind_cases [OF conjunct1 [OF v, unfolded kind_valid_def]]
    by (simp only: doc_scheme_def scheme_doc.simps kind_round if_bool_eq_conj) blast
qed

definition terms_valid :: "ants_payment_terms \<Rightarrow> bool" where
  "terms_valid t \<longleftrightarrow> pt_n_schemes t \<le> ANTS_PAYMENT_MAX_SCHEMES \<and> pt_n_schemes t \<le> length (pt_schemes t) \<and>
    pt_scope t \<le> ANTS_PAYMENT_SCOPE_SUBSCRIPTION \<and> field_terminated (pt_notes t) ANTS_PAYMENT_NOTES_MAX \<and>
    list_all ants_payment_scheme_valid (take (pt_n_schemes t) (pt_schemes t))"

lemma scope_wide: "(s :: u32) \<le> ANTS_PAYMENT_SCOPE_SUBSCRIPTION \<Longrightarrow> ucast s \<le> (ucast ANTS_PAYMENT_SCOPE_SUBSCRIPTION :: u64)"
  by (simp add: word_le_nat_alt unat_ucast_up payment_scopes)

lemma doc_terms_ok:
  assumes "terms_valid t"
  shows "terms_doc_ok (doc_terms t)" "doc_terms (terms_of (doc_terms t)) = doc_terms t"
proof -
  have d: "scheme_doc_ok (doc_scheme s)" "doc_scheme (scheme_of (doc_scheme s)) = doc_scheme s"
    if "s \<in> set (take (pt_n_schemes t) (pt_schemes t))" for s
    using that assms doc_scheme_ok [of s] by (auto simp: terms_valid_def list_all_iff)
  have n: "length (c_str (pt_notes t)) < ANTS_PAYMENT_NOTES_MAX"
    using assms by (simp add: terms_valid_def c_str_length)
  show "terms_doc_ok (doc_terms t)"
    using assms n d(1) by (auto simp: terms_doc_ok_def doc_terms_def list_all_iff terms_valid_def scope_wide)
  show "doc_terms (terms_of (doc_terms t)) = doc_terms t"
    using n d(2) by (simp add: doc_terms_def terms_of_def kind_round c_str_pad c_str_no_nul)
qed

lemma exec_scheme: "exec_calls (calls_of (scheme_item (doc_scheme s))) = enc_scheme s"
proof -
  let ?m = "scheme_field_mask (ps_kind s)"
  let ?css = "[[CMap (scheme_pairs ?m)], [CUint 1, CUint (ucast (ps_kind s))]]
       @ (if has_field ?m F_AMOUNT then [[CUint 2, CUint (ps_amount s)]] else [])
       @ (if has_field ?m F_CURRENCY then [[CUint 3, CText (c_str (ps_currency s))]] else [])
       @ (if has_field ?m F_REF_A then [[CUint 4, CText (c_str (ps_ref_a s))]] else [])
       @ (if has_field ?m F_REF_B then [[CUint 5, CText (c_str (ps_ref_b s))]] else [])"
  have "enc_scheme s = run_steps (map exec_calls ?css)"
    unfolding enc_scheme_def Let_def by (rule arg_cong [where f = run_steps]) (simp add: exec_single enc_kv_calls)
  also have "\<dots> = run_steps (map exec_call (scheme_calls (doc_scheme s)))"
    unfolding run_exec_calls
    by (rule arg_cong [where f = "\<lambda>cs. run_steps (map exec_call cs)"])
      (simp add: scheme_calls_def field_calls_def doc_mask_def doc_scheme_def kind_round)
  finally show ?thesis by (simp add: exec_calls_def scheme_calls_item)
qed

lemma terms_encode:
  "ants_payment_terms_encode buf t =
    (if terms_valid t then fits buf (enc_item (terms_item (doc_terms t))) else Inl ANTS_ERROR_INVALID_ARG)"
  if "pt_n_schemes t \<le> length (pt_schemes t)"
proof (cases "terms_valid t")
  case True
  note wf = terms_item_wf [OF doc_terms_ok(1) [OF True]]
  let ?ss = "take (pt_n_schemes t) (pt_schemes t)"
  have "cbor_document buf ([ants_cbor_enc_map 4, ants_cbor_enc_uint 1, ants_cbor_enc_array (pt_n_schemes t)] @ map enc_scheme ?ss @
      [enc_kv_uint 2 (pt_validity_unix_s t), enc_kv_uint 3 (ucast (pt_scope t)), enc_kv_text 4 (c_str (pt_notes t))]) =
      fits buf (enc_item (terms_item (doc_terms t)))"
    using that
    by (intro document_groups [OF conjunct1 [OF wf] conjunct2 [OF wf],
        where css = "[[CMap 4], [CUint 1], [CArray (pt_n_schemes t)]] @ map (\<lambda>s. scheme_calls (doc_scheme s)) ?ss @
          [[CUint 2, CUint (pt_validity_unix_s t)], [CUint 3, CUint (ucast (pt_scope t))], [CUint 4, CText (c_str (pt_notes t))]]"])
      (simp_all add: enc_kv_calls exec_single exec_scheme terms_item_def doc_terms_def scheme_calls_eq o_def)
  with True show ?thesis by (auto simp: ants_payment_terms_encode_def terms_valid_def)
next
  case False
  with that show ?thesis by (auto simp: ants_payment_terms_encode_def terms_valid_def)
qed

lemma scope_narrow: "(s :: u64) \<le> ucast ANTS_PAYMENT_SCOPE_SUBSCRIPTION \<Longrightarrow> ucast s \<le> ANTS_PAYMENT_SCOPE_SUBSCRIPTION"
  by (auto simp: word_le_nat_alt unsigned_ucast_eq payment_scopes unsigned_take_bit_eq take_bit_nat_def intro: order_trans [OF mod_less_eq_dividend])

lemma terms_of_valid: "terms_doc_ok d \<Longrightarrow> terms_valid (terms_of d)"
  by (auto simp: terms_valid_def terms_doc_ok_def terms_of_def list_all_iff scheme_doc_ok_def scope_narrow pad_terminated)

section \<open>Sizes\<close>

lemma head_bytes_of_nat:
  "n < 24 \<Longrightarrow> length (head_bytes m (of_nat n)) = 1" "n < 256 \<Longrightarrow> length (head_bytes m (of_nat n)) \<le> 2"
  by (simp_all add: head_bytes_length word_less_nat_alt unat_of_nat)

lemma text_size: "length b < 256 \<Longrightarrow> length (enc_item (TextStr b)) \<le> length b + 2"
  using head_bytes_of_nat(2) [of "length b" 3] by simp

lemma uint_size: "length (enc_item (UInt v)) \<le> 9" "v < 24 \<Longrightarrow> length (enc_item (UInt v)) = 1"
  by (simp_all add: head_bytes_length)

lemma scheme_size:
  assumes "scheme_doc_ok d"
  shows "length (enc_item (scheme_item d)) \<le> 263"
proof -
  have k: "sd_kind d < 24" using assms by (simp add: scheme_doc_ok_def payment_kinds word_le_nat_alt word_less_nat_alt)
  have t: "length (enc_item (TextStr (sd_currency d))) \<le> 9" "length (enc_item (TextStr (sd_ref_a d))) \<le> 129"
      "length (enc_item (TextStr (sd_ref_b d))) \<le> 129"
    using assms text_size [of "sd_currency d"] text_size [of "sd_ref_a d"] text_size [of "sd_ref_b d"]
    by (auto simp: scheme_doc_ok_def payment_sizes split: if_splits)
  show ?thesis
    using t uint_size(1) [of "sd_amount d"] uint_size(2) [OF k]
    by (auto simp: scheme_item_def doc_mask_def mask_fields head_bytes_length)
qed

lemma schemes_size: "list_all scheme_doc_ok ds \<Longrightarrow> length (concat (map (\<lambda>d. enc_item (scheme_item d)) ds)) \<le> 263 * length ds"
  using scheme_size by (induction ds) fastforce+

lemma terms_size:
  assumes "terms_doc_ok d"
  shows "length (enc_item (terms_item d)) \<le> 2377"
proof -
  have n: "length (td_schemes d) \<le> 8" "length (td_notes d) < 256" "td_scope d < 24"
    using assms by (simp_all add: terms_doc_ok_def payment_sizes payment_scopes word_le_nat_alt word_less_nat_alt)
  have "length (concat (map (\<lambda>d. enc_item (scheme_item d)) (td_schemes d))) \<le> 263 * 8"
    using assms n(1) schemes_size [of "td_schemes d"] by (auto simp: terms_doc_ok_def)
  moreover have "length (head_bytes 4 (of_nat (length (td_schemes d)))) = 1" using n(1) by (intro head_bytes_of_nat) simp
  ultimately show ?thesis
    using text_size [OF n(2)] n(2) uint_size(1) [of "td_validity d"] uint_size(2) [OF n(3)]
    by (simp add: terms_item_def o_def head_bytes_length)
qed

section \<open>Building terms\<close>

definition add_schemes :: "ants_payment_scheme list \<Rightarrow> ants_payment_terms step" where
  "add_schemes ss = run_steps (map ants_payment_terms_add_scheme ss)"

lemma add_scheme_valid:
  assumes "terms_valid t" "length (pt_schemes t) = ANTS_PAYMENT_MAX_SCHEMES" "ants_payment_terms_add_scheme s t = (rc, t')"
  shows "terms_valid t' \<and> length (pt_schemes t') = ANTS_PAYMENT_MAX_SCHEMES \<and>
    take (pt_n_schemes t') (pt_schemes t') = take (pt_n_schemes t) (pt_schemes t) @ (if rc = ANTS_OK then [s] else [])"
  using assms
  by (auto simp: ants_payment_terms_add_scheme_def terms_valid_def take_list_update_snoc split: if_splits)

lemma init_valid:
  "terms_valid ants_payment_terms_init" "length (pt_schemes ants_payment_terms_init) = ANTS_PAYMENT_MAX_SCHEMES"
  "pt_n_schemes ants_payment_terms_init = 0"
  by (simp_all add: ants_payment_terms_init_def zero_terms_def terms_valid_def field_terminated_def payment_sizes payment_scopes
    numeral_eq_Suc)

lemma add_schemes_valid:
  assumes "terms_valid t" "length (pt_schemes t) = ANTS_PAYMENT_MAX_SCHEMES" "add_schemes ss t = (rc, t')"
  shows "terms_valid t' \<and> length (pt_schemes t') = ANTS_PAYMENT_MAX_SCHEMES \<and>
    (rc = ANTS_OK \<longrightarrow> take (pt_n_schemes t') (pt_schemes t') = take (pt_n_schemes t) (pt_schemes t) @ ss)"
  using assms
proof (induction ss arbitrary: t)
  case (Cons s ss)
  obtain rc1 t1 where s: "ants_payment_terms_add_scheme s t = (rc1, t1)" by fastforce
  note v = add_scheme_valid [OF Cons.prems(1,2) s]
  show ?case
  proof (cases "rc1 = ANTS_OK")
    case True
    with Cons.prems(3) s have "add_schemes ss t1 = (rc, t')" by (simp add: add_schemes_def)
    with Cons.IH [of t1] v True show ?thesis by simp
  next
    case False
    with Cons.prems(3) s have "rc = rc1" "t' = t1" by (simp_all add: add_schemes_def)
    with v False show ?thesis by simp
  qed
qed (simp add: add_schemes_def)

section \<open>Properties\<close>

text \<open>C15. Encoding valid payment terms and decoding the bytes gives back the same schemes, texts,
  validity and scope (up to what the buffers hold behind a text's terminator).\<close>

theorem payment_terms_round_trip:
  assumes "terms_valid t" "ants_payment_terms_encode buf t = Inr bs"
  shows "ants_payment_terms_decode bs = Inr (terms_of (doc_terms t)) \<and> doc_terms (terms_of (doc_terms t)) = doc_terms t"
proof -
  have "bs = enc_item (terms_item (doc_terms t))"
    using assms by (auto simp: terms_encode terms_valid_def fits_def split: if_splits)
  then show ?thesis using doc_terms_ok [OF assms(1)] by (auto simp: terms_decode_iff)
qed

text \<open>C16. Whatever the decoder accepts is a canonical document, and the decoded terms are valid:
  every scheme carries exactly the fields of its kind, so the terms can be encoded again.\<close>

theorem payment_decode_valid:
  assumes "ants_payment_terms_decode bs = Inr t"
  shows "ants_cbor_is_canonical bs = ANTS_OK \<and> terms_valid t"
proof -
  from assms obtain d where d: "terms_doc_ok d" "bs = enc_item (terms_item d)" "t = terms_of d"
    unfolding terms_decode_iff by blast
  then show ?thesis using terms_item_wf [OF d(1)] terms_of_valid [OF d(1)] unfolding is_canonical_iff by blast
qed

text \<open>A buffer of 2560 bytes is always enough to encode valid payment terms: the worst case
  is 2377 bytes.\<close>

theorem payment_encoded_max_enough:
  assumes "terms_valid t" "ANTS_PAYMENT_ENCODED_MAX \<le> length buf"
  shows "\<exists>bs. ants_payment_terms_encode buf t = Inr bs \<and> length bs \<le> 2377"
proof -
  have "length (enc_item (terms_item (doc_terms t))) \<le> 2377" by (rule terms_size [OF doc_terms_ok(1) [OF assms(1)]])
  then show ?thesis
    using assms by (auto simp: terms_encode terms_valid_def fits_def ANTS_PAYMENT_ENCODED_MAX_def)
qed

text \<open>Terms built from the initial object by any sequence of additions stay valid, whether the
  additions succeed or not, and hold the added schemes in order when they all succeed; a
  rejected addition changes nothing.\<close>

theorem payment_building_valid:
  "case add_schemes ss ants_payment_terms_init of (rc, t) \<Rightarrow>
    terms_valid t \<and> (rc = ANTS_OK \<longrightarrow> take (pt_n_schemes t) (pt_schemes t) = ss)"
  using add_schemes_valid [OF init_valid(1,2), of ss] init_valid(3) by fastforce

text \<open>C17. Decoding is not injective: a text with an embedded NUL is accepted and stored, and the
  stored text ends at the NUL, so two different documents decode to the same terms.\<close>

theorem payment_embedded_nul_accepted:
  "\<exists>bs bs' t. bs \<noteq> bs' \<and> ants_payment_terms_decode bs = Inr t \<and> ants_payment_terms_decode bs' = Inr t"
proof -
  define d where "d p = \<lparr>td_schemes = [], td_validity = 0, td_scope = 0, td_notes = p\<rparr>" for p
  have ok: "terms_doc_ok (d [])" "terms_doc_ok (d [0])"
    by (simp_all add: d_def terms_doc_ok_def payment_sizes payment_scopes)
  have same: "terms_of (d [0]) = terms_of (d [])"
    by (simp add: d_def terms_of_def pad_def payment_sizes numeral_eq_Suc)
  have "enc_item (terms_item (d [])) \<noteq> enc_item (terms_item (d [0]))"
    by (simp add: d_def terms_item_def head_bytes_def)
  moreover have "ants_payment_terms_decode (enc_item (terms_item (d []))) = Inr (terms_of (d []))"
    using ok(1) by (auto simp only: terms_decode_iff)
  moreover have "ants_payment_terms_decode (enc_item (terms_item (d [0]))) = Inr (terms_of (d []))"
    using ok(2) same by (metis terms_decode_iff)
  ultimately show ?thesis by blast
qed

section \<open>Witnesses\<close>

definition sample_scheme :: ants_payment_scheme where
  "sample_scheme = zero_scheme\<lparr>ps_kind := ANTS_PAYMENT_SCHEME_FIAT_LIGHTNING, ps_amount := 21,
    ps_ref_a := [0x6c, 0x6e] @ replicate 126 0\<rparr>"

definition sample_terms :: ants_payment_terms where
  "sample_terms = snd (ants_payment_terms_add_scheme sample_scheme ants_payment_terms_init)"

theorem payment_terms_round_trip_witness:
  "\<exists>bs. ants_payment_terms_encode (replicate 100 0) sample_terms = Inr bs \<and>
    (\<exists>t. ants_payment_terms_decode bs = Inr t \<and> doc_terms t = doc_terms sample_terms)"
proof -
  have v: "terms_valid sample_terms" by code_simp
  have "\<not> isl (ants_payment_terms_encode (replicate 100 0) sample_terms)" by code_simp
  then obtain bs where "ants_payment_terms_encode (replicate 100 0) sample_terms = Inr bs" using sum.collapse(2) by metis
  with payment_terms_round_trip [OF v this] show ?thesis by blast
qed

theorem payment_decode_valid_witness:
  "\<exists>t. ants_payment_terms_decode [0xa4, 1, 0x80, 2, 0, 3, 1, 4, 0x60] = Inr t \<and> terms_valid t"
proof -
  have "\<not> isl (ants_payment_terms_decode [0xa4, 1, 0x80, 2, 0, 3, 1, 4, 0x60])" by code_simp
  then obtain t where "ants_payment_terms_decode [0xa4, 1, 0x80, 2, 0, 3, 1, 4, 0x60] = Inr t" using sum.collapse(2) by metis
  with payment_decode_valid [OF this] show ?thesis by blast
qed

theorem payment_encoded_max_enough_witness:
  "\<exists>bs. ants_payment_terms_encode (replicate ANTS_PAYMENT_ENCODED_MAX 0) sample_terms = Inr bs \<and> length bs \<le> 2377"
proof -
  have v: "terms_valid sample_terms" by code_simp
  show ?thesis by (rule payment_encoded_max_enough [OF v]) simp
qed

theorem payment_building_valid_witness:
  "fst (add_schemes [sample_scheme] ants_payment_terms_init) = ANTS_OK \<and>
   take 1 (pt_schemes (snd (add_schemes [sample_scheme] ants_payment_terms_init))) = [sample_scheme]"
proof -
  have "fst (add_schemes [sample_scheme] ants_payment_terms_init) = ANTS_OK"
      "pt_n_schemes (snd (add_schemes [sample_scheme] ants_payment_terms_init)) = 1" by code_simp+
  with payment_building_valid [of "[sample_scheme]"] show ?thesis by (simp add: case_prod_beta)
qed

end
