(* ===== verification/Fault_Proof.thy ===== *)
theory Fault_Proof
  imports Cbor_Fields
begin

text \<open>
  Self-authenticating fault proofs (the first half of \<^verbatim>\<open>src/reputation/crdt/src/crdt.c\<close>):
  the statement and proof encoders, the structural decoder of the envelope, and the
  verdict on a proof. BLAKE3 is the parameter \<open>H\<close> (incremental hashing of parts is the hash
  of their concatenation) and \<open>sig_ok pk msg sig\<close> says whether \<^verbatim>\<open>ants_ed25519_verify\<close> accepts.
\<close>

unbundle bit_operations_syntax

section \<open>Definitions\<close>

definition ANTS_CRDT_PEER_ID_SIZE :: nat where "ANTS_CRDT_PEER_ID_SIZE = 32"
definition ANTS_CRDT_SIG_SIZE :: nat where "ANTS_CRDT_SIG_SIZE = 64"
definition ANTS_CRDT_CONTENT_ID_SIZE :: nat where "ANTS_CRDT_CONTENT_ID_SIZE = 32"
definition ANTS_FAULT_EQUIVOCATION :: u64 where "ANTS_FAULT_EQUIVOCATION = 0"
definition ANTS_FAULT_INVALID_TRANSITION :: u64 where "ANTS_FAULT_INVALID_TRANSITION = 1"
definition ANTS_FAULT_RESERVED_MIN :: u64 where "ANTS_FAULT_RESERVED_MIN = 2"
definition CP_MERKLE_LEAF_PREFIX :: u8 where "CP_MERKLE_LEAF_PREFIX = 0x00"
definition CP_MERKLE_NODE_PREFIX :: u8 where "CP_MERKLE_NODE_PREFIX = 0x01"
definition CP_MERKLE_MAX_DEPTH :: nat where "CP_MERKLE_MAX_DEPTH = 32"

lemmas crdt_sizes = ANTS_CRDT_PEER_ID_SIZE_def ANTS_CRDT_SIG_SIZE_def ANTS_CRDT_CONTENT_ID_SIZE_def
lemmas fault_types = ANTS_FAULT_EQUIVOCATION_def ANTS_FAULT_INVALID_TRANSITION_def ANTS_FAULT_RESERVED_MIN_def

record stmt =
  st_domain :: u64
  st_epoch :: u64
  st_slot :: u64
  st_payload :: bytes

record ants_fault_proof_view =
  fv_subject :: bytes
  fv_fault_type :: u64
  fv_epoch :: u64
  fv_evidence :: bytes

subsection \<open>Encoders\<close>

definition ants_crdt_statement_encode :: "stmt \<Rightarrow> bytes \<Rightarrow> bytes res" where
  "ants_crdt_statement_encode s buf =
    cbor_document buf
      [ants_cbor_enc_map 4,
       ants_cbor_enc_uint 0, ants_cbor_enc_uint (st_domain s),
       ants_cbor_enc_uint 1, ants_cbor_enc_uint (st_epoch s),
       ants_cbor_enc_uint 2, ants_cbor_enc_uint (st_slot s),
       ants_cbor_enc_uint 3, ants_cbor_enc_bytes (st_payload s)]"

definition enc_stmt_element :: "bytes \<Rightarrow> bytes \<Rightarrow> ants_cbor_enc step" where
  "enc_stmt_element body sig = run_steps [ants_cbor_enc_array 2, ants_cbor_enc_bytes body, ants_cbor_enc_bytes sig]"

definition ants_crdt_equivocation_encode ::
  "bytes \<Rightarrow> u64 \<Rightarrow> bytes \<Rightarrow> bytes \<Rightarrow> bytes \<Rightarrow> bytes \<Rightarrow> bytes \<Rightarrow> bytes res" where
  "ants_crdt_equivocation_encode subject epoch body_a sig_a body_b sig_b buf =
    (if length body_a = 0 \<or> length body_b = 0 then Inl ANTS_ERROR_INVALID_ARG
     else cbor_document buf
      [ants_cbor_enc_map 4,
       ants_cbor_enc_uint 0, ants_cbor_enc_bytes subject,
       ants_cbor_enc_uint 1, ants_cbor_enc_uint ANTS_FAULT_EQUIVOCATION,
       ants_cbor_enc_uint 2, ants_cbor_enc_uint epoch,
       ants_cbor_enc_uint 3, ants_cbor_enc_array 2,
       enc_stmt_element body_a sig_a,
       enc_stmt_element body_b sig_b])"

definition ants_crdt_invalid_transition_encode ::
  "bytes \<Rightarrow> u64 \<Rightarrow> bytes \<Rightarrow> bytes \<Rightarrow> bytes \<Rightarrow> u64 \<Rightarrow> u64 \<Rightarrow> bytes \<Rightarrow> bytes \<Rightarrow> bytes res" where
  "ants_crdt_invalid_transition_encode subject epoch block sig cited leaf_index n_leaves path buf =
    (if length block = 0 \<or> length cited = 0 then Inl ANTS_ERROR_INVALID_ARG
     else if n_leaves = 0 \<or> leaf_index \<ge> n_leaves then Inl ANTS_ERROR_INVALID_ARG
     else cbor_document buf
      [ants_cbor_enc_map 4,
       ants_cbor_enc_uint 0, ants_cbor_enc_bytes subject,
       ants_cbor_enc_uint 1, ants_cbor_enc_uint ANTS_FAULT_INVALID_TRANSITION,
       ants_cbor_enc_uint 2, ants_cbor_enc_uint epoch,
       ants_cbor_enc_uint 3, ants_cbor_enc_array 6,
       ants_cbor_enc_bytes block, ants_cbor_enc_bytes sig, ants_cbor_enc_bytes cited,
       ants_cbor_enc_uint leaf_index, ants_cbor_enc_uint n_leaves, ants_cbor_enc_bytes path])"

definition ants_crdt_content_id :: "(bytes \<Rightarrow> bytes) \<Rightarrow> bytes \<Rightarrow> bytes res" where
  "ants_crdt_content_id H buf = (if length buf = 0 then Inl ANTS_ERROR_INVALID_ARG else Inr (H buf))"

subsection \<open>Decode helpers\<close>

text \<open>\<^verbatim>\<open>if (f(...) != ANTS_OK) return ANTS_ERROR_MALFORMED;\<close>\<close>

definition mal_read :: "('s, 'a) reader \<Rightarrow> ('s, 'a) reader" where
  "mal_read m s = (case m s of (Inl e, s') \<Rightarrow> (Inl ANTS_ERROR_MALFORMED, s') | (Inr x, s') \<Rightarrow> (Inr x, s'))"

definition dec_uint_val :: "(ants_cbor_dec, u64) reader" where
  "dec_uint_val d =
    (if ants_cbor_dec_peek_type d \<noteq> Inr TYPE_UINT then (Inl ANTS_ERROR_MALFORMED, d)
     else mal_read ants_cbor_dec_uint d)"

definition dec_expect_key :: "u64 \<Rightarrow> (ants_cbor_dec, unit) reader" where
  "dec_expect_key expected d =
    (if ants_cbor_dec_peek_type d \<noteq> Inr TYPE_UINT then (Inl ANTS_ERROR_MALFORMED, d)
     else then_read (mal_read ants_cbor_dec_uint)
       (\<lambda>k. if k \<noteq> expected then read_fail ANTS_ERROR_MALFORMED else read_ret ()) d)"

definition dec_bytes_val :: "(ants_cbor_dec, bytes) reader" where
  "dec_bytes_val d =
    (if ants_cbor_dec_peek_type d \<noteq> Inr TYPE_BYTES then (Inl ANTS_ERROR_MALFORMED, d)
     else mal_read ants_cbor_dec_bytes d)"

text \<open>A key and its value, and a container of a fixed size.\<close>

definition keyed_read :: "u64 \<Rightarrow> (ants_cbor_dec, 'a) reader \<Rightarrow> (ants_cbor_dec, 'a) reader" where
  "keyed_read key m = then_read (dec_expect_key key) (\<lambda>_. m)"

definition sized_read :: "(ants_cbor_dec, nat) reader \<Rightarrow> nat \<Rightarrow> (ants_cbor_dec, 'a) reader \<Rightarrow> (ants_cbor_dec, 'a) reader" where
  "sized_read open n m = then_read (mal_read open) (\<lambda>k. if k \<noteq> n then read_fail ANTS_ERROR_MALFORMED else m)"

definition bytes_of_size :: "nat \<Rightarrow> (ants_cbor_dec, bytes) reader" where
  "bytes_of_size n = then_read dec_bytes_val (\<lambda>b. if length b \<noteq> n then read_fail ANTS_ERROR_MALFORMED else read_ret b)"

text \<open>\<^verbatim>\<open>dec_init\<close>, the reads, \<^verbatim>\<open>dec_finalise\<close>.\<close>

definition mal_document :: "(ants_cbor_dec, 'a) reader \<Rightarrow> bytes \<Rightarrow> 'a res" where
  "mal_document body buf =
    (case body (ants_cbor_dec_init buf) of
       (Inl e, d) \<Rightarrow> Inl e
     | (Inr x, d) \<Rightarrow> if ants_cbor_dec_finalise d \<noteq> ANTS_OK then Inl ANTS_ERROR_MALFORMED else Inr x)"

definition decode_statement :: "bytes \<Rightarrow> stmt res" where
  "decode_statement body =
    (if ants_cbor_is_canonical body \<noteq> ANTS_OK then Inl ANTS_ERROR_MALFORMED
     else mal_document
       (sized_read ants_cbor_dec_map 4
         (then_read (keyed_read 0 dec_uint_val) (\<lambda>domain.
          then_read (keyed_read 1 dec_uint_val) (\<lambda>epoch.
          then_read (keyed_read 2 dec_uint_val) (\<lambda>slot.
          then_read (keyed_read 3 dec_bytes_val) (\<lambda>payload.
          read_ret \<lparr>st_domain = domain, st_epoch = epoch, st_slot = slot, st_payload = payload\<rparr>))))))
       body)"

subsection \<open>The envelope\<close>

definition ants_crdt_fault_proof_decode :: "bytes \<Rightarrow> ants_fault_proof_view res" where
  "ants_crdt_fault_proof_decode buf =
    (if length buf = 0 then Inl ANTS_ERROR_INVALID_ARG
     else if ants_cbor_is_canonical buf \<noteq> ANTS_OK then Inl (ants_cbor_is_canonical buf)
     else
       case sized_read ants_cbor_dec_map 4
         (then_read (keyed_read 0 (bytes_of_size ANTS_CRDT_PEER_ID_SIZE)) (\<lambda>subject.
          then_read (keyed_read 1 dec_uint_val) (\<lambda>fault_type.
          then_read (keyed_read 2 dec_uint_val) (\<lambda>epoch.
          then_read (dec_expect_key 3) (\<lambda>_.
          read_ret (subject, fault_type, epoch)))))) (ants_cbor_dec_init buf) of
         (Inl e, d) \<Rightarrow> Inl e
       | (Inr (subject, fault_type, epoch), d) \<Rightarrow>
           let ev_start = ants_cbor_dec_pos d in
           if ev_start \<ge> length buf then Inl ANTS_ERROR_MALFORMED
           else Inr \<lparr>fv_subject = subject, fv_fault_type = fault_type, fv_epoch = epoch, fv_evidence = drop ev_start buf\<rparr>)"

subsection \<open>Equivocation\<close>

text \<open>The second walk over the envelope discards what it reads before the evidence.\<close>

definition equivocation_walk :: "(ants_cbor_dec, (bytes \<times> u64 \<times> u64) \<times> (bytes \<times> bytes) list) reader" where
  "equivocation_walk =
    sized_read ants_cbor_dec_map 4
      (then_read (keyed_read 0 dec_bytes_val) (\<lambda>b.
       then_read (keyed_read 1 dec_uint_val) (\<lambda>t.
       then_read (keyed_read 2 dec_uint_val) (\<lambda>e.
       then_read (keyed_read 3 (sized_read ants_cbor_dec_array 2
         (read_times 2 (sized_read ants_cbor_dec_array 2
           (then_read dec_bytes_val (\<lambda>body.
            then_read (bytes_of_size ANTS_CRDT_SIG_SIZE) (\<lambda>sig. read_ret (body, sig)))))))) (\<lambda>stmts.
       read_ret ((b, t, e), stmts))))))"

definition verify_equivocation :: "(bytes \<Rightarrow> bytes \<Rightarrow> bytes \<Rightarrow> bool) \<Rightarrow> bytes \<Rightarrow> bytes \<Rightarrow> u64 \<Rightarrow> ants_error" where
  "verify_equivocation sig_ok buf subject env_epoch =
    (case mal_document equivocation_walk buf of Inl e \<Rightarrow> e | Inr (_, stmts) \<Rightarrow>
     let (body0, sig0) = stmts ! 0; (body1, sig1) = stmts ! 1 in
     case decode_statement body0 of Inl e \<Rightarrow> e | Inr st0 \<Rightarrow>
     case decode_statement body1 of Inl e \<Rightarrow> e | Inr st1 \<Rightarrow>
     if st_epoch st0 \<noteq> env_epoch \<or> st_epoch st1 \<noteq> env_epoch then ANTS_ERROR_MALFORMED
     else if st_domain st0 \<noteq> st_domain st1 \<or> st_slot st0 \<noteq> st_slot st1 then ANTS_ERROR_MALFORMED
     else if length (st_payload st0) = length (st_payload st1) \<and>
       memcmp (st_payload st0) (st_payload st1) (length (st_payload st0)) = 0 then ANTS_ERROR_MALFORMED
     else if \<not> sig_ok subject body0 sig0 then ANTS_ERROR_MALFORMED
     else if \<not> sig_ok subject body1 sig1 then ANTS_ERROR_MALFORMED
     else ANTS_OK)"

subsection \<open>The Merkle path\<close>

definition cp_leaf_hash :: "(bytes \<Rightarrow> bytes) \<Rightarrow> bytes \<Rightarrow> bytes" where
  "cp_leaf_hash H leaf_id = H (CP_MERKLE_LEAF_PREFIX # leaf_id)"

definition cp_node_hash :: "(bytes \<Rightarrow> bytes) \<Rightarrow> bytes \<Rightarrow> bytes \<Rightarrow> bytes" where
  "cp_node_hash H left right = H (CP_MERKLE_NODE_PREFIX # left @ right)"

lemma halve_less: "(count :: u64) > 1 \<Longrightarrow> unat ((count + 1) div 2) < unat count"
proof -
  assume "count > 1"
  then have "1 < unat count" by (simp add: word_less_nat_alt)
  moreover have "unat ((count + 1) div 2) = (unat count + 1) mod 2 ^ 64 div 2" by (simp add: unat_div unat_word_ariths)
  moreover have "(unat count + 1) mod 2 ^ 64 \<le> unat count + 1" by simp
  ultimately show ?thesis by linarith
qed

function cp_path_len :: "u64 \<Rightarrow> u64 \<Rightarrow> nat" where
  "cp_path_len idx count =
    (if count > 1 then
       (if idx AND 1 = 1 then 1 else if idx + 1 < count then 1 else 0) + cp_path_len (idx div 2) ((count + 1) div 2)
     else 0)"
  by auto
termination
  by (relation "measure (\<lambda>(idx, count). unat count)") (simp_all add: halve_less)

declare cp_path_len.simps [simp del]

text \<open>\<open>path\<close> is what is left of the siblings.\<close>

function cp_fold_loop :: "(bytes \<Rightarrow> bytes) \<Rightarrow> bytes \<Rightarrow> bytes \<Rightarrow> u64 \<Rightarrow> u64 \<Rightarrow> bytes" where
  "cp_fold_loop H cur path idx count =
    (if count > 1 then
       let sib = take ANTS_CRDT_CONTENT_ID_SIZE path; path' = drop ANTS_CRDT_CONTENT_ID_SIZE path in
       if idx AND 1 = 1 then cp_fold_loop H (cp_node_hash H sib cur) path' (idx div 2) ((count + 1) div 2)
       else if idx + 1 < count then cp_fold_loop H (cp_node_hash H cur sib) path' (idx div 2) ((count + 1) div 2)
       else cp_fold_loop H cur path (idx div 2) ((count + 1) div 2)
     else cur)"
  by auto
termination
  by (relation "measure (\<lambda>(H, cur, path, idx, count). unat count)") (simp_all add: halve_less)

declare cp_fold_loop.simps [simp del]

definition cp_fold_to_root :: "(bytes \<Rightarrow> bytes) \<Rightarrow> bytes \<Rightarrow> u64 \<Rightarrow> u64 \<Rightarrow> bytes \<Rightarrow> bytes" where
  "cp_fold_to_root H leaf_id index n_leaves path = cp_fold_loop H (cp_leaf_hash H leaf_id) path index n_leaves"

subsection \<open>The block\<close>

text \<open>The walk over a block keeps every value it reads; only the epoch and the root are used.\<close>

record l2_finding =
  lf_subject :: bytes
  lf_rule :: u64
  lf_window :: u64
  lf_count :: u64
  lf_severity :: u64

record l2_summary =
  ls_epoch :: u64
  ls_cutoff :: u64
  ls_confirmed :: bytes
  ls_findings :: "l2_finding list"

record l2_block =
  lb_height :: u64
  lb_prev :: bytes
  lb_degraded :: bool
  lb_summary :: bytes

definition l2_block_walk :: "(ants_cbor_dec, l2_block) reader" where
  "l2_block_walk =
    sized_read ants_cbor_dec_map 4
      (then_read (keyed_read 1 dec_uint_val) (\<lambda>height.
       then_read (keyed_read 2 (bytes_of_size ANTS_CRDT_CONTENT_ID_SIZE)) (\<lambda>prev.
       then_read (keyed_read 3 (mal_read ants_cbor_dec_bool)) (\<lambda>degraded.
       then_read (keyed_read 4 dec_bytes_val) (\<lambda>sp.
       read_ret \<lparr>lb_height = height, lb_prev = prev, lb_degraded = degraded, lb_summary = sp\<rparr>)))))"

definition l2_finding_walk :: "(ants_cbor_dec, l2_finding) reader" where
  "l2_finding_walk =
    sized_read ants_cbor_dec_map 5
      (then_read (keyed_read 1 (bytes_of_size ANTS_CRDT_PEER_ID_SIZE)) (\<lambda>b.
       then_read (keyed_read 2 dec_uint_val) (\<lambda>rule.
       then_read (keyed_read 3 dec_uint_val) (\<lambda>window.
       then_read (keyed_read 4 dec_uint_val) (\<lambda>count.
       then_read (keyed_read 5 dec_uint_val) (\<lambda>severity.
       read_ret \<lparr>lf_subject = b, lf_rule = rule, lf_window = window, lf_count = count, lf_severity = severity\<rparr>))))))"

definition l2_summary_walk :: "(ants_cbor_dec, l2_summary) reader" where
  "l2_summary_walk =
    sized_read ants_cbor_dec_map 4
      (then_read (keyed_read 1 dec_uint_val) (\<lambda>epoch.
       then_read (keyed_read 2 dec_uint_val) (\<lambda>cutoff.
       then_read (keyed_read 3 (bytes_of_size ANTS_CRDT_CONTENT_ID_SIZE)) (\<lambda>root.
       then_read (keyed_read 4 (then_read (mal_read ants_cbor_dec_array) (\<lambda>nf. read_times nf l2_finding_walk))) (\<lambda>findings.
       read_ret \<lparr>ls_epoch = epoch, ls_cutoff = cutoff, ls_confirmed = root, ls_findings = findings\<rparr>)))))"

definition parse_block_summary :: "bytes \<Rightarrow> (u64 \<times> bytes) res" where
  "parse_block_summary block =
    (if ants_cbor_is_canonical block \<noteq> ANTS_OK then Inl ANTS_ERROR_MALFORMED else
     case mal_document l2_block_walk block of Inl e \<Rightarrow> Inl e | Inr b \<Rightarrow>
     if ants_cbor_is_canonical (lb_summary b) \<noteq> ANTS_OK then Inl ANTS_ERROR_MALFORMED else
     case mal_document l2_summary_walk (lb_summary b) of Inl e \<Rightarrow> Inl e | Inr s \<Rightarrow>
     Inr (ls_epoch s, ls_confirmed s))"

subsection \<open>The verdict\<close>

record it_evidence =
  ie_block :: bytes
  ie_sig :: bytes
  ie_cited :: bytes
  ie_leaf_index :: u64
  ie_n_leaves :: u64
  ie_path :: bytes

definition it_evidence_walk :: "(ants_cbor_dec, it_evidence) reader" where
  "it_evidence_walk =
    sized_read ants_cbor_dec_array 6
      (then_read dec_bytes_val (\<lambda>block.
       then_read dec_bytes_val (\<lambda>sig.
       then_read dec_bytes_val (\<lambda>cited.
       then_read dec_uint_val (\<lambda>leaf_index.
       then_read dec_uint_val (\<lambda>n_leaves.
       then_read dec_bytes_val (\<lambda>path.
       read_ret \<lparr>ie_block = block, ie_sig = sig, ie_cited = cited, ie_leaf_index = leaf_index,
         ie_n_leaves = n_leaves, ie_path = path\<rparr>)))))))"

text \<open>Everything up to the judgement of the cited bytes: \<open>Inr cited\<close> when the subject attested a
  block that commits them.\<close>

definition it_commitment ::
  "(bytes \<Rightarrow> bytes) \<Rightarrow> (bytes \<Rightarrow> bytes \<Rightarrow> bytes \<Rightarrow> bool) \<Rightarrow> bytes \<Rightarrow> bytes \<Rightarrow> u64 \<Rightarrow> bytes res" where
  "it_commitment H sig_ok evidence subject env_epoch =
    (case mal_document it_evidence_walk evidence of Inl e \<Rightarrow> Inl e | Inr ev \<Rightarrow>
     if length (ie_block ev) = 0 \<or> length (ie_sig ev) \<noteq> ANTS_CRDT_SIG_SIZE \<or> length (ie_cited ev) = 0
     then Inl ANTS_ERROR_MALFORMED
     else if ie_n_leaves ev = 0 \<or> ie_n_leaves ev > push_bit CP_MERKLE_MAX_DEPTH 1 then Inl ANTS_ERROR_MALFORMED
     else if ie_leaf_index ev \<ge> ie_n_leaves ev then Inl ANTS_ERROR_MALFORMED
     else if length (ie_path ev) \<noteq> cp_path_len (ie_leaf_index ev) (ie_n_leaves ev) * ANTS_CRDT_CONTENT_ID_SIZE
     then Inl ANTS_ERROR_MALFORMED
     else
     case parse_block_summary (ie_block ev) of Inl e \<Rightarrow> Inl e | Inr (sum_epoch, root) \<Rightarrow>
     if sum_epoch \<noteq> env_epoch then Inl ANTS_ERROR_MALFORMED
     else if \<not> sig_ok subject (H (ie_block ev)) (ie_sig ev) then Inl ANTS_ERROR_MALFORMED
     else
     case ants_crdt_content_id H (ie_cited ev) of Inl e \<Rightarrow> Inl ANTS_ERROR_MALFORMED | Inr leaf_id \<Rightarrow>
     let folded = cp_fold_to_root H leaf_id (ie_leaf_index ev) (ie_n_leaves ev) (ie_path ev) in
     if memcmp folded root ANTS_CRDT_CONTENT_ID_SIZE \<noteq> 0 then Inl ANTS_ERROR_MALFORMED
     else Inr (ie_cited ev))"

text \<open>A cited proof is judged only when it is not an invalid-transition proof itself, so the
  recursion is at most three calls deep.\<close>

definition nests :: "bytes \<Rightarrow> nat" where
  "nests buf = (case ants_crdt_fault_proof_decode buf of Inl e \<Rightarrow> 0 | Inr view \<Rightarrow>
    if fv_fault_type view = ANTS_FAULT_INVALID_TRANSITION then 2 else 0)"

function ants_crdt_verify ::
    "(bytes \<Rightarrow> bytes) \<Rightarrow> (bytes \<Rightarrow> bytes \<Rightarrow> bytes \<Rightarrow> bool) \<Rightarrow> bytes \<Rightarrow> ants_error"
  and verify_invalid_transition ::
    "(bytes \<Rightarrow> bytes) \<Rightarrow> (bytes \<Rightarrow> bytes \<Rightarrow> bytes \<Rightarrow> bool) \<Rightarrow> bytes \<Rightarrow> bytes \<Rightarrow> u64 \<Rightarrow> ants_error" where
  "ants_crdt_verify H sig_ok buf =
    (if length buf = 0 then ANTS_ERROR_INVALID_ARG else
     case ants_crdt_fault_proof_decode buf of Inl e \<Rightarrow> e | Inr view \<Rightarrow>
     if fv_fault_type view = ANTS_FAULT_EQUIVOCATION
     then verify_equivocation sig_ok buf (fv_subject view) (fv_epoch view)
     else if fv_fault_type view = ANTS_FAULT_INVALID_TRANSITION
     then verify_invalid_transition H sig_ok (fv_evidence view) (fv_subject view) (fv_epoch view)
     else ANTS_ERROR_UNSUPPORTED_TYPE)"
| "verify_invalid_transition H sig_ok evidence subject env_epoch =
    (case it_commitment H sig_ok evidence subject env_epoch of Inl e \<Rightarrow> e | Inr cited \<Rightarrow>
     case ants_crdt_fault_proof_decode cited of Inl e \<Rightarrow> ANTS_OK | Inr cited_view \<Rightarrow>
     if fv_fault_type cited_view = ANTS_FAULT_INVALID_TRANSITION then ANTS_ERROR_MALFORMED
     else if fv_fault_type cited_view \<ge> ANTS_FAULT_RESERVED_MIN then ANTS_ERROR_NOT_IMPLEMENTED
     else case ants_crdt_verify H sig_ok cited of
       ANTS_OK \<Rightarrow> ANTS_ERROR_MALFORMED
     | ANTS_ERROR_MALFORMED \<Rightarrow> ANTS_OK
     | ANTS_ERROR_NON_CANONICAL \<Rightarrow> ANTS_OK
     | ANTS_ERROR_UNSUPPORTED_TYPE \<Rightarrow> ANTS_ERROR_NOT_IMPLEMENTED
     | ANTS_ERROR_NOT_IMPLEMENTED \<Rightarrow> ANTS_ERROR_NOT_IMPLEMENTED
     | _ \<Rightarrow> ANTS_ERROR_MALFORMED)"
  by pat_completeness auto

termination
  by (relation "measure (\<lambda>x. case x of Inl (H, sig_ok, buf) \<Rightarrow> nests buf | Inr _ \<Rightarrow> 1)") (simp_all add: nests_def)

declare ants_crdt_verify.simps [simp del] verify_invalid_transition.simps [simp del]

section \<open>What the helpers read\<close>


lemma mal_read_Inr: "mal_read m d = (Inr x, d') \<longleftrightarrow> m d = (Inr x, d')"
  by (auto simp: mal_read_def split: prod.splits sum.splits)

lemma parser_mal: "parser m V C \<Longrightarrow> parser (mal_read m) V C"
  by (simp add: parser_def mal_read_Inr)

lemma parser_peek:
  assumes m: "parser m V C" and ty: "\<And>d x r. V x \<Longrightarrow> dec_rest d = run_bytes (C x) @ r \<Longrightarrow> ants_cbor_dec_peek_type d = Inr ty"
  shows "parser (\<lambda>d. if ants_cbor_dec_peek_type d \<noteq> Inr ty then (Inl ANTS_ERROR_MALFORMED, d) else m d) V C"
proof (unfold_locales, goal_cases)
  case (1 d tops fs x d')
  then show ?case using parser.parse_sound [OF m 1(1), of x d'] by (simp split: if_splits)
next
  case (2 d tops fs x r fs' out)
  then show ?case using parser.parse_complete [OF m 2] ty [OF 2(2,4)] by simp
qed

lemma parser_uint_val: "parser dec_uint_val (\<lambda>_. True) (\<lambda>v. [CUint v])"
  unfolding dec_uint_val_def
  by (rule parser_peek [OF parser_mal [OF dec_uint.prs.parser_axioms]]) (simp add: peek_head)

lemma parser_calls_ok: "parser m V C \<Longrightarrow> parser m (\<lambda>x. V x \<and> (\<forall>c \<in> set (C x). call_ok c)) C"
  unfolding parser_def by blast

lemma parser_bytes_val: "parser dec_bytes_val (\<lambda>b. length b < 2 ^ 64) (\<lambda>v. [CBytes v])"
  unfolding dec_bytes_val_def
proof (rule parser_peek)
  show "parser (mal_read ants_cbor_dec_bytes) (\<lambda>b. length b < 2 ^ 64) (\<lambda>v. [CBytes v])"
    by (rule parser_cong [OF parser_calls_ok [OF parser_mal [OF dec_bytes.prs.parser_axioms]]]) (simp_all add: call_ok_def)
qed (simp add: peek_head)

lemma parser_dec_expect_key: "parser (dec_expect_key k) (\<lambda>_. True) (\<lambda>_. [CUint k])"
  unfolding dec_expect_key_def
proof (rule parser_peek)
  show "parser (then_read (mal_read ants_cbor_dec_uint) (\<lambda>x. if x \<noteq> k then read_fail ANTS_ERROR_MALFORMED else read_ret ()))
      (\<lambda>_. True) (\<lambda>_. [CUint k])"
    using parser_expect [OF parser_mal [OF dec_uint.prs.parser_axioms] TrueI, of "read_ret ()" "\<lambda>_. True" "\<lambda>_. []"]
    by (simp add: parser_cong [OF parser_ret])
qed (simp add: peek_head)

lemma parser_keyed:
  assumes "parser m V C"
  shows "parser (keyed_read k m) V (\<lambda>x. CUint k # C x)"
  unfolding keyed_read_def
proof (rule parser_cong)
  show "parser (then_read (dec_expect_key k) (\<lambda>_. m)) (\<lambda>y. True \<and> V y) (\<lambda>y. [CUint k] @ C y)"
    by (rule parser_then [OF parser_dec_expect_key, where sel = "\<lambda>_. ()"]) (simp add: assms)
qed auto

lemma parser_sized_map: "parser m V C \<Longrightarrow> parser (sized_read ants_cbor_dec_map n m) V (\<lambda>x. CMap n # C x)"
  unfolding sized_read_def using parser_expect [OF parser_mal [OF dec_map.prs.parser_axioms] TrueI, of m V C n] by simp

lemma parser_sized_array: "parser m V C \<Longrightarrow> parser (sized_read ants_cbor_dec_array n m) V (\<lambda>x. CArray n # C x)"
  unfolding sized_read_def using parser_expect [OF parser_mal [OF dec_array.prs.parser_axioms] TrueI, of m V C n] by simp

lemma parser_bytes_of_size: "n < 2 ^ 64 \<Longrightarrow> parser (bytes_of_size n) (\<lambda>b. length b = n) (\<lambda>b. [CBytes b])"
  unfolding bytes_of_size_def
  by (rule parser_cong [OF parser_check [OF parser_bytes_val, where g = "\<lambda>b. b"]]) auto

lemmas parser_bytes_32 = parser_bytes_of_size [of ANTS_CRDT_PEER_ID_SIZE] parser_bytes_of_size [of ANTS_CRDT_CONTENT_ID_SIZE]

lemma mal_document_Inr: "mal_document body bs = Inr x \<longleftrightarrow> cbor_read_document body bs = Inr x"
  unfolding read_document_run mal_document_def by (auto simp: finalise_ok split: prod.splits sum.splits if_splits)

lemma mal_document_iff:
  assumes "parser body V C"
    and "\<And>x. V x \<Longrightarrow> C x = calls_of (I x) \<and> wf_item (I x) \<and> nests_within ANTS_CBOR_MAX_DEPTH (I x)"
  shows "mal_document body bs = Inr x \<longleftrightarrow> V x \<and> bs = enc_item (I x)"
  unfolding mal_document_Inr by (rule read_document_iff [OF assms])

text \<open>These readers fail with \<open>ANTS_ERROR_MALFORMED\<close> only.\<close>

definition fails_malformed :: "('s, 'a) reader \<Rightarrow> bool" where
  "fails_malformed m \<longleftrightarrow> (\<forall>s e s'. m s = (Inl e, s') \<longrightarrow> e = ANTS_ERROR_MALFORMED)"

named_theorems proper \<open>readers that fail with \<open>ANTS_ERROR_MALFORMED\<close>\<close>

lemma proper_basic [proper]:
  "fails_malformed (mal_read m)" "fails_malformed (read_fail ANTS_ERROR_MALFORMED)" "fails_malformed (read_ret x)"
  "fails_malformed m \<Longrightarrow> fails_malformed m' \<Longrightarrow> fails_malformed (if b then m else m')"
  by (auto simp: fails_malformed_def mal_read_def read_fail_def read_ret_def split: prod.splits sum.splits)

lemma proper_then [proper]: "fails_malformed m \<Longrightarrow> (\<And>x. fails_malformed (f x)) \<Longrightarrow> fails_malformed (then_read m f)"
  by (auto simp: fails_malformed_def then_read_def split: prod.splits sum.splits)

lemma proper_times [proper]: "fails_malformed m \<Longrightarrow> fails_malformed (read_times n m)"
  by (induction n) (simp_all add: proper)

lemma proper_helpers [proper]: "fails_malformed dec_uint_val" "fails_malformed dec_bytes_val" "fails_malformed (dec_expect_key k)"
proof -
  have "fails_malformed (then_read (mal_read ants_cbor_dec_uint) (\<lambda>x. if x \<noteq> k then read_fail ANTS_ERROR_MALFORMED else read_ret ()))"
    by (intro proper)
  then show "fails_malformed dec_uint_val" "fails_malformed dec_bytes_val" "fails_malformed (dec_expect_key k)"
    using proper_basic(1) [of ants_cbor_dec_uint] proper_basic(1) [of ants_cbor_dec_bytes] by (auto simp: fails_malformed_def dec_uint_val_def dec_bytes_val_def dec_expect_key_def)
qed

lemma proper_composed [proper]:
  "fails_malformed m \<Longrightarrow> fails_malformed (keyed_read k m)" "fails_malformed m \<Longrightarrow> fails_malformed (sized_read open n m)"
  "fails_malformed (bytes_of_size n)"
  unfolding keyed_read_def sized_read_def bytes_of_size_def by (intro proper; assumption?)+

lemma proper_document: "fails_malformed m \<Longrightarrow> mal_document m bs = Inl e \<Longrightarrow> e = ANTS_ERROR_MALFORMED"
  by (auto simp: mal_document_def fails_malformed_def split: prod.splits sum.splits if_splits)

section \<open>Statements\<close>

definition stmt_item :: "stmt \<Rightarrow> item" where
  "stmt_item s = MapI [(UInt 0, UInt (st_domain s)), (UInt 1, UInt (st_epoch s)), (UInt 2, UInt (st_slot s)),
    (UInt 3, ByteStr (st_payload s))]"

definition stmt_ok :: "stmt \<Rightarrow> bool" where
  "stmt_ok s \<longleftrightarrow> length (st_payload s) < 2 ^ 64"

lemma stmt_item_wf: "stmt_ok s \<Longrightarrow> wf_item (stmt_item s) \<and> nests_within ANTS_CBOR_MAX_DEPTH (stmt_item s)"
  by (simp add: stmt_item_def stmt_ok_def head_bytes_def ANTS_CBOR_MAX_DEPTH_def)

lemma statement_encode: "stmt_ok s \<Longrightarrow> ants_crdt_statement_encode s buf = fits buf (enc_item (stmt_item s))"
  unfolding ants_crdt_statement_encode_def by (rule document_item) (simp_all add: stmt_item_wf, simp add: stmt_item_def numeral_eq_Suc)

lemma decode_statement_iff: "decode_statement bs = Inr s \<longleftrightarrow> stmt_ok s \<and> bs = enc_item (stmt_item s)"
proof -
  let ?body = "sized_read ants_cbor_dec_map 4 (then_read (keyed_read 0 dec_uint_val) (\<lambda>domain.
      then_read (keyed_read 1 dec_uint_val) (\<lambda>epoch. then_read (keyed_read 2 dec_uint_val) (\<lambda>slot.
      then_read (keyed_read 3 dec_bytes_val) (\<lambda>payload.
      read_ret \<lparr>st_domain = domain, st_epoch = epoch, st_slot = slot, st_payload = payload\<rparr>)))))"
  have "parser ?body (\<lambda>s. (True \<and> (True \<and> (True \<and> (length (st_payload s) < 2 ^ 64 \<and> True)))) \<and> True)
      (\<lambda>s. CMap 4 # [CUint 0, CUint (st_domain s)] @ [CUint 1, CUint (st_epoch s)] @ [CUint 2, CUint (st_slot s)] @
        [CUint 3, CBytes (st_payload s)] @ [])"
    by (rule parser_sized_map, rule parser_field [OF parser_keyed [OF parser_uint_val]],
        rule parser_field [OF parser_keyed [OF parser_uint_val]], rule parser_field [OF parser_keyed [OF parser_uint_val]],
        rule parser_field [OF parser_keyed [OF parser_bytes_val]], rule parser_done) auto
  then have p: "parser ?body stmt_ok (\<lambda>s. calls_of (stmt_item s))"
    by (rule parser_cong) (simp_all add: stmt_ok_def stmt_item_def)
  have "mal_document ?body bs = Inr s \<longleftrightarrow> stmt_ok s \<and> bs = enc_item (stmt_item s)"
    by (rule mal_document_iff [OF p]) (simp add: stmt_item_wf)
  then show ?thesis unfolding decode_statement_def using stmt_item_wf is_canonical_iff by (auto split: if_splits)
qed

lemma decode_statement_error: "decode_statement bs = Inl e \<Longrightarrow> e = ANTS_ERROR_MALFORMED"
  unfolding decode_statement_def by (auto split: if_splits elim!: proper_document [rotated] intro!: proper)

section \<open>The envelope\<close>

definition env_calls :: "bytes \<Rightarrow> u64 \<Rightarrow> u64 \<Rightarrow> enc_call list" where
  "env_calls subject t e = [CMap 4, CUint 0, CBytes subject, CUint 1, CUint t, CUint 2, CUint e, CUint 3]"

definition env_item :: "bytes \<Rightarrow> u64 \<Rightarrow> u64 \<Rightarrow> item \<Rightarrow> item" where
  "env_item subject t e ev = MapI [(UInt 0, ByteStr subject), (UInt 1, UInt t), (UInt 2, UInt e), (UInt 3, ev)]"

lemma env_item_calls: "calls_of (env_item subject t e ev) = env_calls subject t e @ calls_of ev"
  by (simp add: env_item_def env_calls_def numeral_eq_Suc)

lemma env_item_bytes: "enc_item (env_item subject t e ev) = run_bytes (env_calls subject t e) @ enc_item ev"
  by (simp add: env_item_def env_calls_def)

lemma env_item_wf:
  "wf_item (env_item subject t e ev) \<longleftrightarrow> length subject < 2 ^ 64 \<and> wf_item ev"
  "nests_within h (env_item subject t e ev) \<longleftrightarrow> 0 < h \<and> nests_within (h - 1) ev"
  by (simp_all add: env_item_def head_bytes_def)

lemma env_calls_ok: "length subject = ANTS_CRDT_PEER_ID_SIZE \<Longrightarrow> \<forall>c \<in> set (env_calls subject t e). call_ok c"
  by (simp add: env_calls_def call_ok_def crdt_sizes)

lemma env_opens:
  assumes "length subject = ANTS_CRDT_PEER_ID_SIZE"
  shows "\<exists>fs out. run_opens [] (env_calls subject t e) = Inr (fs, out)"
proof -
  have "run_opens [] (calls_of (env_item subject t e NullI)) = Inr ([], enc_item (env_item subject t e NullI))"
    using assms by (intro item_opens) (simp_all add: env_item_wf crdt_sizes ANTS_CBOR_MAX_DEPTH_def)
  then show ?thesis unfolding env_item_calls run_opens_append by blast
qed

lemma parser_envelope:
  "parser (sized_read ants_cbor_dec_map 4
      (then_read (keyed_read 0 (bytes_of_size ANTS_CRDT_PEER_ID_SIZE)) (\<lambda>subject.
       then_read (keyed_read 1 dec_uint_val) (\<lambda>fault_type.
       then_read (keyed_read 2 dec_uint_val) (\<lambda>epoch.
       then_read (dec_expect_key 3) (\<lambda>_. read_ret (subject, fault_type, epoch)))))))
    (\<lambda>(subject, t, e). length subject = ANTS_CRDT_PEER_ID_SIZE) (\<lambda>(subject, t, e). env_calls subject t e)"
  (is "parser ?m _ _")
proof (rule parser_cong)
  show "parser ?m (\<lambda>x. (length (fst x) = ANTS_CRDT_PEER_ID_SIZE \<and> (True \<and> (True \<and> (True \<and> True)))) \<and> True)
      (\<lambda>x. CMap 4 # [CUint 0, CBytes (fst x)] @ [CUint 1, CUint (fst (snd x))] @ [CUint 2, CUint (snd (snd x))] @ [CUint 3] @ [])"
    by (rule parser_sized_map, rule parser_field [OF parser_keyed [OF parser_bytes_32(1)]], simp add: crdt_sizes,
        rule parser_field [OF parser_keyed [OF parser_uint_val]], rule parser_field [OF parser_keyed [OF parser_uint_val]],
        rule parser_field [OF parser_dec_expect_key, where sel = "\<lambda>_. ()"], rule parser_done) auto
qed (auto simp: env_calls_def)

lemma prefix_read:
  assumes p: "parser m V C" and ok: "\<And>x. V x \<Longrightarrow> (\<forall>c \<in> set (C x). call_ok c) \<and> (\<exists>fs out. run_opens [] (C x) = Inr (fs, out))"
  shows "(\<exists>d. m (ants_cbor_dec_init bs) = (Inr x, d) \<and> drop (ants_cbor_dec_pos d) bs = rest) \<longleftrightarrow> V x \<and> bs = run_bytes (C x) @ rest"
proof
  assume "\<exists>d. m (ants_cbor_dec_init bs) = (Inr x, d) \<and> drop (ants_cbor_dec_pos d) bs = rest"
  then obtain d where d: "m (ants_cbor_dec_init bs) = (Inr x, d)" "drop (ants_cbor_dec_pos d) bs = rest" by blast
  from parser.parse_sound [OF p dec_init_rel d(1)] obtain fs out where v: "V x"
    and m: "dec_moved (ants_cbor_dec_init bs) (run_bytes (C x)) ([] @ out) fs d" by blast
  from m have "dec_buf d = bs" "bs = run_bytes (C x) @ dec_rest d" by (simp_all add: dec_moved_def)
  then show "V x \<and> bs = run_bytes (C x) @ rest" using v d(2) by (simp add: dec_rest_def ants_cbor_dec_pos_def)
next
  assume x: "V x \<and> bs = run_bytes (C x) @ rest"
  from ok [OF conjunct1 [OF x]] obtain fs out where o: "\<forall>c \<in> set (C x). call_ok c" "run_opens [] (C x) = Inr (fs, out)" by blast
  have r: "dec_rest (ants_cbor_dec_init bs) = run_bytes (C x) @ rest" using x by simp
  from parser.parse_complete [OF p dec_init_rel conjunct1 [OF x] o(1) r o(2)] obtain d
    where d: "m (ants_cbor_dec_init bs) = (Inr x, d)" "dec_moved (ants_cbor_dec_init bs) (run_bytes (C x)) ([] @ out) fs d" by blast
  then have "dec_buf d = bs" "dec_rest d = rest" using r by (simp_all add: dec_moved_def)
  with d(1) show "\<exists>d. m (ants_cbor_dec_init bs) = (Inr x, d) \<and> drop (ants_cbor_dec_pos d) bs = rest"
    by (auto simp: dec_rest_def ants_cbor_dec_pos_def)
qed

lemma fault_proof_decode_iff:
  "ants_crdt_fault_proof_decode bs = Inr v \<longleftrightarrow> ants_cbor_is_canonical bs = ANTS_OK \<and>
    length (fv_subject v) = ANTS_CRDT_PEER_ID_SIZE \<and> fv_evidence v \<noteq> [] \<and>
    bs = run_bytes (env_calls (fv_subject v) (fv_fault_type v) (fv_epoch v)) @ fv_evidence v"
  (is "_ \<longleftrightarrow> ?canon \<and> _")
proof (cases ?canon)
  case True
  let ?m = "sized_read ants_cbor_dec_map 4 (then_read (keyed_read 0 (bytes_of_size ANTS_CRDT_PEER_ID_SIZE)) (\<lambda>subject.
      then_read (keyed_read 1 dec_uint_val) (\<lambda>fault_type. then_read (keyed_read 2 dec_uint_val) (\<lambda>epoch.
      then_read (dec_expect_key 3) (\<lambda>_. read_ret (subject, fault_type, epoch))))))"
  have ne: "bs \<noteq> []" using True by (auto simp: ants_cbor_is_canonical_def)
  have "ants_crdt_fault_proof_decode bs = Inr v \<longleftrightarrow>
      (\<exists>d. ?m (ants_cbor_dec_init bs) = (Inr (fv_subject v, fv_fault_type v, fv_epoch v), d) \<and>
        drop (ants_cbor_dec_pos d) bs = fv_evidence v) \<and> fv_evidence v \<noteq> []"
    unfolding ants_crdt_fault_proof_decode_def using True ne
    by (cases v) (auto simp: Let_def not_le split: prod.splits sum.splits)
  also have "\<dots> \<longleftrightarrow> (length (fv_subject v) = ANTS_CRDT_PEER_ID_SIZE \<and>
      bs = run_bytes (env_calls (fv_subject v) (fv_fault_type v) (fv_epoch v)) @ fv_evidence v) \<and> fv_evidence v \<noteq> []"
    by (subst prefix_read [OF parser_envelope]) (auto simp: env_opens env_calls_ok)
  finally show ?thesis using True by blast
next
  case False
  then show ?thesis by (auto simp: ants_crdt_fault_proof_decode_def)
qed

section \<open>Equivocation\<close>

definition signed_item :: "bytes \<times> bytes \<Rightarrow> item" where
  "signed_item bs = Arr [ByteStr (fst bs), ByteStr (snd bs)]"

definition signed_ok :: "bytes \<times> bytes \<Rightarrow> bool" where
  "signed_ok bs \<longleftrightarrow> length (fst bs) < 2 ^ 64 \<and> length (snd bs) = ANTS_CRDT_SIG_SIZE"

lemma signed_item_wf: "signed_ok bs \<Longrightarrow> wf_item (signed_item bs)" "0 < h \<Longrightarrow> nests_within h (signed_item bs)"
  by (simp_all add: signed_ok_def signed_item_def crdt_sizes)

lemma parser_signed:
  "parser (sized_read ants_cbor_dec_array 2 (then_read dec_bytes_val (\<lambda>body.
     then_read (bytes_of_size ANTS_CRDT_SIG_SIZE) (\<lambda>sig. read_ret (body, sig))))) signed_ok (\<lambda>bs. calls_of (signed_item bs))"
  (is "parser ?m _ _")
proof (rule parser_cong)
  show "parser ?m (\<lambda>x. (length (fst x) < 2 ^ 64 \<and> (length (snd x) = ANTS_CRDT_SIG_SIZE \<and> True)) \<and> True)
      (\<lambda>x. CArray 2 # [CBytes (fst x)] @ [CBytes (snd x)] @ [])"
    by (rule parser_sized_array, rule parser_field [OF parser_bytes_val],
        rule parser_field [OF parser_bytes_of_size], simp add: crdt_sizes, rule parser_done) auto
qed (simp_all add: signed_ok_def signed_item_def numeral_2_eq_2)

definition equiv_item :: "(bytes \<times> u64 \<times> u64) \<times> (bytes \<times> bytes) list \<Rightarrow> item" where
  "equiv_item x = env_item (fst (fst x)) (fst (snd (fst x))) (snd (snd (fst x))) (Arr (map signed_item (snd x)))"

definition equiv_ok :: "(bytes \<times> u64 \<times> u64) \<times> (bytes \<times> bytes) list \<Rightarrow> bool" where
  "equiv_ok x \<longleftrightarrow> length (fst (fst x)) < 2 ^ 64 \<and> length (snd x) = 2 \<and> list_all signed_ok (snd x)"

lemma parser_equivocation: "parser equivocation_walk equiv_ok (\<lambda>x. calls_of (equiv_item x))"
proof (rule parser_cong)
  show "parser equivocation_walk
    (\<lambda>x. (length (fst (fst x)) < 2 ^ 64 \<and> (True \<and> (True \<and> ((length (snd x) = 2 \<and> list_all signed_ok (snd x)) \<and> True)))) \<and> True)
    (\<lambda>x. CMap 4 # [CUint 0, CBytes (fst (fst x))] @ [CUint 1, CUint (fst (snd (fst x)))] @ [CUint 2, CUint (snd (snd (fst x)))] @
      (CUint 3 # CArray 2 # concat (map (\<lambda>bs. calls_of (signed_item bs)) (snd x))) @ [])"
    unfolding equivocation_walk_def
    by (rule parser_sized_map, rule parser_field [OF parser_keyed [OF parser_bytes_val]],
        rule parser_field [OF parser_keyed [OF parser_uint_val]], rule parser_field [OF parser_keyed [OF parser_uint_val]],
        rule parser_field [OF parser_keyed [OF parser_sized_array [OF parser_times [OF parser_signed]]]], rule parser_done) auto
qed (auto simp: equiv_ok_def equiv_item_def env_item_calls env_calls_def o_def)

lemma equivocation_walk_iff: "mal_document equivocation_walk bs = Inr x \<longleftrightarrow> equiv_ok x \<and> bs = enc_item (equiv_item x)"
  by (rule mal_document_iff [OF parser_equivocation])
    (auto simp: equiv_ok_def equiv_item_def env_item_wf list_all_iff ANTS_CBOR_MAX_DEPTH_def signed_item_wf)

text \<open>The fault: two statements for the same domain, epoch and slot that commit to different
  payloads.\<close>

definition equivocates :: "stmt \<Rightarrow> stmt \<Rightarrow> bool" where
  "equivocates s0 s1 \<longleftrightarrow> st_domain s0 = st_domain s1 \<and> st_epoch s0 = st_epoch s1 \<and> st_slot s0 = st_slot s1 \<and>
    st_payload s0 \<noteq> st_payload s1"

definition equivocation_item :: "bytes \<Rightarrow> u64 \<Rightarrow> bytes \<times> bytes \<Rightarrow> bytes \<times> bytes \<Rightarrow> item" where
  "equivocation_item subject e a b = env_item subject ANTS_FAULT_EQUIVOCATION e (Arr [signed_item a, signed_item b])"

lemma memcmp_equal: "length a = length b \<and> memcmp a b (length a) = 0 \<longleftrightarrow> a = b"
  using memcmp_eq_0 [of "length a" a b] by auto

lemma equivocation_walk_error: "mal_document equivocation_walk bs = Inl e \<Longrightarrow> e = ANTS_ERROR_MALFORMED"
  unfolding equivocation_walk_def by (erule proper_document [rotated]) (intro proper)

lemma verify_equivocation_error:
  "verify_equivocation sig_ok bs subject e = ANTS_OK \<or> verify_equivocation sig_ok bs subject e = ANTS_ERROR_MALFORMED"
  by (auto simp: verify_equivocation_def Let_def split: sum.splits prod.splits dest: equivocation_walk_error decode_statement_error)

lemma verify_equivocation_iff:
  "verify_equivocation sig_ok bs subject e = ANTS_OK \<longleftrightarrow>
    (\<exists>env b0 sig0 b1 sig1 s0 s1. equiv_ok (env, [(b0, sig0), (b1, sig1)]) \<and> bs = enc_item (equiv_item (env, [(b0, sig0), (b1, sig1)])) \<and>
      decode_statement b0 = Inr s0 \<and> decode_statement b1 = Inr s1 \<and> equivocates s0 s1 \<and> st_epoch s0 = e \<and>
      sig_ok subject b0 sig0 \<and> sig_ok subject b1 sig1)"
  (is "?l \<longleftrightarrow> ?r")
proof
  assume l: ?l
  then obtain env stmts where w: "mal_document equivocation_walk bs = Inr (env, stmts)"
    by (auto simp: verify_equivocation_def split: sum.splits dest: equivocation_walk_error)
  then obtain b0 sig0 b1 sig1 where stmts: "stmts = [(b0, sig0), (b1, sig1)]"
    by (auto simp: equivocation_walk_iff equiv_ok_def length_Suc_conv numeral_2_eq_2)
  obtain s0 s1 where d: "decode_statement b0 = Inr s0" "decode_statement b1 = Inr s1"
    using l by (auto simp: verify_equivocation_def w stmts split: sum.splits dest: decode_statement_error)
  from l have "equivocates s0 s1 \<and> st_epoch s0 = e \<and> sig_ok subject b0 sig0 \<and> sig_ok subject b1 sig1"
    by (auto simp: verify_equivocation_def w stmts d memcmp_equal equivocates_def split: if_splits)
  with w d show ?r unfolding stmts equivocation_walk_iff by blast
next
  assume ?r
  then obtain env b0 sig0 b1 sig1 s0 s1 where w: "mal_document equivocation_walk bs = Inr (env, [(b0, sig0), (b1, sig1)])"
    and r: "decode_statement b0 = Inr s0" "decode_statement b1 = Inr s1" "equivocates s0 s1" "st_epoch s0 = e"
      "sig_ok subject b0 sig0" "sig_ok subject b1 sig1"
    unfolding equivocation_walk_iff by blast
  then show ?l by (auto simp: verify_equivocation_def memcmp_equal equivocates_def)
qed

lemma items_apart:
  assumes "enc_item x @ r = enc_item y @ s" "wf_item x" "wf_item y"
  shows "x = y \<and> r = s"
  using unique_encD [OF enc_item_unique [OF assms(2)] assms(3,1)] by blast

lemma env_apart:
  assumes "run_bytes (env_calls b t e) @ r = run_bytes (env_calls b' t' e') @ r'" "length b < 2 ^ 64" "length b' < 2 ^ 64"
  shows "b = b' \<and> t = t' \<and> e = e' \<and> r = r'"
proof -
  have "enc_item (ByteStr b) @ enc_item (UInt 1) @ enc_item (UInt t) @ enc_item (UInt 2) @ enc_item (UInt e) @ enc_item (UInt 3) @ r =
      enc_item (ByteStr b') @ enc_item (UInt 1) @ enc_item (UInt t') @ enc_item (UInt 2) @ enc_item (UInt e') @ enc_item (UInt 3) @ r'"
    using assms(1) by (simp add: env_calls_def)
  from items_apart [OF this] assms(2,3) have b: "b = b'"
    and r1: "enc_item (UInt t) @ enc_item (UInt 2) @ enc_item (UInt e) @ enc_item (UInt 3) @ r =
      enc_item (UInt t') @ enc_item (UInt 2) @ enc_item (UInt e') @ enc_item (UInt 3) @ r'"
    by simp_all
  from items_apart [OF r1] have t: "t = t'" and r2: "enc_item (UInt e) @ enc_item (UInt 3) @ r = enc_item (UInt e') @ enc_item (UInt 3) @ r'"
    by simp_all
  from items_apart [OF r2] b t show ?thesis by simp
qed

text \<open>A proof that equivocation is proved by: two signed statements of the subject that
  equivocate, wrapped in the envelope of their epoch.\<close>

definition equivocation_proved ::
  "(bytes \<Rightarrow> bytes \<Rightarrow> bytes \<Rightarrow> bool) \<Rightarrow> bytes \<Rightarrow> stmt \<Rightarrow> bytes \<Rightarrow> stmt \<Rightarrow> bytes \<Rightarrow> bool" where
  "equivocation_proved sig_ok subject s0 sig0 s1 sig1 \<longleftrightarrow> length subject = ANTS_CRDT_PEER_ID_SIZE \<and>
    signed_ok (enc_item (stmt_item s0), sig0) \<and> signed_ok (enc_item (stmt_item s1), sig1) \<and> equivocates s0 s1 \<and>
    sig_ok subject (enc_item (stmt_item s0)) sig0 \<and> sig_ok subject (enc_item (stmt_item s1)) sig1"

definition is_equivocation :: "bytes \<Rightarrow> bool" where
  "is_equivocation bs \<longleftrightarrow> (case ants_crdt_fault_proof_decode bs of Inl e \<Rightarrow> False | Inr v \<Rightarrow> fv_fault_type v = ANTS_FAULT_EQUIVOCATION)"

lemma stmt_signed_ok: "signed_ok (enc_item (stmt_item s), sig) \<Longrightarrow> stmt_ok s"
  by (simp add: signed_ok_def stmt_ok_def stmt_item_def)

lemma equivocation_item_equiv: "equivocation_item b e x y = equiv_item ((b, ANTS_FAULT_EQUIVOCATION, e), [x, y])"
  by (simp add: equivocation_item_def equiv_item_def)

lemma equivocation_item_wf:
  assumes "length subject = ANTS_CRDT_PEER_ID_SIZE" "signed_ok x" "signed_ok y"
  shows "wf_item (equivocation_item subject e x y) \<and> nests_within ANTS_CBOR_MAX_DEPTH (equivocation_item subject e x y)"
  using assms by (simp add: equivocation_item_def env_item_wf crdt_sizes signed_item_wf ANTS_CBOR_MAX_DEPTH_def)

lemma equivocation_decode:
  assumes "length subject = ANTS_CRDT_PEER_ID_SIZE" "signed_ok x" "signed_ok y"
  shows "ants_crdt_fault_proof_decode (enc_item (equivocation_item subject e x y)) =
    Inr \<lparr>fv_subject = subject, fv_fault_type = ANTS_FAULT_EQUIVOCATION, fv_epoch = e,
      fv_evidence = enc_item (Arr [signed_item x, signed_item y])\<rparr>"
proof -
  have c: "ants_cbor_is_canonical (enc_item (equivocation_item subject e x y)) = ANTS_OK"
    unfolding is_canonical_iff using equivocation_item_wf [OF assms] by blast
  show ?thesis
    unfolding fault_proof_decode_iff c ants_fault_proof_view.simps
    unfolding equivocation_item_def env_item_bytes using assms(1) by (simp del: enc_item.simps)
qed

lemma verify_equivocation_proved:
  "is_equivocation bs \<and> ants_crdt_verify H sig_ok bs = ANTS_OK \<longleftrightarrow>
    (\<exists>subject s0 sig0 s1 sig1. equivocation_proved sig_ok subject s0 sig0 s1 sig1 \<and>
      bs = enc_item (equivocation_item subject (st_epoch s0) (enc_item (stmt_item s0), sig0) (enc_item (stmt_item s1), sig1)))"
  (is "?l \<longleftrightarrow> ?r")
proof
  assume l: ?l
  then obtain v where v: "ants_crdt_fault_proof_decode bs = Inr v" "fv_fault_type v = ANTS_FAULT_EQUIVOCATION"
    by (auto simp: is_equivocation_def split: sum.splits)
  then have "verify_equivocation sig_ok bs (fv_subject v) (fv_epoch v) = ANTS_OK"
    using l by (simp add: ants_crdt_verify.simps split: if_splits)
  then obtain env b0 sig0 b1 sig1 s0 s1 where w: "equiv_ok (env, [(b0, sig0), (b1, sig1)])"
      "bs = enc_item (equiv_item (env, [(b0, sig0), (b1, sig1)]))"
    and r: "decode_statement b0 = Inr s0" "decode_statement b1 = Inr s1" "equivocates s0 s1" "st_epoch s0 = fv_epoch v"
      "sig_ok (fv_subject v) b0 sig0" "sig_ok (fv_subject v) b1 sig1"
    unfolding verify_equivocation_iff by blast
  from v(1) have d: "length (fv_subject v) = ANTS_CRDT_PEER_ID_SIZE"
      "bs = run_bytes (env_calls (fv_subject v) (fv_fault_type v) (fv_epoch v)) @ fv_evidence v"
    unfolding fault_proof_decode_iff by blast+
  have "run_bytes (env_calls (fst env) (fst (snd env)) (snd (snd env))) @
      enc_item (Arr (map signed_item [(b0, sig0), (b1, sig1)])) =
      run_bytes (env_calls (fv_subject v) (fv_fault_type v) (fv_epoch v)) @ fv_evidence v"
    using w(2) d(2) unfolding equiv_item_def fst_conv snd_conv env_item_bytes by (rule subst)
  from env_apart [OF this] have "fst env = fv_subject v \<and> fst (snd env) = fv_fault_type v \<and> snd (snd env) = fv_epoch v"
    using w(1) d(1) by (simp add: equiv_ok_def crdt_sizes)
  then have env: "env = (fv_subject v, ANTS_FAULT_EQUIVOCATION, st_epoch s0)" using v(2) r(4) by (cases env) auto
  have b: "b0 = enc_item (stmt_item s0)" "b1 = enc_item (stmt_item s1)" using r(1,2) by (simp_all add: decode_statement_iff)
  show ?r
    using w r d(1) unfolding env b equivocation_proved_def equivocation_item_equiv
    by (intro exI [of _ "fv_subject v"] exI [of _ s0] exI [of _ sig0] exI [of _ s1] exI [of _ sig1] conjI)
      (simp_all add: equiv_ok_def)
next
  assume ?r
  then obtain subject s0 sig0 s1 sig1 where p: "equivocation_proved sig_ok subject s0 sig0 s1 sig1"
    and bs: "bs = enc_item (equivocation_item subject (st_epoch s0) (enc_item (stmt_item s0), sig0) (enc_item (stmt_item s1), sig1))"
    by blast
  from p have q: "length subject = ANTS_CRDT_PEER_ID_SIZE" "signed_ok (enc_item (stmt_item s0), sig0)" "signed_ok (enc_item (stmt_item s1), sig1)"
    by (simp_all add: equivocation_proved_def)
  note dec = equivocation_decode [OF q, of "st_epoch s0", folded bs]
  have "verify_equivocation sig_ok bs subject (st_epoch s0) = ANTS_OK"
    unfolding verify_equivocation_iff
    by (rule exI [of _ "(subject, ANTS_FAULT_EQUIVOCATION, st_epoch s0)"], rule exI [of _ "enc_item (stmt_item s0)"], rule exI [of _ sig0],
        rule exI [of _ "enc_item (stmt_item s1)"], rule exI [of _ sig1], rule exI [of _ s0], rule exI [of _ s1])
      (use p q stmt_signed_ok in \<open>auto simp: bs equivocation_item_equiv equivocation_proved_def equiv_ok_def decode_statement_iff crdt_sizes\<close>)
  moreover have "bs \<noteq> []" unfolding bs by simp
  ultimately show ?l by (simp add: is_equivocation_def dec ants_crdt_verify.simps)
qed

lemma exec_signed: "exec_calls (calls_of (signed_item (body, sig))) = enc_stmt_element body sig"
  by (simp add: exec_calls_def enc_stmt_element_def signed_item_def numeral_2_eq_2)

lemma equivocation_encode:
  assumes "length subject = ANTS_CRDT_PEER_ID_SIZE" "signed_ok (a, sig_a)" "signed_ok (b, sig_b)" "a \<noteq> []" "b \<noteq> []"
  shows "ants_crdt_equivocation_encode subject e a sig_a b sig_b buf = fits buf (enc_item (equivocation_item subject e (a, sig_a) (b, sig_b)))"
proof -
  note wf = equivocation_item_wf [OF assms(1-3), of e]
  have "cbor_document buf [ants_cbor_enc_map 4, ants_cbor_enc_uint 0, ants_cbor_enc_bytes subject,
      ants_cbor_enc_uint 1, ants_cbor_enc_uint ANTS_FAULT_EQUIVOCATION, ants_cbor_enc_uint 2, ants_cbor_enc_uint e,
      ants_cbor_enc_uint 3, ants_cbor_enc_array 2, enc_stmt_element a sig_a, enc_stmt_element b sig_b] =
      fits buf (enc_item (equivocation_item subject e (a, sig_a) (b, sig_b)))"
    by (rule document_groups [OF conjunct1 [OF wf] conjunct2 [OF wf],
        where css = "map (\<lambda>c. [c]) (env_calls subject ANTS_FAULT_EQUIVOCATION e @ [CArray 2]) @ map calls_of [signed_item (a, sig_a), signed_item (b, sig_b)]"])
      (simp_all add: env_calls_def exec_single exec_signed equivocation_item_def env_item_calls numeral_2_eq_2)
  with assms(4,5) show ?thesis by (simp add: ants_crdt_equivocation_encode_def)
qed

section \<open>Invalid transition\<close>

definition it_item :: "it_evidence \<Rightarrow> item" where
  "it_item ev = Arr [ByteStr (ie_block ev), ByteStr (ie_sig ev), ByteStr (ie_cited ev), UInt (ie_leaf_index ev), UInt (ie_n_leaves ev),
    ByteStr (ie_path ev)]"

definition it_ok :: "it_evidence \<Rightarrow> bool" where
  "it_ok ev \<longleftrightarrow> length (ie_block ev) < 2 ^ 64 \<and> length (ie_sig ev) < 2 ^ 64 \<and> length (ie_cited ev) < 2 ^ 64 \<and> length (ie_path ev) < 2 ^ 64"

lemma it_evidence_iff: "mal_document it_evidence_walk bs = Inr ev \<longleftrightarrow> it_ok ev \<and> bs = enc_item (it_item ev)"
proof -
  have "parser it_evidence_walk
    (\<lambda>ev. (length (ie_block ev) < 2 ^ 64 \<and> (length (ie_sig ev) < 2 ^ 64 \<and> (length (ie_cited ev) < 2 ^ 64 \<and> (True \<and> (True \<and>
      (length (ie_path ev) < 2 ^ 64 \<and> True)))))) \<and> True)
    (\<lambda>ev. CArray 6 # [CBytes (ie_block ev)] @ [CBytes (ie_sig ev)] @ [CBytes (ie_cited ev)] @ [CUint (ie_leaf_index ev)] @
      [CUint (ie_n_leaves ev)] @ [CBytes (ie_path ev)] @ [])"
    unfolding it_evidence_walk_def
    by (rule parser_sized_array, rule parser_field [OF parser_bytes_val], rule parser_field [OF parser_bytes_val],
        rule parser_field [OF parser_bytes_val], rule parser_field [OF parser_uint_val], rule parser_field [OF parser_uint_val],
        rule parser_field [OF parser_bytes_val], rule parser_done) auto
  then have "parser it_evidence_walk it_ok (\<lambda>ev. calls_of (it_item ev))"
    by (rule parser_cong) (auto simp: it_ok_def it_item_def)
  then show ?thesis
    by (rule mal_document_iff) (simp add: it_ok_def it_item_def ANTS_CBOR_MAX_DEPTH_def)
qed

text \<open>A block of epoch \<open>e\<close> commits the cited bytes at the given position of its root; the subject
  attested it when it signed the block's hash.\<close>

definition commits :: "(bytes \<Rightarrow> bytes) \<Rightarrow> u64 \<Rightarrow> it_evidence \<Rightarrow> bool" where
  "commits H e ev \<longleftrightarrow> ie_block ev \<noteq> [] \<and> ie_cited ev \<noteq> [] \<and>
    ie_leaf_index ev < ie_n_leaves ev \<and> unat (ie_n_leaves ev) \<le> 2 ^ CP_MERKLE_MAX_DEPTH \<and>
    length (ie_path ev) = cp_path_len (ie_leaf_index ev) (ie_n_leaves ev) * ANTS_CRDT_CONTENT_ID_SIZE \<and>
    (\<exists>root. parse_block_summary (ie_block ev) = Inr (e, root) \<and>
      memcmp (cp_fold_to_root H (H (ie_cited ev)) (ie_leaf_index ev) (ie_n_leaves ev) (ie_path ev)) root ANTS_CRDT_CONTENT_ID_SIZE = 0)"

definition attested :: "(bytes \<Rightarrow> bytes) \<Rightarrow> (bytes \<Rightarrow> bytes \<Rightarrow> bytes \<Rightarrow> bool) \<Rightarrow> bytes \<Rightarrow> u64 \<Rightarrow> it_evidence \<Rightarrow> bool" where
  "attested H sig_ok subject e ev \<longleftrightarrow> commits H e ev \<and> length (ie_sig ev) = ANTS_CRDT_SIG_SIZE \<and>
    sig_ok subject (H (ie_block ev)) (ie_sig ev)"

lemma it_commitment_iff:
  "it_commitment H sig_ok evidence subject e = Inr cited \<longleftrightarrow>
    (\<exists>ev. it_ok ev \<and> evidence = enc_item (it_item ev) \<and> attested H sig_ok subject e ev \<and> cited = ie_cited ev)"
proof -
  have n: "(2 ^ CP_MERKLE_MAX_DEPTH :: u64) < n \<longleftrightarrow> \<not> unat n \<le> 2 ^ CP_MERKLE_MAX_DEPTH" for n
    by (simp add: CP_MERKLE_MAX_DEPTH_def word_less_nat_alt not_le)
  have z: "\<not> n \<le> i \<longleftrightarrow> i < n" "i < n \<Longrightarrow> n \<noteq> 0" for n i :: u64
    by auto
  have "it_commitment H sig_ok evidence subject e = Inr cited \<longleftrightarrow>
      (\<exists>ev. mal_document it_evidence_walk evidence = Inr ev \<and> attested H sig_ok subject e ev \<and> cited = ie_cited ev)"
    unfolding attested_def commits_def
    by (auto simp: it_commitment_def ants_crdt_content_id_def Let_def n z(1) dest: z(2) split: sum.splits if_splits)
  then show ?thesis unfolding it_evidence_iff by blast
qed

text \<open>Cited bytes that are no fault proof for good: not an envelope, or an equivocation that
  does not verify.\<close>

definition refuted :: "(bytes \<Rightarrow> bytes) \<Rightarrow> (bytes \<Rightarrow> bytes \<Rightarrow> bytes \<Rightarrow> bool) \<Rightarrow> bytes \<Rightarrow> bool" where
  "refuted H sig_ok cited \<longleftrightarrow> (case ants_crdt_fault_proof_decode cited of Inl e \<Rightarrow> True | Inr v \<Rightarrow>
    fv_fault_type v = ANTS_FAULT_EQUIVOCATION \<and> ants_crdt_verify H sig_ok cited \<noteq> ANTS_OK)"

lemma decode_error: "ants_crdt_fault_proof_decode bs \<noteq> Inl ANTS_OK"
proof -
  have "fails_malformed (sized_read ants_cbor_dec_map 4 (then_read (keyed_read 0 (bytes_of_size ANTS_CRDT_PEER_ID_SIZE)) (\<lambda>subject.
      then_read (keyed_read 1 dec_uint_val) (\<lambda>fault_type. then_read (keyed_read 2 dec_uint_val) (\<lambda>epoch.
      then_read (dec_expect_key 3) (\<lambda>_. read_ret (subject, fault_type, epoch)))))))"
    by (intro proper)
  then show ?thesis
    by (auto simp: ants_crdt_fault_proof_decode_def fails_malformed_def Let_def split: prod.splits sum.splits)
qed

lemma parse_block_error: "parse_block_summary bs = Inl e \<Longrightarrow> e = ANTS_ERROR_MALFORMED"
proof -
  have "fails_malformed l2_block_walk" "fails_malformed l2_summary_walk"
    unfolding l2_block_walk_def l2_summary_walk_def l2_finding_walk_def by (intro proper)+
  then show "parse_block_summary bs = Inl e \<Longrightarrow> e = ANTS_ERROR_MALFORMED"
    by (auto simp: parse_block_summary_def split: if_splits sum.splits dest: proper_document)
qed

lemma it_commitment_error: "it_commitment H sig_ok evidence subject e = Inl x \<Longrightarrow> x = ANTS_ERROR_MALFORMED"
proof -
  have "fails_malformed it_evidence_walk" unfolding it_evidence_walk_def by (intro proper)
  then show "it_commitment H sig_ok evidence subject e = Inl x \<Longrightarrow> x = ANTS_ERROR_MALFORMED"
    by (auto simp: it_commitment_def Let_def split: if_splits sum.splits prod.splits dest: proper_document parse_block_error)
qed

lemma fault_type_cases: "t \<noteq> ANTS_FAULT_INVALID_TRANSITION \<Longrightarrow> \<not> t \<ge> ANTS_FAULT_RESERVED_MIN \<Longrightarrow> t = ANTS_FAULT_EQUIVOCATION"
  by (simp add: fault_types word_le_nat_alt word_unat_eq_iff)

lemma verify_equivocation_verdict:
  assumes "ants_crdt_fault_proof_decode bs = Inr v" "fv_fault_type v = ANTS_FAULT_EQUIVOCATION"
  shows "ants_crdt_verify H sig_ok bs = ANTS_OK \<or> ants_crdt_verify H sig_ok bs = ANTS_ERROR_MALFORMED"
proof -
  have "bs \<noteq> []" using assms(1) by (auto simp: ants_crdt_fault_proof_decode_def)
  then show ?thesis using verify_equivocation_error [of sig_ok bs] assms by (simp add: ants_crdt_verify.simps)
qed

lemma verify_invalid_transition_iff:
  "verify_invalid_transition H sig_ok evidence subject e = ANTS_OK \<longleftrightarrow>
    (\<exists>cited. it_commitment H sig_ok evidence subject e = Inr cited \<and> refuted H sig_ok cited)"
proof (cases "it_commitment H sig_ok evidence subject e")
  case (Inl x)
  then show ?thesis using it_commitment_error by (fastforce simp: verify_invalid_transition.simps)
next
  case (Inr cited)
  show ?thesis
  proof (cases "ants_crdt_fault_proof_decode cited")
    case (Inr v)
    note c = \<open>it_commitment _ _ _ _ _ = _\<close>
    consider "fv_fault_type v = ANTS_FAULT_INVALID_TRANSITION" | "fv_fault_type v \<ge> ANTS_FAULT_RESERVED_MIN"
      | (equivocation) "fv_fault_type v = ANTS_FAULT_EQUIVOCATION"
      using fault_type_cases [of "fv_fault_type v"] by blast
    then show ?thesis
    proof cases
      case equivocation
      then show ?thesis
        using c Inr verify_equivocation_verdict [OF Inr equivocation, of H sig_ok]
        by (auto simp: verify_invalid_transition.simps refuted_def fault_types)
    qed (use c Inr in \<open>auto simp: verify_invalid_transition.simps refuted_def fault_types\<close>)
  qed (use Inr in \<open>simp add: verify_invalid_transition.simps refuted_def\<close>)
qed

definition is_invalid_transition :: "bytes \<Rightarrow> bool" where
  "is_invalid_transition bs \<longleftrightarrow>
    (case ants_crdt_fault_proof_decode bs of Inl e \<Rightarrow> False | Inr v \<Rightarrow> fv_fault_type v = ANTS_FAULT_INVALID_TRANSITION)"

lemma it_decode:
  assumes "length subject = ANTS_CRDT_PEER_ID_SIZE" "it_ok ev"
  shows "ants_crdt_fault_proof_decode (enc_item (env_item subject ANTS_FAULT_INVALID_TRANSITION e (it_item ev))) =
    Inr \<lparr>fv_subject = subject, fv_fault_type = ANTS_FAULT_INVALID_TRANSITION, fv_epoch = e, fv_evidence = enc_item (it_item ev)\<rparr>"
proof -
  let ?x = "env_item subject ANTS_FAULT_INVALID_TRANSITION e (it_item ev)"
  have "wf_item ?x \<and> nests_within ANTS_CBOR_MAX_DEPTH ?x"
    using assms by (simp add: env_item_wf crdt_sizes ANTS_CBOR_MAX_DEPTH_def it_item_def it_ok_def)
  then have c: "ants_cbor_is_canonical (enc_item ?x) = ANTS_OK" unfolding is_canonical_iff by blast
  show ?thesis
    unfolding fault_proof_decode_iff c ants_fault_proof_view.simps
    unfolding env_item_bytes using assms(1) by simp
qed

lemma verify_invalid_transition_proved:
  "is_invalid_transition bs \<and> ants_crdt_verify H sig_ok bs = ANTS_OK \<longleftrightarrow>
    (\<exists>subject e ev. length subject = ANTS_CRDT_PEER_ID_SIZE \<and> it_ok ev \<and> attested H sig_ok subject e ev \<and>
      refuted H sig_ok (ie_cited ev) \<and> bs = enc_item (env_item subject ANTS_FAULT_INVALID_TRANSITION e (it_item ev)))"
  (is "?l \<longleftrightarrow> ?r")
proof
  assume l: ?l
  then obtain v where v: "ants_crdt_fault_proof_decode bs = Inr v" "fv_fault_type v = ANTS_FAULT_INVALID_TRANSITION"
    by (auto simp: is_invalid_transition_def split: sum.splits)
  then have "verify_invalid_transition H sig_ok (fv_evidence v) (fv_subject v) (fv_epoch v) = ANTS_OK"
    using l by (simp add: ants_crdt_verify.simps fault_types split: if_splits)
  then obtain ev where ev: "it_ok ev" "fv_evidence v = enc_item (it_item ev)" "attested H sig_ok (fv_subject v) (fv_epoch v) ev"
      "refuted H sig_ok (ie_cited ev)"
    unfolding verify_invalid_transition_iff it_commitment_iff by blast
  from v have "length (fv_subject v) = ANTS_CRDT_PEER_ID_SIZE"
      "bs = run_bytes (env_calls (fv_subject v) ANTS_FAULT_INVALID_TRANSITION (fv_epoch v)) @ fv_evidence v"
    unfolding fault_proof_decode_iff by simp_all
  with ev show ?r unfolding env_item_bytes by blast
next
  assume ?r
  then obtain subject e ev where r: "length subject = ANTS_CRDT_PEER_ID_SIZE" "it_ok ev" "attested H sig_ok subject e ev"
      "refuted H sig_ok (ie_cited ev)" and bs: "bs = enc_item (env_item subject ANTS_FAULT_INVALID_TRANSITION e (it_item ev))"
    by blast
  have "verify_invalid_transition H sig_ok (enc_item (it_item ev)) subject e = ANTS_OK"
    using r unfolding verify_invalid_transition_iff it_commitment_iff by blast
  moreover have "bs \<noteq> []" unfolding bs by simp
  ultimately show ?l
    using it_decode [OF r(1,2), of e, folded bs] by (simp add: is_invalid_transition_def ants_crdt_verify.simps fault_types)
qed

text \<open>What an honest peer signs (\<open>signs m\<close>: it signed the message \<open>m\<close>): never two statements that
  equivocate, and only hashes of blocks that commit nothing but verifying proofs.\<close>

definition honest :: "(bytes \<Rightarrow> bytes) \<Rightarrow> (bytes \<Rightarrow> bytes \<Rightarrow> bytes \<Rightarrow> bool) \<Rightarrow> (bytes \<Rightarrow> bool) \<Rightarrow> bool" where
  "honest H sig_ok signs \<longleftrightarrow>
    (\<forall>s0 s1. signs (enc_item (stmt_item s0)) \<and> signs (enc_item (stmt_item s1)) \<longrightarrow> \<not> equivocates s0 s1) \<and>
    (\<forall>e ev. signs (H (ie_block ev)) \<and> commits H e ev \<longrightarrow> ants_crdt_verify H sig_ok (ie_cited ev) = ANTS_OK)"

lemma refuted_not_ok: "refuted H sig_ok cited \<Longrightarrow> ants_crdt_verify H sig_ok cited \<noteq> ANTS_OK"
  using decode_error [of cited] by (auto simp: refuted_def ants_crdt_verify.simps split: sum.splits)

lemma verified_type:
  assumes "ants_crdt_verify H sig_ok bs = ANTS_OK"
  shows "is_equivocation bs \<or> is_invalid_transition bs"
  using assms decode_error [of bs]
  by (auto simp: is_equivocation_def is_invalid_transition_def ants_crdt_verify.simps split: sum.splits if_splits)

lemma honest_unframed:
  assumes "honest H sig_ok signs" "\<forall>m sig. sig_ok subject m sig \<longrightarrow> signs m"
    and "ants_crdt_fault_proof_decode bs = Inr v" "ants_crdt_verify H sig_ok bs = ANTS_OK"
  shows "fv_subject v \<noteq> subject"
proof
  assume v: "fv_subject v = subject"
  from verified_type [OF assms(4)] show False
  proof
    assume "is_equivocation bs"
    with assms(4) verify_equivocation_proved [of bs H sig_ok] obtain b s0 sig0 s1 sig1
      where p: "equivocation_proved sig_ok b s0 sig0 s1 sig1"
        and bs: "bs = enc_item (equivocation_item b (st_epoch s0) (enc_item (stmt_item s0), sig0) (enc_item (stmt_item s1), sig1))"
      by blast
    have "b = subject"
      using equivocation_decode [of b "(enc_item (stmt_item s0), sig0)" "(enc_item (stmt_item s1), sig1)" "st_epoch s0", folded bs]
        assms(3) v p by (auto simp: equivocation_proved_def)
    with p assms(1,2) show False unfolding equivocation_proved_def honest_def by blast
  next
    assume "is_invalid_transition bs"
    with assms(4) verify_invalid_transition_proved [of bs H sig_ok] obtain b e ev
      where p: "length b = ANTS_CRDT_PEER_ID_SIZE" "it_ok ev" "attested H sig_ok b e ev" "refuted H sig_ok (ie_cited ev)"
        and bs: "bs = enc_item (env_item b ANTS_FAULT_INVALID_TRANSITION e (it_item ev))"
      by blast
    have "b = subject" using it_decode [OF p(1,2), of e, folded bs] assms(3) v by auto
    with p(3,4) assms(1,2) refuted_not_ok [OF p(4)] show False unfolding attested_def honest_def by blast
  qed
qed

section \<open>Properties\<close>

text \<open>C18. An equivocation proof verifies exactly when it is the canonical envelope of two
  statements by the subject, for the same domain, epoch and slot but with different
  payloads, whose signatures verify over the canonical statement bytes, and the envelope
  carries the statements' epoch.\<close>

theorem crdt_equivocation_exact:
  "is_equivocation bs \<and> ants_crdt_verify H sig_ok bs = ANTS_OK \<longleftrightarrow>
    (\<exists>subject s0 sig0 s1 sig1. equivocation_proved sig_ok subject s0 sig0 s1 sig1 \<and>
      bs = enc_item (equivocation_item subject (st_epoch s0) (enc_item (stmt_item s0), sig0) (enc_item (stmt_item s1), sig1)))"
  by (rule verify_equivocation_proved)

text \<open>Whoever holds two conflicting signed statements can prove it: the statements and the
  proof encoded by the client's own encoders verify.\<close>

theorem crdt_equivocation_provable:
  assumes "length subject = ANTS_CRDT_PEER_ID_SIZE" "length sig0 = ANTS_CRDT_SIG_SIZE" "length sig1 = ANTS_CRDT_SIG_SIZE"
    and "equivocates s0 s1" "stmt_ok s0" "stmt_ok s1" "length body0 < 2 ^ 64" "length body1 < 2 ^ 64"
    and "ants_crdt_statement_encode s0 buf0 = Inr body0" "ants_crdt_statement_encode s1 buf1 = Inr body1"
    and "sig_ok subject body0 sig0" "sig_ok subject body1 sig1"
    and "ants_crdt_equivocation_encode subject (st_epoch s0) body0 sig0 body1 sig1 buf = Inr bs"
  shows "ants_crdt_verify H sig_ok bs = ANTS_OK"
proof -
  have b: "body0 = enc_item (stmt_item s0)" "body1 = enc_item (stmt_item s1)"
    using assms(5,6,9,10) by (auto simp: statement_encode fits_def split: if_splits)
  have p: "equivocation_proved sig_ok subject s0 sig0 s1 sig1"
    using assms unfolding b by (simp add: equivocation_proved_def signed_ok_def)
  then have "bs = enc_item (equivocation_item subject (st_epoch s0) (enc_item (stmt_item s0), sig0) (enc_item (stmt_item s1), sig1))"
    using assms(13) unfolding b
    by (subst (asm) equivocation_encode) (auto simp: equivocation_proved_def fits_def split: if_splits)
  with p verify_equivocation_proved [of bs H sig_ok] show ?thesis by blast
qed



section \<open>Witnesses\<close>

definition sample_stmt :: "u8 \<Rightarrow> stmt" where
  "sample_stmt p = \<lparr>st_domain = 1, st_epoch = 2, st_slot = 3, st_payload = [p]\<rparr>"

definition sample_signer :: "bytes \<Rightarrow> bytes \<Rightarrow> bytes \<Rightarrow> bool" where
  "sample_signer pk m sig \<longleftrightarrow> pk = replicate 32 1"

definition sample_proof :: bytes where
  "sample_proof = enc_item (equivocation_item (replicate 32 1) 2 (enc_item (stmt_item (sample_stmt 5)), replicate 64 0)
    (enc_item (stmt_item (sample_stmt 6)), replicate 64 0))"

lemma sample_stmts: "equivocates (sample_stmt 5) (sample_stmt 6)" "stmt_ok (sample_stmt p)" "length (enc_item (stmt_item (sample_stmt p))) < 2 ^ 64"
  by (simp_all add: sample_stmt_def equivocates_def stmt_ok_def stmt_item_def head_bytes_length)

lemma sample_proved: "equivocation_proved sample_signer (replicate 32 1) (sample_stmt 5) (replicate 64 0) (sample_stmt 6) (replicate 64 0)"
  using sample_stmts by (simp add: equivocation_proved_def signed_ok_def crdt_sizes sample_signer_def)

theorem crdt_equivocation_provable_witness:
  "ants_crdt_equivocation_encode (replicate 32 1) 2 (enc_item (stmt_item (sample_stmt 5))) (replicate 64 0)
     (enc_item (stmt_item (sample_stmt 6))) (replicate 64 0) sample_proof = Inr sample_proof \<and>
   ants_crdt_verify (\<lambda>x. x) sample_signer sample_proof = ANTS_OK"
proof -
  let ?b = "\<lambda>p. enc_item (stmt_item (sample_stmt p))"
  have e: "st_epoch (sample_stmt 5) = 2" by (simp add: sample_stmt_def)
  have st: "ants_crdt_statement_encode (sample_stmt p) (?b p) = Inr (?b p)" for p
    using sample_stmts(2) by (simp add: statement_encode fits_def)
  have enc: "ants_crdt_equivocation_encode (replicate 32 1) 2 (?b 5) (replicate 64 0) (?b 6) (replicate 64 0) sample_proof = Inr sample_proof"
    using sample_proved by (subst equivocation_encode) (simp_all add: equivocation_proved_def fits_def sample_proof_def)
  have "ants_crdt_verify (\<lambda>x. x) sample_signer sample_proof = ANTS_OK"
    by (rule crdt_equivocation_provable [of "replicate 32 1" "replicate 64 0" "replicate 64 0" "sample_stmt 5" "sample_stmt 6" "?b 5" "?b 6"
        "?b 5" "?b 6" sample_signer sample_proof sample_proof])
      (use sample_stmts st enc e in \<open>simp_all add: crdt_sizes sample_signer_def\<close>)
  with enc show ?thesis by blast
qed


end
