(* ===== verification/Gset.thy ===== *)
theory Gset
  imports Fault_Proof "HOL-Library.Monad_Syntax"
begin

text \<open>
  The grow-only set of fault proofs (the second half of \<^verbatim>\<open>src/reputation/crdt/src/crdt.c\<close>):
  two open-addressed hash tables with linear probing, one of proofs and one of retired
  subjects, with growth, pruning, merging and the late-joiner snapshot. An empty slot (a
  \<^verbatim>\<open>NULL\<close> proof pointer) is \<open>None\<close>; the capacity is the length of the array. The probing loop
  is bounded by the capacity, and \<open>None\<close> as a result means that it did not end; it is
  shown that this never happens on a well-formed set. Allocation is taken to succeed.
\<close>

section \<open>Definitions\<close>

record crdt_elem =
  el_content_id :: bytes
  el_subject :: bytes
  el_epoch :: u64
  el_proof :: bytes

record ants_crdt =
  cs_slots :: "crdt_elem option list"
  cs_count :: nat
  cs_floor :: u64
  cs_retired :: "bytes list"
  cs_n_retired :: nat
  cs_retired_zero :: bool

definition CRDT_INITIAL_CAP :: nat where "CRDT_INITIAL_CAP = 16"

subsection \<open>Probing\<close>

text \<open>The first eight bytes as a little-endian word.\<close>

definition id_hash :: "bytes \<Rightarrow> u64" where
  "id_hash i = foldr (\<lambda>b h. push_bit 8 h OR ucast b) (take 8 i) 0"

text \<open>Both tables are probed by the same loop.\<close>

fun probe_loop :: "('a \<Rightarrow> bool) \<Rightarrow> ('a \<Rightarrow> bool) \<Rightarrow> 'a list \<Rightarrow> nat \<Rightarrow> nat \<Rightarrow> (nat \<times> bool) option" where
  "probe_loop vacant hit tab 0 i = None"
| "probe_loop vacant hit tab (Suc fuel) i =
    (if vacant (tab ! i) then Some (i, False)
     else if hit (tab ! i) then Some (i, True)
     else probe_loop vacant hit tab fuel ((i + 1) AND (length tab - 1)))"

definition crdt_probe :: "crdt_elem option list \<Rightarrow> bytes \<Rightarrow> (nat \<times> bool) option" where
  "crdt_probe slots cid =
    probe_loop (\<lambda>e. e = None) (\<lambda>e. memcmp (el_content_id (the e)) cid ANTS_CRDT_CONTENT_ID_SIZE = 0) slots (length slots)
      (unat (id_hash cid) AND (length slots - 1))"

definition subject_is_zero :: "bytes \<Rightarrow> bool" where
  "subject_is_zero s \<longleftrightarrow> list_all (\<lambda>b. b = 0) (take ANTS_CRDT_PEER_ID_SIZE s)"

definition retired_probe :: "bytes list \<Rightarrow> bytes \<Rightarrow> (nat \<times> bool) option" where
  "retired_probe tab subject =
    probe_loop subject_is_zero (\<lambda>t. memcmp t subject ANTS_CRDT_PEER_ID_SIZE = 0) tab (length tab)
      (unat (id_hash subject) AND (length tab - 1))"

text \<open>The loop that moves every live entry of an old table into a new one.\<close>

fun rehash :: "('a \<Rightarrow> bool) \<Rightarrow> ('a list \<Rightarrow> 'a \<Rightarrow> (nat \<times> bool) option) \<Rightarrow> 'a list \<Rightarrow> 'a list \<Rightarrow> 'a list option" where
  "rehash vacant probe [] nt = Some nt"
| "rehash vacant probe (x # xs) nt =
    (if vacant x then rehash vacant probe xs nt
     else do { (j, found) \<leftarrow> probe nt x; rehash vacant probe xs (nt[j := x]) })"

subsection \<open>Retired subjects\<close>

definition retired_has :: "ants_crdt \<Rightarrow> bytes \<Rightarrow> bool option" where
  "retired_has s subject =
    (if subject_is_zero subject then Some (cs_retired_zero s)
     else if length (cs_retired s) = 0 then Some False
     else do { (i, found) \<leftarrow> retired_probe (cs_retired s) subject; Some found })"

text \<open>\<^verbatim>\<open>while (need * 2 > cap) cap *= 2;\<close> on a positive capacity.\<close>

function double_cap :: "nat \<Rightarrow> nat \<Rightarrow> nat" where
  "double_cap need cap = (if 0 < cap \<and> need * 2 > cap then double_cap need (cap * 2) else cap)"
  by auto
termination
  by (relation "measure (\<lambda>(need, cap). need * 2 - cap)") auto

declare double_cap.simps [simp del]

definition retired_reserve :: "nat \<Rightarrow> ants_crdt \<Rightarrow> ants_crdt option" where
  "retired_reserve extra s =
    (let need = cs_n_retired s + extra in
     if need * 2 \<le> length (cs_retired s) then Some s
     else
       let cap = double_cap need (if length (cs_retired s) \<noteq> 0 then length (cs_retired s) else 16) in
       do { nt \<leftarrow> rehash subject_is_zero retired_probe (cs_retired s) (replicate cap (replicate ANTS_CRDT_PEER_ID_SIZE 0));
            Some (s\<lparr>cs_retired := nt\<rparr>) })"

definition retired_add :: "bytes \<Rightarrow> ants_crdt \<Rightarrow> (bool \<times> ants_crdt) option" where
  "retired_add subject s =
    (if subject_is_zero subject then Some (\<not> cs_retired_zero s, s\<lparr>cs_retired_zero := True\<rparr>)
     else do {
       (i, found) \<leftarrow> retired_probe (cs_retired s) subject;
       if found then Some (False, s)
       else Some (True, s\<lparr>cs_retired := (cs_retired s)[i := subject], cs_n_retired := cs_n_retired s + 1\<rparr>) })"

subsection \<open>Insertion\<close>

definition crdt_grow :: "ants_crdt \<Rightarrow> ants_crdt option" where
  "crdt_grow s =
    do { ns \<leftarrow> rehash (\<lambda>e. e = None) (\<lambda>t e. crdt_probe t (el_content_id (the e))) (cs_slots s) (replicate (length (cs_slots s) * 2) None);
         Some (s\<lparr>cs_slots := ns\<rparr>) }"

text \<open>The flag is \<^verbatim>\<open>*out_inserted\<close>.\<close>

definition crdt_insert_elem :: "crdt_elem \<Rightarrow> ants_crdt \<Rightarrow> (bool \<times> ants_crdt) option" where
  "crdt_insert_elem e s =
    (if el_epoch e < cs_floor s then
       do { has \<leftarrow> retired_has s (el_subject e);
            if has then Some (False, s)
            else do { s1 \<leftarrow> retired_reserve 1 s; (new, s2) \<leftarrow> retired_add (el_subject e) s1; Some (True, s2) } }
     else
       do { s1 \<leftarrow> (if (cs_count s + 1) * 10 \<ge> length (cs_slots s) * 7 then crdt_grow s else Some s);
            (i, found) \<leftarrow> crdt_probe (cs_slots s1) (el_content_id e);
            if found then Some (False, s1)
            else Some (True, s1\<lparr>cs_slots := (cs_slots s1)[i := Some e], cs_count := cs_count s1 + 1\<rparr>) })"

definition ants_crdt_init :: ants_crdt where
  "ants_crdt_init = \<lparr>cs_slots = replicate CRDT_INITIAL_CAP None, cs_count = 0, cs_floor = 0, cs_retired = [],
    cs_n_retired = 0, cs_retired_zero = False\<rparr>"

definition ants_crdt_insert ::
  "(bytes \<Rightarrow> bytes) \<Rightarrow> (bytes \<Rightarrow> bytes \<Rightarrow> bytes \<Rightarrow> bool) \<Rightarrow> bytes \<Rightarrow> ants_crdt \<Rightarrow> (bool res \<times> ants_crdt) option" where
  "ants_crdt_insert H sig_ok proof_bytes s =
    (if length proof_bytes = 0 then Some (Inl ANTS_ERROR_INVALID_ARG, s)
     else
       let rc = ants_crdt_verify H sig_ok proof_bytes in
       if rc \<noteq> ANTS_OK then Some (Inl rc, s)
       else
       case ants_crdt_fault_proof_decode proof_bytes of Inl e \<Rightarrow> Some (Inl e, s) | Inr view \<Rightarrow>
       case ants_crdt_content_id H proof_bytes of Inl e \<Rightarrow> Some (Inl e, s) | Inr cid \<Rightarrow>
       do { (ins, s') \<leftarrow> crdt_insert_elem \<lparr>el_content_id = cid, el_subject = fv_subject view, el_epoch = fv_epoch view, el_proof = proof_bytes\<rparr> s;
            Some (Inr ins, s') })"

subsection \<open>Queries\<close>

definition ants_crdt_contains :: "ants_crdt \<Rightarrow> bytes \<Rightarrow> bool option" where
  "ants_crdt_contains s cid = do { (i, found) \<leftarrow> crdt_probe (cs_slots s) cid; Some found }"

definition ants_crdt_is_slashed :: "ants_crdt \<Rightarrow> bytes \<Rightarrow> bool option" where
  "ants_crdt_is_slashed s subject =
    (if list_ex (\<lambda>e. e \<noteq> None \<and> memcmp (el_subject (the e)) subject ANTS_CRDT_PEER_ID_SIZE = 0) (cs_slots s) then Some True
     else retired_has s subject)"

definition ants_crdt_prune_floor :: "ants_crdt \<Rightarrow> u64" where
  "ants_crdt_prune_floor s = cs_floor s"

definition ants_crdt_size :: "ants_crdt \<Rightarrow> nat" where
  "ants_crdt_size s = cs_count s"

text \<open>The visitor takes and returns its context; \<open>False\<close> stops the iteration.\<close>

fun enumerate_loop :: "(bytes \<Rightarrow> bytes \<Rightarrow> 'c \<Rightarrow> bool \<times> 'c) \<Rightarrow> crdt_elem option list \<Rightarrow> 'c \<Rightarrow> 'c" where
  "enumerate_loop fn [] ctx = ctx"
| "enumerate_loop fn (None # es) ctx = enumerate_loop fn es ctx"
| "enumerate_loop fn (Some e # es) ctx =
    (case fn (el_content_id e) (el_proof e) ctx of (go, ctx') \<Rightarrow> if go then enumerate_loop fn es ctx' else ctx')"

definition ants_crdt_enumerate :: "ants_crdt \<Rightarrow> (bytes \<Rightarrow> bytes \<Rightarrow> 'c \<Rightarrow> bool \<times> 'c) \<Rightarrow> 'c \<Rightarrow> 'c" where
  "ants_crdt_enumerate s fn ctx = enumerate_loop fn (cs_slots s) ctx"

subsection \<open>Merging, pruning and the snapshot\<close>

fun merge_loop :: "crdt_elem option list \<Rightarrow> ants_crdt \<Rightarrow> ants_crdt option" where
  "merge_loop [] dst = Some dst"
| "merge_loop (None # es) dst = merge_loop es dst"
| "merge_loop (Some e # es) dst = do { (ins, dst') \<leftarrow> crdt_insert_elem e dst; merge_loop es dst' }"

definition ants_crdt_merge :: "ants_crdt \<Rightarrow> ants_crdt \<Rightarrow> ants_crdt option" where
  "ants_crdt_merge dst src = merge_loop (cs_slots src) dst"

function cap_loop :: "nat \<Rightarrow> nat \<Rightarrow> nat" where
  "cap_loop n cap = (if 0 < cap \<and> n * 10 \<ge> cap * 7 then cap_loop n (cap * 2) else cap)"
  by auto
termination
  by (relation "measure (\<lambda>(n, cap). n * 10 + 1 - cap * 7)") auto

declare cap_loop.simps [simp del]

definition crdt_cap_for :: "nat \<Rightarrow> nat" where
  "crdt_cap_for n = cap_loop n CRDT_INITIAL_CAP"

text \<open>\<open>ns\<close> is the new table; pruned subjects are retired in the set itself.\<close>

fun prune_loop :: "u64 \<Rightarrow> crdt_elem option list \<Rightarrow> crdt_elem option list \<Rightarrow> ants_crdt \<Rightarrow> (crdt_elem option list \<times> ants_crdt \<times> nat) option" where
  "prune_loop keep [] ns s = Some (ns, s, 0)"
| "prune_loop keep (None # es) ns s = prune_loop keep es ns s"
| "prune_loop keep (Some e # es) ns s =
    (if el_epoch e \<ge> keep then
       do { (j, found) \<leftarrow> crdt_probe ns (el_content_id e); prune_loop keep es (ns[j := Some e]) s }
     else
       do { (new, s') \<leftarrow> retired_add (el_subject e) s; (ns', s'', k) \<leftarrow> prune_loop keep es ns s'; Some (ns', s'', k + 1) })"

definition ants_crdt_prune :: "u64 \<Rightarrow> ants_crdt \<Rightarrow> (nat \<times> ants_crdt) option" where
  "ants_crdt_prune min_epoch_keep s =
    (let survivors = length (filter (\<lambda>e. e \<noteq> None \<and> el_epoch (the e) \<ge> min_epoch_keep) (cs_slots s));
         new_cap = crdt_cap_for survivors in
     do { s1 \<leftarrow> retired_reserve (cs_count s - survivors) s;
          (ns, s2, pruned) \<leftarrow> prune_loop min_epoch_keep (cs_slots s) (replicate new_cap None) s1;
          Some (pruned, s2\<lparr>cs_slots := ns, cs_count := survivors,
            cs_floor := (if min_epoch_keep > cs_floor s2 then min_epoch_keep else cs_floor s2)\<rparr>) })"

definition ants_crdt_snapshot_bound :: "ants_crdt \<Rightarrow> nat" where
  "ants_crdt_snapshot_bound s = fold (\<lambda>e t. case e of None \<Rightarrow> t | Some x \<Rightarrow> t + (9 + length (el_proof x))) (cs_slots s) 9"

definition ants_crdt_snapshot_encode :: "ants_crdt \<Rightarrow> bytes \<Rightarrow> bytes res" where
  "ants_crdt_snapshot_encode s buf =
    cbor_document buf
      (ants_cbor_enc_array (cs_count s)
       # map (\<lambda>e. ants_cbor_enc_bytes (el_proof (the e))) (filter (\<lambda>e. e \<noteq> None) (cs_slots s)))"

text \<open>The import loop: the decoder, the set and the two counters.\<close>

fun snapshot_loop :: "(bytes \<Rightarrow> bytes) \<Rightarrow> (bytes \<Rightarrow> bytes \<Rightarrow> bytes \<Rightarrow> bool) \<Rightarrow> nat \<Rightarrow> ants_cbor_dec \<Rightarrow> nat \<Rightarrow> nat \<Rightarrow> ants_crdt \<Rightarrow>
    ((nat \<times> nat) res \<times> ants_crdt) option" where
  "snapshot_loop H sig_ok 0 d added rejected s =
    (if ants_cbor_dec_finalise d \<noteq> ANTS_OK then Some (Inl ANTS_ERROR_MALFORMED, s) else Some (Inr (added, rejected), s))"
| "snapshot_loop H sig_ok (Suc n) d added rejected s =
    (case dec_bytes_val d of (Inl e, d') \<Rightarrow> Some (Inl e, s) | (Inr p, d') \<Rightarrow>
     if ants_crdt_verify H sig_ok p \<noteq> ANTS_OK then snapshot_loop H sig_ok n d' added (rejected + 1) s
     else do { (r, s') \<leftarrow> ants_crdt_insert H sig_ok p s;
               case r of Inl e \<Rightarrow> Some (Inl e, s') | Inr ins \<Rightarrow>
               snapshot_loop H sig_ok n d' (if ins then added + 1 else added) rejected s' })"

definition ants_crdt_snapshot_merge ::
  "(bytes \<Rightarrow> bytes) \<Rightarrow> (bytes \<Rightarrow> bytes \<Rightarrow> bytes \<Rightarrow> bool) \<Rightarrow> bytes \<Rightarrow> ants_crdt \<Rightarrow> ((nat \<times> nat) res \<times> ants_crdt) option" where
  "ants_crdt_snapshot_merge H sig_ok buf s =
    (if length buf = 0 then Some (Inl ANTS_ERROR_INVALID_ARG, s)
     else if ants_cbor_is_canonical buf \<noteq> ANTS_OK then Some (Inl (ants_cbor_is_canonical buf), s)
     else case ants_cbor_dec_array (ants_cbor_dec_init buf) of
       (Inl e, d) \<Rightarrow> Some (Inl ANTS_ERROR_MALFORMED, s)
     | (Inr n, d) \<Rightarrow> snapshot_loop H sig_ok n d 0 0 s)"

section \<open>Tables with linear probing\<close>

lemma distinct_map_filter_more: "distinct (map f (filter P xs)) \<Longrightarrow> distinct (map f (filter P (filter Q xs)))"
  by (induction xs) auto

lemma and_mask_mod: "(i :: nat) AND (2 ^ n - 1) = i mod 2 ^ n"
  unfolding mask_eq_exp_minus_1 [symmetric] take_bit_eq_mask [symmetric] take_bit_eq_mod ..

text \<open>The contract both tables satisfy: entries carry keys, and a slot is a hit for a key exactly
  when its entry has that key.\<close>

locale probe_table =
  fixes vacant :: "'a \<Rightarrow> bool"
    and key :: "'a \<Rightarrow> bytes"
    and is_key :: "bytes \<Rightarrow> bool"
    and hit :: "bytes \<Rightarrow> 'a \<Rightarrow> bool"
  assumes hit_key: "is_key k \<Longrightarrow> \<not> vacant x \<Longrightarrow> is_key (key x) \<Longrightarrow> hit k x \<longleftrightarrow> key x = k"
begin

definition probe :: "'a list \<Rightarrow> bytes \<Rightarrow> (nat \<times> bool) option" where
  "probe tab k = probe_loop vacant (hit k) tab (length tab) (unat (id_hash k) AND (length tab - 1))"

definition entries :: "'a list \<Rightarrow> 'a set" where
  "entries tab = {x \<in> set tab. \<not> vacant x}"

definition used :: "'a list \<Rightarrow> nat" where
  "used tab = length (filter (\<lambda>x. \<not> vacant x) tab)"

definition table_ok :: "'a list \<Rightarrow> bool" where
  "table_ok tab \<longleftrightarrow> (\<exists>n. length tab = 2 ^ n) \<and> (\<forall>x \<in> entries tab. is_key (key x)) \<and>
    (\<forall>j < length tab. \<not> vacant (tab ! j) \<longrightarrow> probe tab (key (tab ! j)) = Some (j, True))"

lemma loop_total:
  assumes "k < fuel" "vacant (tab ! ((i + k) mod length tab))" "length tab = 2 ^ n" "i < length tab"
  shows "\<exists>j b. probe_loop vacant h tab fuel i = Some (j, b) \<and> j < length tab"
  using assms
proof (induction fuel arbitrary: i k)
  case (Suc fuel)
  have nxt: "(i + 1) AND (length tab - 1) = (i + 1) mod length tab" using Suc.prems(3) and_mask_mod [of "i + 1" n] by simp
  show ?case
  proof (cases k)
    case 0
    then have "probe_loop vacant h tab (Suc fuel) i = Some (i, False)" using Suc.prems by simp
    then show ?thesis using Suc.prems(4) by blast
  next
    case (Suc k')
    have "((i + 1) mod length tab + k') mod length tab = (i + k) mod length tab"
      unfolding mod_add_left_eq by (simp add: Suc)
    moreover have "(i + 1) mod length tab < length tab" using Suc.prems(4) by (intro mod_less_divisor) linarith
    ultimately show ?thesis
      using Suc.IH [of k' "(i + 1) mod length tab"] Suc.prems Suc nxt by auto
  qed
qed simp

lemma home_less: "length tab = 2 ^ n \<Longrightarrow> unat h AND (length tab - 1) < length tab"
  using and_mask_mod [of "unat h" n] by simp

lemma probe_total:
  assumes "length tab = 2 ^ n" "used tab < length tab"
  shows "\<exists>j b. probe tab k = Some (j, b) \<and> j < length tab"
proof -
  from assms(2) have "\<exists>x \<in> set tab. vacant x"
    unfolding used_def by (metis (no_types, lifting) filter_id_conv less_irrefl)
  then obtain j where j: "j < length tab" "vacant (tab ! j)" by (auto simp: in_set_conv_nth)
  define i where "i = unat (id_hash k) AND (length tab - 1)"
  have i: "i < length tab" unfolding i_def using home_less [OF assms(1)] .
  have "(i + (j + length tab - i) mod length tab) mod length tab = j"
    using i j(1) by (simp add: mod_add_right_eq)
  moreover have "(j + length tab - i) mod length tab < length tab" using j(1) by (intro mod_less_divisor) linarith
  ultimately show ?thesis unfolding probe_def i_def [symmetric] using loop_total assms(1) i j(2) by metis
qed

lemma loop_result:
  assumes "probe_loop vacant h tab fuel i = Some (j, b)"
  shows "if b then \<not> vacant (tab ! j) \<and> h (tab ! j) else vacant (tab ! j)"
  using assms by (induction fuel arbitrary: i) (auto split: if_splits)

lemma probe_found:
  assumes "table_ok tab" "is_key k" "probe tab k = Some (j, True)" "j < length tab"
  shows "\<not> vacant (tab ! j) \<and> key (tab ! j) = k"
proof -
  from loop_result [OF assms(3) [unfolded probe_def]] have "\<not> vacant (tab ! j)" "hit k (tab ! j)" by simp_all
  moreover have "is_key (key (tab ! j))" using assms(1,4) calculation(1) by (auto simp: table_ok_def entries_def)
  ultimately show ?thesis using hit_key assms(2) by blast
qed

lemma probe_absent:
  assumes "table_ok tab" "probe tab k = Some (j, False)"
  shows "vacant (tab ! j)" "\<forall>x \<in> entries tab. key x \<noteq> k"
proof -
  from loop_result [OF assms(2) [unfolded probe_def]] show "vacant (tab ! j)" by simp
  show "\<forall>x \<in> entries tab. key x \<noteq> k" using assms by (auto simp: table_ok_def entries_def in_set_conv_nth)
qed

text \<open>Filling the vacant slot a probe ended at leaves every other probe as it was.\<close>

lemma loop_store_other:
  assumes "probe_loop vacant h tab fuel i = Some (j, True)" "vacant (tab ! v)" "v < length tab"
  shows "probe_loop vacant h (tab[v := x]) fuel i = Some (j, True)"
  using assms by (induction fuel arbitrary: i) (auto simp: nth_list_update split: if_splits)

lemma loop_store_same:
  assumes "probe_loop vacant h tab fuel i = Some (v, False)" "v < length tab" "\<not> vacant x" "h x"
  shows "probe_loop vacant h (tab[v := x]) fuel i = Some (v, True)"
  using assms by (induction fuel arbitrary: i) (auto simp: nth_list_update split: if_splits)

lemma entries_store: "v < length tab \<Longrightarrow> vacant (tab ! v) \<Longrightarrow> \<not> vacant x \<Longrightarrow> entries (tab[v := x]) = insert x (entries tab)"
  unfolding entries_def set_conv_nth by (auto simp: nth_list_update)

lemma used_store: "v < length tab \<Longrightarrow> vacant (tab ! v) \<Longrightarrow> \<not> vacant x \<Longrightarrow> used (tab[v := x]) = used tab + 1"
  unfolding used_def by (subst (2) id_take_nth_drop [of v tab]) (simp_all add: upd_conv_take_nth_drop)

lemma store_ok:
  assumes "table_ok tab" "probe tab (key x) = Some (v, False)" "v < length tab" "\<not> vacant x" "is_key (key x)"
  shows "table_ok (tab[v := x])" "entries (tab[v := x]) = insert x (entries tab)" "used (tab[v := x]) = used tab + 1"
proof -
  note vac = probe_absent(1) [OF assms(1,2)]
  show e: "entries (tab[v := x]) = insert x (entries tab)" using entries_store [OF assms(3) vac assms(4)] .
  show "used (tab[v := x]) = used tab + 1" using used_store [OF assms(3) vac assms(4)] .
  have "probe (tab[v := x]) (key (tab[v := x] ! j)) = Some (j, True)" if j: "j < length tab" "\<not> vacant (tab[v := x] ! j)" for j
  proof (cases "j = v")
    case True
    have "hit (key x) x" using hit_key assms(4,5) by blast
    with True show ?thesis
      using loop_store_same [OF assms(2) [unfolded probe_def] assms(3,4)] assms(3) by (simp add: probe_def)
  next
    case False
    then have "probe tab (key (tab ! j)) = Some (j, True)" using j assms(1) by (simp add: table_ok_def)
    with False show ?thesis using loop_store_other [OF _ vac assms(3)] by (simp add: probe_def)
  qed
  with assms(1,5) e show "table_ok (tab[v := x])" by (auto simp: table_ok_def)
qed

lemma fresh_table: "vacant z \<Longrightarrow> table_ok (replicate (2 ^ n) z)" "vacant z \<Longrightarrow> entries (replicate m z) = {}" "vacant z \<Longrightarrow> used (replicate m z) = 0"
  by (auto simp: table_ok_def entries_def used_def)

lemma keys_distinct:
  assumes "table_ok tab"
  shows "distinct (map key (filter (\<lambda>x. \<not> vacant x) tab))"
proof -
  have "sorted_wrt (\<lambda>x y. \<not> vacant x \<longrightarrow> \<not> vacant y \<longrightarrow> key x \<noteq> key y) tab"
    unfolding sorted_wrt_iff_nth_less
  proof (intro allI impI notI)
    fix i j
    assume "i < j" "j < length tab" "\<not> vacant (tab ! i)" "\<not> vacant (tab ! j)" and k: "key (tab ! i) = key (tab ! j)"
    then have "probe tab (key (tab ! i)) = Some (i, True)" "probe tab (key (tab ! j)) = Some (j, True)"
      using assms less_trans [of i j "length tab"] unfolding table_ok_def by blast+
    with k \<open>i < j\<close> show False by simp
  qed
  then have "sorted_wrt (\<lambda>x y. \<not> vacant x \<longrightarrow> \<not> vacant y \<longrightarrow> key x \<noteq> key y) (filter (\<lambda>x. \<not> vacant x) tab)"
    by (rule sorted_wrt_filter)
  then have "sorted_wrt (\<lambda>x y. key x \<noteq> key y) (filter (\<lambda>x. \<not> vacant x) tab)"
    by (rule sorted_wrt_mono_rel [rotated]) simp
  then show ?thesis by (simp add: distinct_conv_nth sorted_wrt_iff_nth_less) (metis nat_neq_iff)
qed

lemma key_entries_inj: "table_ok tab \<Longrightarrow> x \<in> entries tab \<Longrightarrow> y \<in> entries tab \<Longrightarrow> key x = key y \<Longrightarrow> x = y"
  using keys_distinct [of tab] by (auto simp: entries_def distinct_map inj_on_def)

lemma used_card: "table_ok tab \<Longrightarrow> used tab = card (entries tab)"
  using keys_distinct [of tab] by (simp add: used_def entries_def distinct_card [symmetric] distinct_map flip: set_filter)

lemma entries_Cons: "entries (x # xs) = (if vacant x then entries xs else insert x (entries xs))"
  by (auto simp: entries_def)

lemma rehash_ok:
  assumes "table_ok nt" "\<forall>x \<in> entries xs. is_key (key x)" "distinct (map key (filter (\<lambda>x. \<not> vacant x) xs))"
    "\<forall>x \<in> entries xs. \<forall>y \<in> entries nt. key x \<noteq> key y" "used xs + used nt < length nt"
  shows "\<exists>nt'. rehash vacant (\<lambda>t x. probe t (key x)) xs nt = Some nt' \<and> table_ok nt' \<and> length nt' = length nt \<and>
    entries nt' = entries xs \<union> entries nt"
  using assms
proof (induction xs arbitrary: nt)
  case (Cons x xs)
  show ?case
  proof (cases "vacant x")
    case True
    then show ?thesis using Cons.IH [of nt] Cons.prems by (simp add: entries_Cons used_def)
  next
    case False
    from Cons.prems(1) obtain n where n: "length nt = 2 ^ n" by (auto simp: table_ok_def)
    have "used nt < length nt" using Cons.prems(5) by simp
    from probe_total [OF n this] obtain j b where j: "probe nt (key x) = Some (j, b)" "j < length nt" by blast
    have k: "is_key (key x)" using Cons.prems(2) False by (simp add: entries_Cons)
    have "\<not> b"
    proof
      assume b
      with probe_found [OF Cons.prems(1) k, of j] j have "\<not> vacant (nt ! j)" "key (nt ! j) = key x" by simp_all
      with j(2) have "nt ! j \<in> entries nt" "key (nt ! j) = key x" by (simp_all add: entries_def)
      with Cons.prems(4) False show False by (auto simp: entries_Cons)
    qed
    then have p: "probe nt (key x) = Some (j, False)" using j by simp
    note st = store_ok [OF Cons.prems(1) p j(2) False k]
    have d: "\<forall>y \<in> entries xs. key y \<noteq> key x" using Cons.prems(3) False by (auto simp: entries_def image_iff)
    have "\<exists>nt'. rehash vacant (\<lambda>t x. probe t (key x)) xs (nt[j := x]) = Some nt' \<and> table_ok nt' \<and> length nt' = length (nt[j := x]) \<and>
        entries nt' = entries xs \<union> entries (nt[j := x])"
    proof (rule Cons.IH)
      show "used xs + used (nt[j := x]) < length (nt[j := x])" using Cons.prems(5) False by (simp add: st(3)) (simp add: used_def)
    qed (use Cons.prems False st d in \<open>auto simp: entries_Cons\<close>)
    then show ?thesis using False p by (auto simp: entries_Cons st(2))
  qed
qed (simp add: entries_def)

lemma rehash_table:
  assumes "table_ok tab" "vacant z" "used tab < 2 ^ n"
  shows "\<exists>nt. rehash vacant (\<lambda>t x. probe t (key x)) tab (replicate (2 ^ n) z) = Some nt \<and> table_ok nt \<and> length nt = 2 ^ n \<and>
    entries nt = entries tab"
  using rehash_ok [OF fresh_table(1) [OF assms(2)], of tab n] assms fresh_table(2,3) [OF assms(2), of "2 ^ n"] keys_distinct [OF assms(1)]
  by (simp add: table_ok_def)

end

interpretation slot_tab: probe_table "\<lambda>e. e = None" "\<lambda>e. el_content_id (the e)" "\<lambda>k. length k = ANTS_CRDT_CONTENT_ID_SIZE"
  "\<lambda>k e. memcmp (el_content_id (the e)) k ANTS_CRDT_CONTENT_ID_SIZE = 0"
  by unfold_locales (simp add: memcmp_key)

interpretation retired_tab: probe_table subject_is_zero "\<lambda>t. t" "\<lambda>k. length k = ANTS_CRDT_PEER_ID_SIZE \<and> \<not> subject_is_zero k"
  "\<lambda>k t. memcmp t k ANTS_CRDT_PEER_ID_SIZE = 0"
  by unfold_locales (simp add: memcmp_key)

lemma probes: "crdt_probe = slot_tab.probe" "retired_probe = retired_tab.probe"
  by (simp_all add: fun_eq_iff crdt_probe_def retired_probe_def slot_tab.probe_def retired_tab.probe_def)

section \<open>The abstract set\<close>

record gset_abs =
  ga_elems :: "crdt_elem set"
  ga_floor :: u64
  ga_retired :: "bytes set"

definition elem_ok :: "crdt_elem \<Rightarrow> bool" where
  "elem_ok e \<longleftrightarrow> length (el_content_id e) = ANTS_CRDT_CONTENT_ID_SIZE \<and> length (el_subject e) = ANTS_CRDT_PEER_ID_SIZE"

definition retired_ok :: "ants_crdt \<Rightarrow> bool" where
  "retired_ok s \<longleftrightarrow> (cs_retired s = [] \<or> retired_tab.table_ok (cs_retired s)) \<and>
    cs_n_retired s = retired_tab.used (cs_retired s) \<and> cs_n_retired s * 2 \<le> length (cs_retired s)"

definition slots_ok :: "ants_crdt \<Rightarrow> bool" where
  "slots_ok s \<longleftrightarrow> slot_tab.table_ok (cs_slots s) \<and> CRDT_INITIAL_CAP \<le> length (cs_slots s) \<and> (\<forall>e. Some e \<in> set (cs_slots s) \<longrightarrow> elem_ok e) \<and>
    cs_count s = slot_tab.used (cs_slots s) \<and> cs_count s * 10 < length (cs_slots s) * 7"

definition gset_ok :: "ants_crdt \<Rightarrow> bool" where
  "gset_ok s \<longleftrightarrow> slots_ok s \<and> retired_ok s"

definition slot_elems :: "crdt_elem option list \<Rightarrow> crdt_elem set" where
  "slot_elems slots = {e. Some e \<in> set slots}"

definition retired_set :: "ants_crdt \<Rightarrow> bytes set" where
  "retired_set s = retired_tab.entries (cs_retired s) \<union> (if cs_retired_zero s then {replicate ANTS_CRDT_PEER_ID_SIZE 0} else {})"

definition gset_view :: "ants_crdt \<Rightarrow> gset_abs" where
  "gset_view s = \<lparr>ga_elems = slot_elems (cs_slots s), ga_floor = cs_floor s, ga_retired = retired_set s\<rparr>"

lemma slot_entries: "slot_tab.entries slots = Some ` slot_elems slots"
  by (auto simp: slot_tab.entries_def slot_elems_def image_iff)

section \<open>Retired subjects\<close>

lemma zero_subject: "length subject = ANTS_CRDT_PEER_ID_SIZE \<Longrightarrow> subject_is_zero subject \<longleftrightarrow> subject = replicate ANTS_CRDT_PEER_ID_SIZE 0"
  by (auto simp: subject_is_zero_def list_all_iff replicate_eqI)

lemma zeros_vacant [simp]: "subject_is_zero (replicate n 0)"
  by (simp add: subject_is_zero_def list_all_iff)

lemma entries_not_zero: "x \<in> retired_tab.entries tab \<Longrightarrow> \<not> subject_is_zero x"
  by (simp add: retired_tab.entries_def)

lemma retired_mem:
  assumes "length subject = ANTS_CRDT_PEER_ID_SIZE"
  shows "subject \<in> retired_set s \<longleftrightarrow> (if subject_is_zero subject then cs_retired_zero s else subject \<in> retired_tab.entries (cs_retired s))"
  using entries_not_zero [of subject "cs_retired s"] zero_subject [OF assms] by (auto simp: retired_set_def)

lemma retired_probe_total:
  assumes "retired_ok s" "cs_retired s \<noteq> []"
  shows "retired_tab.table_ok (cs_retired s)" "\<exists>j b. retired_tab.probe (cs_retired s) subject = Some (j, b) \<and> j < length (cs_retired s)"
proof -
  show t: "retired_tab.table_ok (cs_retired s)" using assms by (simp add: retired_ok_def)
  then obtain n where n: "length (cs_retired s) = 2 ^ n" by (auto simp: retired_tab.table_ok_def)
  have "retired_tab.used (cs_retired s) < length (cs_retired s)" using assms by (cases "cs_retired s") (auto simp: retired_ok_def)
  with n show "\<exists>j b. retired_tab.probe (cs_retired s) subject = Some (j, b) \<and> j < length (cs_retired s)"
    by (rule retired_tab.probe_total)
qed

lemma retired_has_eq:
  assumes "retired_ok s" "length subject = ANTS_CRDT_PEER_ID_SIZE"
  shows "retired_has s subject = Some (subject \<in> retired_set s)"
proof (cases "subject_is_zero subject \<or> cs_retired s = []")
  case True
  then show ?thesis using retired_mem [OF assms(2), of s] by (auto simp: retired_has_def retired_tab.entries_def)
next
  case False
  note t = retired_probe_total [OF assms(1)]
  from False t(2) [of subject] obtain j b where j: "retired_tab.probe (cs_retired s) subject = Some (j, b)" "j < length (cs_retired s)" by blast
  have k: "length subject = ANTS_CRDT_PEER_ID_SIZE \<and> \<not> subject_is_zero subject" using False assms(2) by simp
  have "b \<longleftrightarrow> subject \<in> retired_tab.entries (cs_retired s)"
  proof (cases b)
    case True
    with retired_tab.probe_found [OF t(1) k, of j] j False show ?thesis by (auto simp: retired_tab.entries_def)
  next
    case b: False
    with retired_tab.probe_absent(2) [OF t(1), of subject j] j False show ?thesis by auto
  qed
  with False j retired_mem [OF assms(2), of s] show ?thesis by (simp add: retired_has_def probes)
qed

lemma double_cap_enough:
  assumes "0 < cap"
  shows "need * 2 \<le> double_cap need cap" "\<exists>k. double_cap need cap = cap * 2 ^ k"
proof -
  have "need * 2 \<le> double_cap need cap \<and> (\<exists>k. double_cap need cap = cap * 2 ^ k)"
    using assms
  proof (induction need cap rule: double_cap.induct)
    case (1 need cap)
    show ?case
    proof (cases "need * 2 > cap")
      case True
      with 1 obtain k where "need * 2 \<le> double_cap need (cap * 2)" "double_cap need (cap * 2) = cap * 2 * 2 ^ k" by auto
      with True 1(2) show ?thesis by (subst (1 2) double_cap.simps) (auto intro: exI [of _ "Suc k"])
    next
      case False
      then show ?thesis by (subst (1 2) double_cap.simps) (auto intro: exI [of _ 0])
    qed
  qed
  then show "need * 2 \<le> double_cap need cap" "\<exists>k. double_cap need cap = cap * 2 ^ k" by blast+
qed

text \<open>Operations on the retired subjects leave the proofs alone.\<close>

definition same_proofs :: "ants_crdt \<Rightarrow> ants_crdt \<Rightarrow> bool" where
  "same_proofs s s' \<longleftrightarrow> cs_slots s' = cs_slots s \<and> cs_count s' = cs_count s \<and> cs_floor s' = cs_floor s"

lemma reserve_ok:
  assumes "retired_ok s"
  shows "\<exists>s'. retired_reserve extra s = Some s' \<and> retired_ok s' \<and> retired_set s' = retired_set s \<and> same_proofs s s' \<and>
    (retired_tab.used (cs_retired s') + extra) * 2 \<le> length (cs_retired s')"
proof (cases "(cs_n_retired s + extra) * 2 \<le> length (cs_retired s)")
  case True
  then show ?thesis using assms by (auto simp: retired_reserve_def same_proofs_def retired_ok_def)
next
  case False
  let ?need = "cs_n_retired s + extra" and ?start = "if length (cs_retired s) \<noteq> 0 then length (cs_retired s) else 16"
  define cap where "cap = double_cap ?need ?start"
  have start: "0 < ?start" "\<exists>n. ?start = 2 ^ n"
    using assms by (auto simp: retired_ok_def retired_tab.table_ok_def intro: exI [of _ 4])
  obtain n k where "?start = 2 ^ n" "cap = ?start * 2 ^ k"
    using start(2) double_cap_enough(2) [OF start(1), of ?need] unfolding cap_def by blast
  then have m: "cap = 2 ^ (n + k)" by (simp only: power_add)
  have need: "?need * 2 \<le> cap" unfolding cap_def by (rule double_cap_enough(1) [OF start(1)])
  have "0 < ?need" using False by (rule contrapos_np) simp
  then have u: "retired_tab.used (cs_retired s) < 2 ^ (n + k)" using need assms unfolding m retired_ok_def by auto
  have "\<exists>nt. rehash subject_is_zero retired_probe (cs_retired s) (replicate cap (replicate ANTS_CRDT_PEER_ID_SIZE 0)) = Some nt \<and>
      retired_tab.table_ok nt \<and> length nt = cap \<and> retired_tab.entries nt = retired_tab.entries (cs_retired s)"
  proof (cases "cs_retired s = []")
    case True
    then show ?thesis unfolding m by (simp add: retired_tab.fresh_table retired_tab.entries_def)
  next
    case False
    then have "retired_tab.table_ok (cs_retired s)" using assms by (simp add: retired_ok_def)
    from retired_tab.rehash_table [OF this zeros_vacant u] show ?thesis unfolding m probes by blast
  qed
  then obtain nt where nt: "rehash subject_is_zero retired_probe (cs_retired s) (replicate cap (replicate ANTS_CRDT_PEER_ID_SIZE 0)) = Some nt"
      "retired_tab.table_ok nt" "length nt = cap" "retired_tab.entries nt = retired_tab.entries (cs_retired s)"
    by blast
  have used: "retired_tab.used nt = cs_n_retired s"
    using assms retired_tab.used_card [OF nt(2)] nt(4) retired_tab.used_card [of "cs_retired s"]
    by (cases "cs_retired s = []") (auto simp: retired_ok_def retired_tab.entries_def retired_tab.used_def)
  let ?s = "s\<lparr>cs_retired := nt\<rparr>"
  have "retired_reserve extra s = Some ?s"
    unfolding retired_reserve_def Let_def cap_def [symmetric] nt(1) using False by simp
  moreover have "retired_ok ?s" using nt(2,3) used need by (simp add: retired_ok_def)
  moreover have "retired_set ?s = retired_set s" "same_proofs s ?s" using nt(4) by (simp_all add: retired_set_def same_proofs_def)
  moreover have "(retired_tab.used (cs_retired ?s) + extra) * 2 \<le> length (cs_retired ?s)" using used nt(3) need by simp
  ultimately show ?thesis by blast
qed

lemma add_ok:
  assumes "retired_ok s" "length subject = ANTS_CRDT_PEER_ID_SIZE" "(retired_tab.used (cs_retired s) + 1) * 2 \<le> length (cs_retired s)"
  shows "\<exists>s'. retired_add subject s = Some (subject \<notin> retired_set s, s') \<and> retired_ok s' \<and>
    retired_set s' = insert subject (retired_set s) \<and> same_proofs s s' \<and> length (cs_retired s') = length (cs_retired s) \<and>
    retired_tab.used (cs_retired s') \<le> retired_tab.used (cs_retired s) + 1"
proof (cases "subject_is_zero subject")
  case True
  then show ?thesis
    using assms zero_subject [OF assms(2)] retired_mem [OF assms(2), of s]
    by (auto simp: retired_add_def retired_ok_def retired_set_def same_proofs_def)
next
  case False
  have ne: "cs_retired s \<noteq> []" using assms(3) by auto
  note t = retired_probe_total [OF assms(1) ne]
  from t(2) [of subject] obtain j b where j: "retired_tab.probe (cs_retired s) subject = Some (j, b)" "j < length (cs_retired s)" by blast
  have k: "length subject = ANTS_CRDT_PEER_ID_SIZE \<and> \<not> subject_is_zero subject" using False assms(2) by simp
  note mem = retired_mem [OF assms(2), of s]
  show ?thesis
  proof (cases b)
    case True
    with retired_tab.probe_found [OF t(1) k, of j] j have "subject \<in> retired_tab.entries (cs_retired s)"
      by (auto simp: retired_tab.entries_def)
    with True j False mem assms(1) show ?thesis by (auto simp: retired_add_def probes same_proofs_def)
  next
    case b: False
    then have p: "retired_tab.probe (cs_retired s) subject = Some (j, False)" using j by simp
    note st = retired_tab.store_ok [OF t(1) p j(2) False k]
    have "subject \<notin> retired_tab.entries (cs_retired s)" using retired_tab.probe_absent(2) [OF t(1) p] by auto
    then show ?thesis
      using p False mem assms st by (auto simp: retired_add_def probes same_proofs_def retired_ok_def retired_set_def)
  qed
qed

section \<open>Insertion\<close>

definition abs_insert :: "crdt_elem \<Rightarrow> gset_abs \<Rightarrow> gset_abs" where
  "abs_insert e a =
    (if el_epoch e < ga_floor a then a\<lparr>ga_retired := insert (el_subject e) (ga_retired a)\<rparr>
     else if el_content_id e \<in> el_content_id ` ga_elems a then a
     else a\<lparr>ga_elems := insert e (ga_elems a)\<rparr>)"

definition abs_news :: "crdt_elem \<Rightarrow> gset_abs \<Rightarrow> bool" where
  "abs_news e a \<longleftrightarrow> (if el_epoch e < ga_floor a then el_subject e \<notin> ga_retired a else el_content_id e \<notin> el_content_id ` ga_elems a)"

lemma slots_ok_same: "same_proofs s s' \<Longrightarrow> slots_ok s' = slots_ok s"
  by (simp add: same_proofs_def slots_ok_def)

lemma grow_ok:
  assumes "slots_ok s"
  shows "\<exists>s'. crdt_grow s = Some s' \<and> slots_ok s' \<and> slot_elems (cs_slots s') = slot_elems (cs_slots s) \<and>
    length (cs_slots s') = 2 * length (cs_slots s) \<and> cs_count s' = cs_count s \<and> cs_floor s' = cs_floor s \<and>
    cs_retired s' = cs_retired s \<and> cs_n_retired s' = cs_n_retired s \<and> cs_retired_zero s' = cs_retired_zero s"
proof -
  have t: "slot_tab.table_ok (cs_slots s)" using assms by (simp add: slots_ok_def)
  then obtain n where n: "length (cs_slots s) = 2 ^ n" by (auto simp: slot_tab.table_ok_def)
  have "slot_tab.used (cs_slots s) < 2 ^ Suc n" using assms n by (simp add: slots_ok_def)
  from slot_tab.rehash_table [OF t refl this] obtain ns where
    ns: "rehash (\<lambda>e. e = None) (\<lambda>t x. slot_tab.probe t (el_content_id (the x))) (cs_slots s) (replicate (2 ^ Suc n) None) = Some ns"
      "slot_tab.table_ok ns" "length ns = 2 ^ Suc n" "slot_tab.entries ns = slot_tab.entries (cs_slots s)"
    by blast
  have e: "slot_elems ns = slot_elems (cs_slots s)" using ns(4) by (simp add: slot_entries inj_image_eq_iff)
  have u: "slot_tab.used ns = slot_tab.used (cs_slots s)" using slot_tab.used_card [OF ns(2)] slot_tab.used_card [OF t] ns(4) by simp
  have "crdt_grow s = Some (s\<lparr>cs_slots := ns\<rparr>)" using ns(1) n by (simp add: crdt_grow_def probes mult.commute)
  moreover have "slots_ok (s\<lparr>cs_slots := ns\<rparr>)"
    using assms ns e u n by (auto simp: slots_ok_def slot_elems_def)
  ultimately show ?thesis using e ns(3) n by simp
qed

lemma slot_probe_total:
  assumes "slots_ok s"
  shows "\<exists>j b. slot_tab.probe (cs_slots s) cid = Some (j, b) \<and> j < length (cs_slots s)"
proof -
  from assms obtain n where "length (cs_slots s) = 2 ^ n" by (auto simp: slots_ok_def slot_tab.table_ok_def)
  then show ?thesis using assms by (intro slot_tab.probe_total) (auto simp: slots_ok_def)
qed

lemma slot_probe_eq:
  assumes "slots_ok s" "length cid = ANTS_CRDT_CONTENT_ID_SIZE" "slot_tab.probe (cs_slots s) cid = Some (j, b)" "j < length (cs_slots s)"
  shows "b \<longleftrightarrow> cid \<in> el_content_id ` slot_elems (cs_slots s)"
proof (cases b)
  case True
  have t: "slot_tab.table_ok (cs_slots s)" using assms(1) by (simp add: slots_ok_def)
  from slot_tab.probe_found [OF t assms(2), of j] assms(3,4) True
  obtain e where "cs_slots s ! j = Some e" "el_content_id e = cid" by auto
  with assms(4) have "e \<in> slot_elems (cs_slots s)" unfolding slot_elems_def by (auto simp: in_set_conv_nth intro: exI [of _ j])
  with \<open>el_content_id e = cid\<close> True show ?thesis by blast
next
  case False
  have t: "slot_tab.table_ok (cs_slots s)" using assms(1) by (simp add: slots_ok_def)
  from slot_tab.probe_absent(2) [OF t, of cid j] assms(3) False show ?thesis by (auto simp: slot_entries)
qed

lemma insert_below_floor:
  assumes "gset_ok s" "elem_ok e" "el_epoch e < cs_floor s"
  shows "\<exists>s'. crdt_insert_elem e s = Some (abs_news e (gset_view s), s') \<and> gset_ok s' \<and> gset_view s' = abs_insert e (gset_view s)"
proof -
  have r: "retired_ok s" and l: "length (el_subject e) = ANTS_CRDT_PEER_ID_SIZE" using assms by (simp_all add: gset_ok_def elem_ok_def)
  note has = retired_has_eq [OF r l]
  show ?thesis
  proof (cases "el_subject e \<in> retired_set s")
    case True
    then show ?thesis
      using assms has by (simp add: crdt_insert_elem_def abs_news_def abs_insert_def gset_view_def insert_absorb)
  next
    case False
    from reserve_ok [OF r, of 1] obtain s1 where s1: "retired_reserve 1 s = Some s1" "retired_ok s1" "retired_set s1 = retired_set s"
        "same_proofs s s1" "(retired_tab.used (cs_retired s1) + 1) * 2 \<le> length (cs_retired s1)"
      by blast
    from add_ok [OF s1(2) l s1(5)] obtain s2 where s2: "retired_add (el_subject e) s1 = Some (el_subject e \<notin> retired_set s1, s2)"
        "retired_ok s2" "retired_set s2 = insert (el_subject e) (retired_set s1)" "same_proofs s1 s2"
      by blast
    have "same_proofs s s2" using s1(4) s2(4) by (simp add: same_proofs_def)
    with assms s2(2) have "gset_ok s2" by (simp add: gset_ok_def slots_ok_same [of s s2])
    with assms(3) False has s1 s2 \<open>same_proofs s s2\<close> show ?thesis
      by (simp add: crdt_insert_elem_def abs_news_def abs_insert_def gset_view_def same_proofs_def)
  qed
qed

lemma insert_above_floor:
  assumes "gset_ok s" "elem_ok e" "\<not> el_epoch e < cs_floor s"
  shows "\<exists>s'. crdt_insert_elem e s = Some (abs_news e (gset_view s), s') \<and> gset_ok s' \<and> gset_view s' = abs_insert e (gset_view s)"
proof -
  let ?full = "(cs_count s + 1) * 10 \<ge> length (cs_slots s) * 7"
  obtain s1 where s1: "(if ?full then crdt_grow s else Some s) = Some s1" "gset_ok s1" "gset_view s1 = gset_view s" "cs_floor s1 = cs_floor s"
      "(cs_count s1 + 1) * 10 < length (cs_slots s1) * 7"
  proof (cases ?full)
    case True
    from grow_ok [of s] assms(1) obtain s' where g: "crdt_grow s = Some s'" "slots_ok s'" "slot_elems (cs_slots s') = slot_elems (cs_slots s)"
        "length (cs_slots s') = 2 * length (cs_slots s)" "cs_count s' = cs_count s" "cs_floor s' = cs_floor s" "cs_retired s' = cs_retired s"
        "cs_n_retired s' = cs_n_retired s" "cs_retired_zero s' = cs_retired_zero s"
      by (auto simp: gset_ok_def)
    then have "gset_ok s'" "gset_view s' = gset_view s"
      using assms(1) by (simp_all add: gset_ok_def gset_view_def retired_set_def retired_ok_def)
    moreover have "(cs_count s' + 1) * 10 < length (cs_slots s') * 7"
      using assms(1) g(4,5) by (simp add: gset_ok_def slots_ok_def CRDT_INITIAL_CAP_def)
    ultimately show ?thesis using that [of s'] g(1,6) True by simp
  next
    case False
    then show ?thesis using that [of s] assms(1) by simp
  qed
  have ok1: "slots_ok s1" and k: "length (el_content_id e) = ANTS_CRDT_CONTENT_ID_SIZE" using s1(2) assms(2) by (simp_all add: gset_ok_def elem_ok_def)
  from slot_probe_total [OF ok1] obtain j b where j: "slot_tab.probe (cs_slots s1) (el_content_id e) = Some (j, b)" "j < length (cs_slots s1)" by blast
  have b: "b \<longleftrightarrow> el_content_id e \<in> el_content_id ` ga_elems (gset_view s)"
    using slot_probe_eq [OF ok1 k j] s1(3) by (simp add: gset_view_def)
  have fl: "ga_floor (gset_view s) = cs_floor s" by (simp add: gset_view_def)
  show ?thesis
  proof (cases b)
    case True
    then show ?thesis using assms(3) s1 j b fl by (simp add: crdt_insert_elem_def abs_news_def abs_insert_def probes)
  next
    case False
    then have p: "slot_tab.probe (cs_slots s1) (el_content_id (the (Some e))) = Some (j, False)" using j by simp
    let ?s = "s1\<lparr>cs_slots := (cs_slots s1)[j := Some e], cs_count := cs_count s1 + 1\<rparr>"
    have t: "slot_tab.table_ok (cs_slots s1)" using ok1 by (simp add: slots_ok_def)
    note st = slot_tab.store_ok [OF t p j(2) _ , simplified, OF k]
    have el: "slot_elems (cs_slots ?s) = insert e (slot_elems (cs_slots s1))"
      using st(2) by (auto simp: slot_entries)
    have "slots_ok ?s" using ok1 st el assms(2) s1(5) by (auto simp: slots_ok_def slot_elems_def)
    then have "gset_ok ?s" using s1(2) by (simp add: gset_ok_def retired_ok_def)
    moreover have "gset_view ?s = abs_insert e (gset_view s)"
      using el b False assms(3) s1(3) fl by (auto simp: abs_insert_def gset_view_def retired_set_def)
    moreover have "crdt_insert_elem e s = Some (abs_news e (gset_view s), ?s)"
      using assms(3) s1 p False b fl by (simp add: crdt_insert_elem_def abs_news_def probes)
    ultimately show ?thesis by blast
  qed
qed

lemma insert_elem_ok:
  assumes "gset_ok s" "elem_ok e"
  shows "\<exists>s'. crdt_insert_elem e s = Some (abs_news e (gset_view s), s') \<and> gset_ok s' \<and> gset_view s' = abs_insert e (gset_view s)"
  using insert_below_floor [OF assms] insert_above_floor [OF assms] by blast

section \<open>Pruning\<close>

definition abs_prune :: "u64 \<Rightarrow> gset_abs \<Rightarrow> gset_abs" where
  "abs_prune keep a =
    a\<lparr>ga_elems := {e \<in> ga_elems a. keep \<le> el_epoch e},
      ga_floor := max (ga_floor a) keep,
      ga_retired := ga_retired a \<union> el_subject ` {e \<in> ga_elems a. el_epoch e < keep}\<rparr>"

lemma cap_for_enough: "n * 10 < crdt_cap_for n * 7 \<and> CRDT_INITIAL_CAP \<le> crdt_cap_for n \<and> (\<exists>k. crdt_cap_for n = 2 ^ k)"
proof -
  have "n * 10 < cap_loop n cap * 7 \<and> cap \<le> cap_loop n cap \<and> (\<exists>k. cap_loop n cap = 2 ^ k)" if "cap = 2 ^ m" for cap m
    using that
  proof (induction n cap arbitrary: m rule: cap_loop.induct)
    case (1 n cap)
    show ?case
    proof (cases "n * 10 \<ge> cap * 7")
      case True
      with 1(1) [of "Suc m"] 1(2) have "n * 10 < cap_loop n (cap * 2) * 7 \<and> cap * 2 \<le> cap_loop n (cap * 2) \<and> (\<exists>k. cap_loop n (cap * 2) = 2 ^ k)"
        by simp
      moreover have "cap_loop n cap = cap_loop n (cap * 2)" using True 1(2) by (subst cap_loop.simps) simp
      ultimately show ?thesis by auto
    next
      case False
      then have "cap_loop n cap = cap" by (subst cap_loop.simps) simp
      with False 1(2) show ?thesis by auto
    qed
  qed
  from this [of CRDT_INITIAL_CAP 4] show ?thesis by (simp add: crdt_cap_for_def CRDT_INITIAL_CAP_def)
qed

abbreviation survives :: "u64 \<Rightarrow> crdt_elem option \<Rightarrow> bool" where
  "survives keep x \<equiv> x \<noteq> None \<and> el_epoch (the x) \<ge> keep"

definition pruned_part :: "u64 \<Rightarrow> crdt_elem option list \<Rightarrow> crdt_elem option list" where
  "pruned_part keep es = filter (\<lambda>x. x \<noteq> None \<and> \<not> el_epoch (the x) \<ge> keep) es"

text \<open>The loop does two independent things: it rehashes the survivors and retires the subjects of
  the rest.\<close>

fun retire_all :: "bytes list \<Rightarrow> ants_crdt \<Rightarrow> ants_crdt option" where
  "retire_all [] s = Some s"
| "retire_all (x # xs) s = do { (new, s') \<leftarrow> retired_add x s; retire_all xs s' }"

lemma prune_loop_split:
  "prune_loop keep es ns s =
    do { ns' \<leftarrow> rehash (\<lambda>x. x = None) (\<lambda>t x. slot_tab.probe t (el_content_id (the x))) (filter (survives keep) es) ns;
         s' \<leftarrow> retire_all (map (\<lambda>x. el_subject (the x)) (pruned_part keep es)) s;
         Some (ns', s', length (pruned_part keep es)) }"
proof (induction keep es ns s rule: prune_loop.induct)
  case (3 keep e es ns s)
  show ?case
  proof (cases "keep \<le> el_epoch e")
    case True
    then show ?thesis
      using 3(1) [OF True] by (cases "slot_tab.probe ns (el_content_id e)") (auto simp: probes pruned_part_def)
  next
    case False
    let ?r = "rehash (\<lambda>x. x = None) (\<lambda>t x. slot_tab.probe t (el_content_id (the x))) (filter (survives keep) es) ns"
    show ?thesis
      using 3(2) [OF False] False
      by (cases "retired_add (el_subject e) s"; cases ?r) (auto simp: pruned_part_def split: Option.bind_splits)
  qed
qed (simp_all add: pruned_part_def)

lemma retire_all_ok:
  assumes "retired_ok s" "\<forall>x \<in> set xs. length x = ANTS_CRDT_PEER_ID_SIZE" "(retired_tab.used (cs_retired s) + length xs) * 2 \<le> length (cs_retired s)"
  shows "\<exists>s'. retire_all xs s = Some s' \<and> retired_ok s' \<and> same_proofs s s' \<and> retired_set s' = retired_set s \<union> set xs"
  using assms
proof (induction xs arbitrary: s)
  case (Cons x xs)
  have "(retired_tab.used (cs_retired s) + 1) * 2 \<le> length (cs_retired s)" using Cons.prems(3) by simp
  from add_ok [OF Cons.prems(1) _ this, of x] Cons.prems(2) obtain s1 where s1: "retired_add x s = Some (x \<notin> retired_set s, s1)"
      "retired_ok s1" "retired_set s1 = insert x (retired_set s)" "same_proofs s s1" "length (cs_retired s1) = length (cs_retired s)"
      "retired_tab.used (cs_retired s1) \<le> retired_tab.used (cs_retired s) + 1"
    by auto
  have "(retired_tab.used (cs_retired s1) + length xs) * 2 \<le> length (cs_retired s1)" using Cons.prems(3) s1(5,6) by simp
  from Cons.IH [OF s1(2) _ this] Cons.prems(2) obtain s' where "retire_all xs s1 = Some s'" "retired_ok s'" "same_proofs s1 s'"
      "retired_set s' = retired_set s1 \<union> set xs"
    by auto
  with s1 show ?case by (auto simp: same_proofs_def)
qed (simp add: same_proofs_def)

lemma split_length: "length (filter P xs) = length (filter (\<lambda>x. P x \<and> Q x) xs) + length (filter (\<lambda>x. P x \<and> \<not> Q x) xs)"
  by (induction xs) auto

lemma part_card:
  assumes "slot_tab.table_ok es" "\<And>x. P x \<Longrightarrow> x \<noteq> None"
  shows "set (filter P es) = Some ` {e \<in> slot_elems es. P (Some e)}" "length (filter P es) = card {e \<in> slot_elems es. P (Some e)}"
    "distinct (map (\<lambda>x. el_content_id (the x)) (filter P es))"
proof -
  have "filter P es = filter P (filter (\<lambda>x. x \<noteq> None) es)" using assms(2) by (auto simp: filter_filter intro: filter_cong)
  then show d: "distinct (map (\<lambda>x. el_content_id (the x)) (filter P es))"
    using slot_tab.keys_distinct [OF assms(1)] by (metis distinct_map_filter)
  show s: "set (filter P es) = Some ` {e \<in> slot_elems es. P (Some e)}"
    using assms(2) by (force simp: slot_elems_def image_iff)
  have "length (filter P es) = card (set (filter P es))" using d by (simp only: distinct_map distinct_card)
  also have "\<dots> = card {e \<in> slot_elems es. P (Some e)}" unfolding s by (rule card_image) simp
  finally show "length (filter P es) = card {e \<in> slot_elems es. P (Some e)}" .
qed

lemma survivors_rehash:
  assumes "slots_ok s" "length (filter (survives keep) (cs_slots s)) < 2 ^ n"
  shows "\<exists>nt. rehash (\<lambda>x. x = None) (\<lambda>t x. slot_tab.probe t (el_content_id (the x))) (filter (survives keep) (cs_slots s)) (replicate (2 ^ n) None) = Some nt \<and>
      slot_tab.table_ok nt \<and> length nt = 2 ^ n \<and> slot_elems nt = {e \<in> slot_elems (cs_slots s). keep \<le> el_epoch e} \<and>
      slot_tab.used nt = length (filter (survives keep) (cs_slots s))"
proof -
  let ?sv = "filter (survives keep) (cs_slots s)"
  have t: "slot_tab.table_ok (cs_slots s)" using assms(1) by (simp add: slots_ok_def)
  note part = part_card [OF t, of "survives keep", simplified]
  have nv: "filter (\<lambda>x. x \<noteq> None) ?sv = ?sv" by (auto simp: filter_id_conv simp del: filter_filter)
  have ent: "slot_tab.entries ?sv = Some ` {e \<in> slot_elems (cs_slots s). keep \<le> el_epoch e}"
    using part(1) by (auto simp: slot_tab.entries_def)
  have "\<exists>nt. rehash (\<lambda>x. x = None) (\<lambda>t x. slot_tab.probe t (el_content_id (the x))) ?sv (replicate (2 ^ n) None) = Some nt \<and>
      slot_tab.table_ok nt \<and> length nt = length (replicate (2 ^ n) (None :: crdt_elem option)) \<and>
      slot_tab.entries nt = slot_tab.entries ?sv \<union> slot_tab.entries (replicate (2 ^ n) None)"
  proof (rule slot_tab.rehash_ok)
    show "\<forall>x \<in> slot_tab.entries ?sv. length (el_content_id (the x)) = ANTS_CRDT_CONTENT_ID_SIZE"
      unfolding ent using assms(1) by (auto simp: slots_ok_def elem_ok_def slot_elems_def)
    show "distinct (map (\<lambda>e. el_content_id (the e)) (filter (\<lambda>x. x \<noteq> None) ?sv))" unfolding nv using part(3) by simp
    show "slot_tab.used ?sv + slot_tab.used (replicate (2 ^ n) None) < length (replicate (2 ^ n) (None :: crdt_elem option))"
      unfolding slot_tab.used_def nv using assms(2) by simp
  qed (simp_all add: slot_tab.fresh_table)
  then obtain nt where nt: "rehash (\<lambda>x. x = None) (\<lambda>t x. slot_tab.probe t (el_content_id (the x))) ?sv (replicate (2 ^ n) None) = Some nt"
      "slot_tab.table_ok nt" "length nt = 2 ^ n" and e: "slot_tab.entries nt = Some ` {e \<in> slot_elems (cs_slots s). keep \<le> el_epoch e}"
    unfolding ent by (auto simp: slot_tab.fresh_table)
  have el: "slot_elems nt = {e \<in> slot_elems (cs_slots s). keep \<le> el_epoch e}"
    using e by (simp only: slot_entries inj_image_eq_iff [OF inj_Some])
  have "slot_tab.used nt = length ?sv"
    using slot_tab.used_card [OF nt(2)] el part(2) by (simp add: slot_entries card_image)
  then show ?thesis using nt el by blast
qed

lemma prune_ok:
  assumes "gset_ok s"
  shows "\<exists>k s'. ants_crdt_prune keep s = Some (k, s') \<and> gset_ok s' \<and> gset_view s' = abs_prune keep (gset_view s) \<and>
    k = card {e \<in> ga_elems (gset_view s). el_epoch e < keep}"
proof -
  let ?es = "cs_slots s" and ?sv = "filter (survives keep) (cs_slots s)" and ?pr = "pruned_part keep (cs_slots s)"
  have ok: "slots_ok s" "retired_ok s" and t: "slot_tab.table_ok ?es" using assms by (simp_all add: gset_ok_def slots_ok_def)
  note cap = cap_for_enough [of "length ?sv"]
  then obtain n where n: "crdt_cap_for (length ?sv) = 2 ^ n" by blast
  have count: "cs_count s = length ?sv + length ?pr"
    using ok(1) split_length [of "\<lambda>x. x \<noteq> None" ?es "\<lambda>x. keep \<le> el_epoch (the x)"]
    by (simp add: slots_ok_def slot_tab.used_def pruned_part_def)
  have pr: "set ?pr = Some ` {e \<in> slot_elems ?es. el_epoch e < keep}" "length ?pr = card {e \<in> slot_elems ?es. el_epoch e < keep}"
    using part_card [OF t, of "\<lambda>x. x \<noteq> None \<and> \<not> keep \<le> el_epoch (the x)"] unfolding pruned_part_def by (simp_all add: not_le)
  from reserve_ok [OF ok(2), of "cs_count s - length ?sv"] obtain s1 where s1: "retired_reserve (cs_count s - length ?sv) s = Some s1"
      "retired_ok s1" "retired_set s1 = retired_set s" "same_proofs s s1" "(retired_tab.used (cs_retired s1) + length ?pr) * 2 \<le> length (cs_retired s1)"
    unfolding count by auto
  have sub: "\<forall>x \<in> set (map (\<lambda>x. el_subject (the x)) ?pr). length x = ANTS_CRDT_PEER_ID_SIZE"
    using ok(1) pr(1) by (auto simp: slots_ok_def elem_ok_def slot_elems_def)
  from retire_all_ok [OF s1(2) sub] s1(5) obtain s2 where s2: "retire_all (map (\<lambda>x. el_subject (the x)) ?pr) s1 = Some s2"
      "retired_ok s2" "same_proofs s1 s2" "retired_set s2 = retired_set s1 \<union> el_subject ` {e \<in> slot_elems ?es. el_epoch e < keep}"
    using pr(1) by (auto simp: image_image)
  have "length ?sv < 2 ^ n" using cap n by auto
  from survivors_rehash [OF ok(1) this] obtain nt where
    nt: "rehash (\<lambda>x. x = None) (\<lambda>t x. slot_tab.probe t (el_content_id (the x))) ?sv (replicate (2 ^ n) None) = Some nt"
      "slot_tab.table_ok nt" "length nt = 2 ^ n" "slot_elems nt = {e \<in> slot_elems ?es. keep \<le> el_epoch e}" "slot_tab.used nt = length ?sv"
    by blast
  let ?s = "s2\<lparr>cs_slots := nt, cs_count := length ?sv, cs_floor := (if keep > cs_floor s2 then keep else cs_floor s2)\<rparr>"
  have "ants_crdt_prune keep s = Some (length ?pr, ?s)"
    unfolding ants_crdt_prune_def Let_def s1(1) n prune_loop_split by (simp add: nt(1) s2(1) del: not_None_eq)
  moreover have "gset_ok ?s"
    using s2(2) nt(2-5) cap n ok(1) by (auto simp: gset_ok_def slots_ok_def retired_ok_def slot_elems_def)
  moreover have "gset_view ?s = abs_prune keep (gset_view s)"
    using s1(3,4) s2(3,4) nt(4) by (auto simp: gset_view_def abs_prune_def same_proofs_def retired_set_def max_def)
  ultimately show ?thesis using pr(2) by (auto simp: gset_view_def)
qed

end
