(* ===== verification/Gset_Replica.thy ===== *)
theory Gset_Replica
  imports Gset
begin

text \<open>
  What the set of fault proofs of \<^verbatim>\<open>src/reputation/crdt/src/crdt.c\<close> promises as a replicated data
  type: \<open>Gset\<close> shows that each operation implements its abstract counterpart, and this
  theory follows a set through every sequence of insertions, prunings, merges and
  snapshot imports. The hash is a parameter \<open>H\<close> with 32-byte results; that it does not
  collide is assumed only where a theorem says so.
\<close>

section \<open>What a verified proof contributes\<close>

definition elem_of :: "(bytes \<Rightarrow> bytes) \<Rightarrow> bytes \<Rightarrow> crdt_elem" where
  "elem_of H p = (case ants_crdt_fault_proof_decode p of
     Inr v \<Rightarrow> \<lparr>el_content_id = H p, el_subject = fv_subject v, el_epoch = fv_epoch v, el_proof = p\<rparr>
   | Inl e \<Rightarrow> \<lparr>el_content_id = H p, el_subject = [], el_epoch = 0, el_proof = p\<rparr>)"

lemma elem_of_parts [simp]: "el_content_id (elem_of H p) = H p" "el_proof (elem_of H p) = p"
  by (simp_all add: elem_of_def split: sum.splits)

lemma verified_decodes:
  assumes "ants_crdt_verify H sig_ok p = ANTS_OK"
  obtains v where "p \<noteq> []" "ants_crdt_fault_proof_decode p = Inr v" "length (fv_subject v) = ANTS_CRDT_PEER_ID_SIZE"
proof -
  from assms decode_error [of p] obtain v where v: "p \<noteq> []" "ants_crdt_fault_proof_decode p = Inr v"
    by (auto simp: ants_crdt_verify.simps split: sum.splits if_splits)
  with fault_proof_decode_iff [of p v] that show ?thesis by blast
qed

lemma verified_elem_ok:
  assumes "ants_crdt_verify H sig_ok p = ANTS_OK" "\<forall>x. length (H x) = ANTS_CRDT_CONTENT_ID_SIZE"
  shows "elem_ok (elem_of H p)"
proof -
  from verified_decodes [OF assms(1)] obtain v where "ants_crdt_fault_proof_decode p = Inr v" "length (fv_subject v) = ANTS_CRDT_PEER_ID_SIZE" .
  with assms(2) show ?thesis by (simp add: elem_ok_def elem_of_def)
qed

lemma insert_verified:
  assumes "gset_ok s" "\<forall>x. length (H x) = ANTS_CRDT_CONTENT_ID_SIZE" "ants_crdt_verify H sig_ok p = ANTS_OK"
  shows "\<exists>s'. ants_crdt_insert H sig_ok p s = Some (Inr (abs_news (elem_of H p) (gset_view s)), s') \<and> gset_ok s' \<and>
    gset_view s' = abs_insert (elem_of H p) (gset_view s)"
proof -
  from verified_decodes [OF assms(3)] obtain v where v: "p \<noteq> []" "ants_crdt_fault_proof_decode p = Inr v" by blast
  have e: "elem_of H p = \<lparr>el_content_id = H p, el_subject = fv_subject v, el_epoch = fv_epoch v, el_proof = p\<rparr>"
    using v by (simp add: elem_of_def)
  show ?thesis
    using insert_elem_ok [OF assms(1) verified_elem_ok [OF assms(3,2)]] v assms(3) unfolding e
    by (auto simp: ants_crdt_insert_def ants_crdt_content_id_def)
qed

lemma insert_refused:
  "ants_crdt_verify H sig_ok p \<noteq> ANTS_OK \<Longrightarrow> ants_crdt_insert H sig_ok p s = Some (Inl (ants_crdt_verify H sig_ok p), s)"
  using ants_crdt_verify.simps [of H sig_ok "[]"] by (cases "p = []") (simp_all add: ants_crdt_insert_def Let_def)

section \<open>Merging and importing\<close>

definition stored :: "crdt_elem option list \<Rightarrow> crdt_elem list" where
  "stored es = map the (filter (\<lambda>x. x \<noteq> None) es)"

lemma set_stored: "set (stored es) = slot_elems es"
  by (force simp: stored_def slot_elems_def image_iff)

lemma merge_loop_ok:
  assumes "gset_ok s" "\<forall>e \<in> slot_elems es. elem_ok e"
  shows "\<exists>s'. merge_loop es s = Some s' \<and> gset_ok s' \<and> gset_view s' = fold abs_insert (stored es) (gset_view s)"
  using assms
proof (induction es arbitrary: s)
  case (Cons x es)
  show ?case
  proof (cases x)
    case None
    then show ?thesis using Cons by (simp add: stored_def slot_elems_def)
  next
    case (Some e)
    with Cons.prems(2) have ok: "elem_ok e" "\<forall>e \<in> slot_elems es. elem_ok e" by (simp_all add: slot_elems_def)
    from insert_elem_ok [OF Cons.prems(1) ok(1)] obtain i s1 where "crdt_insert_elem e s = Some (i, s1)" "gset_ok s1"
        "gset_view s1 = abs_insert e (gset_view s)"
      by blast
    with Cons.IH [OF _ ok(2), of s1] show ?thesis by (simp add: Some stored_def)
  qed
qed (simp add: stored_def)

text \<open>The byte strings at the front of an array, up to the first other item.\<close>

fun byte_prefix :: "nat \<Rightarrow> ants_cbor_dec \<Rightarrow> bytes list" where
  "byte_prefix 0 d = []"
| "byte_prefix (Suc n) d = (case dec_bytes_val d of (Inl e, d') \<Rightarrow> [] | (Inr p, d') \<Rightarrow> p # byte_prefix n d')"

definition import_proofs :: "bytes \<Rightarrow> bytes list" where
  "import_proofs buf =
    (if ants_cbor_is_canonical buf \<noteq> ANTS_OK then []
     else case ants_cbor_dec_array (ants_cbor_dec_init buf) of (Inl e, d) \<Rightarrow> [] | (Inr n, d) \<Rightarrow> byte_prefix n d)"

definition verified :: "(bytes \<Rightarrow> bytes) \<Rightarrow> (bytes \<Rightarrow> bytes \<Rightarrow> bytes \<Rightarrow> bool) \<Rightarrow> bytes list \<Rightarrow> crdt_elem list" where
  "verified H sig_ok ps = map (elem_of H) (filter (\<lambda>p. ants_crdt_verify H sig_ok p = ANTS_OK) ps)"

lemma snapshot_loop_ok:
  assumes "gset_ok s" "\<forall>x. length (H x) = ANTS_CRDT_CONTENT_ID_SIZE"
  shows "\<exists>r s'. snapshot_loop H sig_ok n d added rejected s = Some (r, s') \<and> gset_ok s' \<and>
    gset_view s' = fold abs_insert (verified H sig_ok (byte_prefix n d)) (gset_view s)"
  using assms(1)
proof (induction n arbitrary: d added rejected s)
  case 0
  then show ?case by (simp add: verified_def)
next
  case (Suc n)
  show ?case
  proof (cases "dec_bytes_val d")
    case (Pair r d')
    show ?thesis
    proof (cases r)
      case (Inl e)
      then show ?thesis using Suc.prems Pair by (simp add: verified_def)
    next
      case (Inr p)
      show ?thesis
      proof (cases "ants_crdt_verify H sig_ok p = ANTS_OK")
        case True
        from insert_verified [OF Suc.prems assms(2) True] obtain i s1 where "ants_crdt_insert H sig_ok p s = Some (Inr i, s1)" "gset_ok s1"
            "gset_view s1 = abs_insert (elem_of H p) (gset_view s)"
          by blast
        with Suc.IH [of s1 d' "if i then added + 1 else added" rejected] True show ?thesis by (simp add: Pair Inr verified_def)
      next
        case False
        with Suc.IH [OF Suc.prems, of d' added "rejected + 1"] show ?thesis by (simp add: Pair Inr verified_def)
      qed
    qed
  qed
qed

lemma snapshot_merge_ok:
  assumes "gset_ok s" "\<forall>x. length (H x) = ANTS_CRDT_CONTENT_ID_SIZE"
  shows "\<exists>r s'. ants_crdt_snapshot_merge H sig_ok buf s = Some (r, s') \<and> gset_ok s' \<and>
    gset_view s' = fold abs_insert (verified H sig_ok (import_proofs buf)) (gset_view s)"
proof (cases "ants_cbor_is_canonical buf = ANTS_OK")
  case True
  then have ne: "buf \<noteq> []" by (auto simp: ants_cbor_is_canonical_def)
  obtain r d where d: "ants_cbor_dec_array (ants_cbor_dec_init buf) = (r, d)" by fastforce
  show ?thesis
  proof (cases r)
    case (Inr n)
    then show ?thesis
      using snapshot_loop_ok [OF assms, of sig_ok n d 0 0] True ne d by (simp add: ants_crdt_snapshot_merge_def import_proofs_def)
  qed (use True ne d assms(1) in \<open>simp add: ants_crdt_snapshot_merge_def import_proofs_def verified_def\<close>)
qed (use assms(1) in \<open>simp add: ants_crdt_snapshot_merge_def import_proofs_def verified_def\<close>)

section \<open>The state as a function of the history\<close>

text \<open>The proofs seen and the prune floor determine the abstract set: what is at or above the
  floor is stored, of the rest the subjects are kept.\<close>

definition abs_state :: "crdt_elem set \<Rightarrow> u64 \<Rightarrow> gset_abs" where
  "abs_state E F = \<lparr>ga_elems = {e \<in> E. F \<le> el_epoch e}, ga_floor = F, ga_retired = el_subject ` {e \<in> E. el_epoch e < F}\<rparr>"

lemma init_ok: "gset_ok ants_crdt_init" "gset_view ants_crdt_init = abs_state {} 0"
proof -
  have "slot_tab.table_ok (replicate CRDT_INITIAL_CAP None)"
    using slot_tab.fresh_table(1) [of None 4] by (simp add: CRDT_INITIAL_CAP_def)
  then show "gset_ok ants_crdt_init"
    by (simp add: gset_ok_def slots_ok_def retired_ok_def ants_crdt_init_def slot_tab.used_def retired_tab.used_def CRDT_INITIAL_CAP_def)
  show "gset_view ants_crdt_init = abs_state {} 0"
    by (simp add: gset_view_def abs_state_def ants_crdt_init_def slot_elems_def retired_set_def retired_tab.entries_def)
qed

lemma abs_insert_state:
  assumes "inj_on el_content_id (insert e E)"
  shows "abs_insert e (abs_state E F) = abs_state (insert e E) F"
proof (cases "el_content_id e \<in> el_content_id ` {x \<in> E. F \<le> el_epoch x}")
  case True
  then obtain x where "x \<in> E" "F \<le> el_epoch x" "el_content_id x = el_content_id e" by auto
  with inj_onD [OF assms, of x e] have "x = e" by simp
  with True \<open>x \<in> E\<close> \<open>F \<le> el_epoch x\<close> show ?thesis by (simp add: abs_insert_def abs_state_def insert_absorb)
next
  case False
  then show ?thesis by (auto simp: abs_insert_def abs_state_def)
qed

lemma fold_insert_state:
  "inj_on el_content_id (E \<union> set es) \<Longrightarrow> fold abs_insert es (abs_state E F) = abs_state (E \<union> set es) F"
proof (induction es arbitrary: E)
  case (Cons e es)
  have "inj_on el_content_id (insert e E)" using Cons.prems by (rule inj_on_subset) auto
  with Cons.IH [of "insert e E"] Cons.prems show ?case by (simp add: abs_insert_state)
qed simp

lemma abs_prune_state: "abs_prune keep (abs_state E F) = abs_state E (max F keep)"
proof -
  have "{e \<in> E. el_epoch e < F} \<union> {e \<in> {e \<in> E. F \<le> el_epoch e}. el_epoch e < keep} = {e \<in> E. el_epoch e < max F keep}"
    by (auto simp: less_max_iff_disj)
  then show ?thesis by (auto simp: abs_prune_def abs_state_def image_Un [symmetric] simp del: image_Un)
qed

section \<open>Reachable sets\<close>

inductive gset_reachable :: "(bytes \<Rightarrow> bytes) \<Rightarrow> (bytes \<Rightarrow> bytes \<Rightarrow> bytes \<Rightarrow> bool) \<Rightarrow> ants_crdt \<Rightarrow> bool"
  for H :: "bytes \<Rightarrow> bytes" and sig_ok :: "bytes \<Rightarrow> bytes \<Rightarrow> bytes \<Rightarrow> bool" where
  init: "gset_reachable H sig_ok ants_crdt_init"
| insert: "gset_reachable H sig_ok s \<Longrightarrow> ants_crdt_insert H sig_ok p s = Some (r, s') \<Longrightarrow> gset_reachable H sig_ok s'"
| prune: "gset_reachable H sig_ok s \<Longrightarrow> ants_crdt_prune keep s = Some (k, s') \<Longrightarrow> gset_reachable H sig_ok s'"
| merge: "gset_reachable H sig_ok s \<Longrightarrow> gset_reachable H sig_ok t \<Longrightarrow> ants_crdt_merge s t = Some s' \<Longrightarrow> gset_reachable H sig_ok s'"
| import_snapshot: "gset_reachable H sig_ok s \<Longrightarrow> ants_crdt_snapshot_merge H sig_ok buf s = Some (r, s') \<Longrightarrow> gset_reachable H sig_ok s'"

text \<open>Every stored element is the element of a verified proof at or above the floor, and every
  retired subject is the subject of one.\<close>

definition authentic :: "(bytes \<Rightarrow> bytes) \<Rightarrow> (bytes \<Rightarrow> bytes \<Rightarrow> bytes \<Rightarrow> bool) \<Rightarrow> gset_abs \<Rightarrow> bool" where
  "authentic H sig_ok a \<longleftrightarrow>
    ga_elems a \<subseteq> elem_of H ` {p. ants_crdt_verify H sig_ok p = ANTS_OK} \<and>
    ga_retired a \<subseteq> (\<lambda>p. el_subject (elem_of H p)) ` {p. ants_crdt_verify H sig_ok p = ANTS_OK} \<and>
    (\<forall>e \<in> ga_elems a. ga_floor a \<le> el_epoch e)"

lemma authentic_insert:
  "authentic H sig_ok a \<Longrightarrow> e \<in> elem_of H ` {p. ants_crdt_verify H sig_ok p = ANTS_OK} \<Longrightarrow> authentic H sig_ok (abs_insert e a)"
  by (auto simp: authentic_def abs_insert_def)

lemma authentic_fold:
  "authentic H sig_ok a \<Longrightarrow> set es \<subseteq> elem_of H ` {p. ants_crdt_verify H sig_ok p = ANTS_OK} \<Longrightarrow> authentic H sig_ok (fold abs_insert es a)"
  by (induction es arbitrary: a) (simp_all add: authentic_insert)

lemma authentic_prune: "authentic H sig_ok a \<Longrightarrow> authentic H sig_ok (abs_prune keep a)"
  by (fastforce simp: authentic_def abs_prune_def)

lemma verified_authentic: "set (verified H sig_ok ps) \<subseteq> elem_of H ` {p. ants_crdt_verify H sig_ok p = ANTS_OK}"
  by (auto simp: verified_def)

text \<open>One lemma per step: it returns, keeps the set well-formed, and acts as its abstract counterpart.\<close>

definition well_formed :: "(bytes \<Rightarrow> bytes) \<Rightarrow> (bytes \<Rightarrow> bytes \<Rightarrow> bytes \<Rightarrow> bool) \<Rightarrow> ants_crdt \<Rightarrow> bool" where
  "well_formed H sig_ok s \<longleftrightarrow> gset_ok s \<and> authentic H sig_ok (gset_view s)"

lemma well_formed_step:
  assumes "well_formed H sig_ok s" "\<forall>x. length (H x) = ANTS_CRDT_CONTENT_ID_SIZE"
  shows insert_step: "\<exists>r s'. ants_crdt_insert H sig_ok p s = Some (r, s') \<and> well_formed H sig_ok s' \<and>
      gset_view s' = fold abs_insert (verified H sig_ok [p]) (gset_view s)"
    and prune_step: "\<exists>k s'. ants_crdt_prune keep s = Some (k, s') \<and> well_formed H sig_ok s' \<and> gset_view s' = abs_prune keep (gset_view s)"
    and import_step: "\<exists>r s'. ants_crdt_snapshot_merge H sig_ok buf s = Some (r, s') \<and> well_formed H sig_ok s' \<and>
      gset_view s' = fold abs_insert (verified H sig_ok (import_proofs buf)) (gset_view s)"
    and merge_step: "well_formed H sig_ok t \<Longrightarrow> \<exists>s'. ants_crdt_merge s t = Some s' \<and> well_formed H sig_ok s' \<and>
      gset_view s' = fold abs_insert (stored (cs_slots t)) (gset_view s)"
proof -
  have ok: "gset_ok s" "authentic H sig_ok (gset_view s)" using assms(1) by (simp_all add: well_formed_def)
  note kept = authentic_fold [OF ok(2) verified_authentic]
  show "\<exists>r s'. ants_crdt_insert H sig_ok p s = Some (r, s') \<and> well_formed H sig_ok s' \<and>
      gset_view s' = fold abs_insert (verified H sig_ok [p]) (gset_view s)"
  proof (cases "ants_crdt_verify H sig_ok p = ANTS_OK")
    case True
    with insert_verified [OF ok(1) assms(2) True] kept [of "[p]"] show ?thesis by (auto simp: well_formed_def verified_def)
  qed (use assms(1) in \<open>simp add: insert_refused verified_def\<close>)
  show "\<exists>k s'. ants_crdt_prune keep s = Some (k, s') \<and> well_formed H sig_ok s' \<and> gset_view s' = abs_prune keep (gset_view s)"
    using prune_ok [OF ok(1), of keep] authentic_prune [OF ok(2), of keep] by (auto simp: well_formed_def)
  show "\<exists>r s'. ants_crdt_snapshot_merge H sig_ok buf s = Some (r, s') \<and> well_formed H sig_ok s' \<and>
      gset_view s' = fold abs_insert (verified H sig_ok (import_proofs buf)) (gset_view s)"
    using snapshot_merge_ok [OF ok(1) assms(2), of sig_ok buf] kept [of "import_proofs buf"] by (auto simp: well_formed_def)
  assume t: "well_formed H sig_ok t"
  then have "set (stored (cs_slots t)) \<subseteq> elem_of H ` {p. ants_crdt_verify H sig_ok p = ANTS_OK}"
    "\<forall>e \<in> slot_elems (cs_slots t). elem_ok e"
    by (auto simp: well_formed_def authentic_def gset_view_def set_stored gset_ok_def slots_ok_def slot_elems_def)
  with merge_loop_ok [OF ok(1), of "cs_slots t"] authentic_fold [OF ok(2), of "stored (cs_slots t)"]
  show "\<exists>s'. ants_crdt_merge s t = Some s' \<and> well_formed H sig_ok s' \<and> gset_view s' = fold abs_insert (stored (cs_slots t)) (gset_view s)"
    by (auto simp: well_formed_def ants_crdt_merge_def)
qed

lemma reachable_well_formed:
  assumes "gset_reachable H sig_ok s" "\<forall>x. length (H x) = ANTS_CRDT_CONTENT_ID_SIZE"
  shows "well_formed H sig_ok s"
  using assms(1)
proof induction
  case init
  show ?case using init_ok by (simp add: well_formed_def authentic_def abs_state_def)
next
  case (insert s p r s')
  from insert_step [OF insert.IH assms(2), of p] insert.hyps(2) show ?case by auto
next
  case (prune s keep k s')
  from prune_step [OF prune.IH assms(2), of keep] prune.hyps(2) show ?case by auto
next
  case (merge s t s')
  from merge_step [OF merge.IH(1) assms(2) merge.IH(2)] merge.hyps(3) show ?case by auto
next
  case (import_snapshot s buf r s')
  from import_step [OF import_snapshot.IH assms(2), of buf] import_snapshot.hyps(2) show ?case by auto
qed

section \<open>Queries\<close>

definition abs_slashed :: "gset_abs \<Rightarrow> bytes set" where
  "abs_slashed a = el_subject ` ga_elems a \<union> ga_retired a"

lemma contains_eq:
  assumes "gset_ok s" "length cid = ANTS_CRDT_CONTENT_ID_SIZE"
  shows "ants_crdt_contains s cid = Some (cid \<in> el_content_id ` ga_elems (gset_view s))"
proof -
  have ok: "slots_ok s" using assms(1) by (simp add: gset_ok_def)
  from slot_probe_total [OF ok] obtain j b where j: "slot_tab.probe (cs_slots s) cid = Some (j, b)" "j < length (cs_slots s)" by blast
  with slot_probe_eq [OF ok assms(2) j] show ?thesis by (simp add: ants_crdt_contains_def probes gset_view_def)
qed

lemma is_slashed_eq:
  assumes "gset_ok s" "length subject = ANTS_CRDT_PEER_ID_SIZE"
  shows "ants_crdt_is_slashed s subject = Some (subject \<in> abs_slashed (gset_view s))"
proof -
  have "length (el_subject e) = ANTS_CRDT_PEER_ID_SIZE" if "Some e \<in> set (cs_slots s)" for e
    using assms(1) that by (auto simp: gset_ok_def slots_ok_def elem_ok_def)
  then have "list_ex (\<lambda>e. e \<noteq> None \<and> memcmp (el_subject (the e)) subject ANTS_CRDT_PEER_ID_SIZE = 0) (cs_slots s) \<longleftrightarrow>
      subject \<in> el_subject ` slot_elems (cs_slots s)"
    using memcmp_key [OF _ assms(2)] by (force simp: list_ex_iff slot_elems_def image_iff)
  then show ?thesis
    using retired_has_eq [of s subject] assms by (auto simp: ants_crdt_is_slashed_def abs_slashed_def gset_view_def gset_ok_def)
qed

lemma slashed_insert: "abs_slashed a \<subseteq> abs_slashed (abs_insert e a)"
  by (auto simp: abs_slashed_def abs_insert_def)

lemma slashed_fold: "abs_slashed a \<subseteq> abs_slashed (fold abs_insert es a)"
  by (induction es arbitrary: a) (use slashed_insert in \<open>auto, blast\<close>)

lemma slashed_prune: "abs_slashed (abs_prune keep a) = abs_slashed a"
  by (force simp: abs_slashed_def abs_prune_def)

section \<open>The snapshot\<close>

definition proofs_item :: "bytes list \<Rightarrow> item" where
  "proofs_item ps = Arr (map ByteStr ps)"

definition proofs_ok :: "bytes list \<Rightarrow> bool" where
  "proofs_ok ps \<longleftrightarrow> length ps < 2 ^ 64 \<and> list_all (\<lambda>p. length p < 2 ^ 64) ps"

lemma proofs_item_wf: "proofs_ok ps \<Longrightarrow> wf_item (proofs_item ps) \<and> nests_within ANTS_CBOR_MAX_DEPTH (proofs_item ps)"
  by (auto simp: proofs_ok_def proofs_item_def list_all_iff ANTS_CBOR_MAX_DEPTH_def)

lemma parser_proofs:
  "parser (then_read ants_cbor_dec_array (\<lambda>n. read_times n dec_bytes_val)) proofs_ok (\<lambda>ps. calls_of (proofs_item ps))"
  by (rule parser_cong [OF parser_calls_ok [OF parser_array [OF dec_array.prs.parser_axioms parser_bytes_val]]])
    (auto simp: proofs_ok_def proofs_item_def call_ok_def list_all_iff comp_def)

lemma snapshot_encode_eq:
  assumes "gset_ok s" "proofs_ok (map el_proof (stored (cs_slots s)))"
  shows "ants_crdt_snapshot_encode s buf = fits buf (enc_item (proofs_item (map el_proof (stored (cs_slots s)))))"
proof -
  have n: "cs_count s = length (stored (cs_slots s))"
    using assms(1) by (simp add: gset_ok_def slots_ok_def slot_tab.used_def stored_def)
  show ?thesis
    unfolding ants_crdt_snapshot_encode_def n using proofs_item_wf [OF assms(2)]
    by (intro document_item) (simp_all add: proofs_item_def stored_def comp_def concat_map_singleton)
qed

lemma snapshot_bound_eq: "ants_crdt_snapshot_bound s = 9 + sum_list (map (\<lambda>e. 9 + length (el_proof e)) (stored (cs_slots s)))"
proof -
  have "fold (\<lambda>e t. case e of None \<Rightarrow> t | Some x \<Rightarrow> t + (9 + length (el_proof x))) es n =
      n + sum_list (map (\<lambda>e. 9 + length (el_proof e)) (stored es))" for es n
    by (induction es arbitrary: n) (auto simp: stored_def split: option.splits)
  then show ?thesis by (simp add: ants_crdt_snapshot_bound_def)
qed

lemma head_at_most: "length (head_bytes m v) \<le> 9"
  by (simp add: head_bytes_length)

lemma proofs_item_length: "length (enc_item (proofs_item ps)) \<le> 9 + sum_list (map (\<lambda>p. 9 + length p) ps)"
proof -
  have "length (concat (map (enc_item \<circ> ByteStr) ps)) \<le> sum_list (map (\<lambda>p. 9 + length p) ps)"
    by (induction ps) (simp_all add: add_mono head_at_most)
  with head_at_most [of 4 "of_nat (length ps)"] show ?thesis by (simp add: proofs_item_def)
qed

lemma bound_proofs_ok:
  assumes "ants_crdt_snapshot_bound s < 2 ^ 64"
  shows "proofs_ok (map el_proof (stored (cs_slots s)))"
proof -
  have "length es \<le> sum_list (map (\<lambda>e. 9 + length (el_proof e)) es)" for es by (induction es) auto
  moreover have "e \<in> set es \<Longrightarrow> length (el_proof e) \<le> sum_list (map (\<lambda>e. 9 + length (el_proof e)) es)" for e es
    using member_le_sum_list [of "9 + length (el_proof e)" "map (\<lambda>e. 9 + length (el_proof e)) es"] by force
  ultimately show ?thesis
    using assms unfolding snapshot_bound_eq proofs_ok_def list_all_iff by (fastforce dest: le_less_trans)
qed

lemma byte_prefix_read: "read_times n dec_bytes_val d = (Inr ps, d') \<Longrightarrow> byte_prefix n d = ps"
  by (induction n arbitrary: d ps) (auto simp: then_read_Inr read_ret_def split: prod.splits)

lemma snapshot_loop_fresh:
  assumes "gset_ok s" "\<forall>x. length (H x) = ANTS_CRDT_CONTENT_ID_SIZE" "read_times n dec_bytes_val d = (Inr ps, d')"
    "ants_cbor_dec_finalise d' = ANTS_OK" "\<forall>p \<in> set ps. ants_crdt_verify H sig_ok p = ANTS_OK" "distinct (map H ps)"
    "\<forall>p \<in> set ps. H p \<notin> el_content_id ` ga_elems (gset_view s)" "ga_floor (gset_view s) = 0"
  shows "\<exists>s'. snapshot_loop H sig_ok n d added rejected s = Some (Inr (added + length ps, rejected), s')"
  using assms(1,3,5-8)
proof (induction n arbitrary: d ps added s)
  case 0
  then show ?case using assms(4) by (simp add: read_ret_def)
next
  case (Suc n)
  from Suc.prems(2) obtain p d1 qs where p: "dec_bytes_val d = (Inr p, d1)" "read_times n dec_bytes_val d1 = (Inr qs, d')" "ps = p # qs"
    by (auto simp: then_read_Inr read_ret_def)
  with Suc.prems have ok: "ants_crdt_verify H sig_ok p = ANTS_OK" "H p \<notin> el_content_id ` ga_elems (gset_view s)" by simp_all
  then have new: "abs_news (elem_of H p) (gset_view s)" using Suc.prems(6) by (simp add: abs_news_def)
  from insert_verified [OF Suc.prems(1) assms(2) ok(1)] new obtain s1 where s1: "ants_crdt_insert H sig_ok p s = Some (Inr True, s1)" "gset_ok s1"
      "gset_view s1 = abs_insert (elem_of H p) (gset_view s)"
    by auto
  have "\<forall>q \<in> set qs. H q \<noteq> H p" using Suc.prems(4) p(3) by (metis image_eqI distinct.simps(2) list.simps(9) list.set_map)
  then have "\<exists>s'. snapshot_loop H sig_ok n d1 (added + 1) rejected s1 = Some (Inr (added + 1 + length qs, rejected), s')"
    by (intro Suc.IH [OF s1(2) p(2)]) (use Suc.prems p(3) s1(3) in \<open>auto simp: abs_insert_def\<close>)
  then show ?case using p ok s1(1) by simp
qed

lemma stored_authentic:
  assumes "well_formed H sig_ok s" "e \<in> set (stored (cs_slots s))"
  shows "ants_crdt_verify H sig_ok (el_proof e) = ANTS_OK \<and> elem_of H (el_proof e) = e"
  using assms by (auto simp: well_formed_def authentic_def gset_view_def set_stored)

lemma snapshot_transfers:
  assumes "well_formed H sig_ok s" "\<forall>x. length (H x) = ANTS_CRDT_CONTENT_ID_SIZE" "ants_crdt_snapshot_bound s < 2 ^ 64"
    and bs: "bs = enc_item (proofs_item (map el_proof (stored (cs_slots s))))"
  shows "\<exists>s'. ants_crdt_snapshot_merge H sig_ok bs ants_crdt_init = Some (Inr (ants_crdt_size s, 0), s') \<and> gset_ok s' \<and>
    gset_view s' = abs_state (slot_elems (cs_slots s)) 0"
proof -
  let ?es = "stored (cs_slots s)" and ?ps = "map el_proof (stored (cs_slots s))"
  note auth = stored_authentic [OF assms(1)]
  have ok: "gset_ok s" using assms(1) by (simp add: well_formed_def)
  have es: "map H ?ps = map el_content_id ?es" "map (elem_of H) ?ps = ?es"
    using auth by (auto simp: comp_def intro!: map_cong map_idI) (metis elem_of_parts(1))
  have dist: "distinct (map el_content_id ?es)"
    using ok slot_tab.keys_distinct [of "cs_slots s"] by (simp add: stored_def comp_def gset_ok_def slots_ok_def)
  note pok = bound_proofs_ok [OF assms(3)]
  have ne: "bs \<noteq> []" and canon: "ants_cbor_is_canonical bs = ANTS_OK" using proofs_item_wf [OF pok] is_canonical_iff bs by auto
  have "cbor_read_document (then_read ants_cbor_dec_array (\<lambda>n. read_times n dec_bytes_val)) bs = Inr ?ps"
    using read_document_iff [OF parser_proofs, of proofs_item bs ?ps] proofs_item_wf pok bs by blast
  then obtain n d d' where d: "ants_cbor_dec_array (ants_cbor_dec_init bs) = (Inr n, d)" "read_times n dec_bytes_val d = (Inr ?ps, d')"
      "ants_cbor_dec_finalise d' = ANTS_OK"
    by (auto simp: read_document_run then_read_Inr finalise_ok)
  have imp: "verified H sig_ok (import_proofs bs) = ?es"
    using auth es(2) by (simp add: import_proofs_def canon d(1) byte_prefix_read [OF d(2)] verified_def filter_id_conv [THEN iffD2])
  have n: "length ?ps = ants_crdt_size s"
    using ok by (simp add: ants_crdt_size_def gset_ok_def slots_ok_def slot_tab.used_def stored_def)
  have "\<exists>s'. snapshot_loop H sig_ok n d 0 0 ants_crdt_init = Some (Inr (0 + length ?ps, 0), s')"
    by (rule snapshot_loop_fresh [OF init_ok(1) assms(2) d(2,3) _ dist [folded es(1)]]) (use auth in \<open>simp_all add: init_ok(2) abs_state_def\<close>)
  then obtain s' where s': "ants_crdt_snapshot_merge H sig_ok bs ants_crdt_init = Some (Inr (ants_crdt_size s, 0), s')"
    unfolding n by (auto simp: ants_crdt_snapshot_merge_def ne canon d(1))
  with snapshot_merge_ok [OF init_ok(1) assms(2), of sig_ok bs] have "gset_ok s'" "gset_view s' = fold abs_insert ?es (abs_state {} 0)"
    by (auto simp: imp init_ok(2))
  moreover have "inj_on el_content_id ({} \<union> set ?es)" using dist by (simp add: distinct_map)
  ultimately show ?thesis using s' fold_insert_state [of "{}" ?es 0] by (simp add: set_stored)
qed

section \<open>Histories\<close>

datatype gset_op = Insert bytes | Prune u64 | Merge ants_crdt | Import bytes

fun run_op :: "(bytes \<Rightarrow> bytes) \<Rightarrow> (bytes \<Rightarrow> bytes \<Rightarrow> bytes \<Rightarrow> bool) \<Rightarrow> gset_op \<Rightarrow> ants_crdt \<Rightarrow> ants_crdt option" where
  "run_op H sig_ok (Insert p) s = map_option snd (ants_crdt_insert H sig_ok p s)"
| "run_op H sig_ok (Prune keep) s = map_option snd (ants_crdt_prune keep s)"
| "run_op H sig_ok (Merge t) s = ants_crdt_merge s t"
| "run_op H sig_ok (Import buf) s = map_option snd (ants_crdt_snapshot_merge H sig_ok buf s)"

fun run_ops :: "(bytes \<Rightarrow> bytes) \<Rightarrow> (bytes \<Rightarrow> bytes \<Rightarrow> bytes \<Rightarrow> bool) \<Rightarrow> gset_op list \<Rightarrow> ants_crdt \<Rightarrow> ants_crdt option" where
  "run_ops H sig_ok [] s = Some s"
| "run_ops H sig_ok (x # xs) s = do { s' \<leftarrow> run_op H sig_ok x s; run_ops H sig_ok xs s' }"

fun op_elems :: "(bytes \<Rightarrow> bytes) \<Rightarrow> (bytes \<Rightarrow> bytes \<Rightarrow> bytes \<Rightarrow> bool) \<Rightarrow> gset_op \<Rightarrow> crdt_elem list" where
  "op_elems H sig_ok (Insert p) = verified H sig_ok [p]"
| "op_elems H sig_ok (Prune keep) = []"
| "op_elems H sig_ok (Merge t) = stored (cs_slots t)"
| "op_elems H sig_ok (Import buf) = verified H sig_ok (import_proofs buf)"

fun op_floor :: "gset_op \<Rightarrow> u64" where
  "op_floor (Prune keep) = keep"
| "op_floor _ = 0"

definition seen :: "(bytes \<Rightarrow> bytes) \<Rightarrow> (bytes \<Rightarrow> bytes \<Rightarrow> bytes \<Rightarrow> bool) \<Rightarrow> gset_op list \<Rightarrow> crdt_elem set" where
  "seen H sig_ok xs = (\<Union>x \<in> set xs. set (op_elems H sig_ok x))"

definition highest_floor :: "gset_op list \<Rightarrow> u64" where
  "highest_floor xs = fold max (map op_floor xs) 0"

lemma max_fold: "fold max fs (m :: u64) = max m (fold max fs 0)"
proof (induction fs arbitrary: m)
  case (Cons f fs)
  from Cons.IH [of "max f m"] Cons.IH [of "max f 0"] show ?case by (simp add: max.assoc max.commute max.left_commute)
qed simp

lemma seen_authentic:
  assumes "\<forall>t. Merge t \<in> set xs \<longrightarrow> well_formed H sig_ok t" "e \<in> seen H sig_ok xs"
  shows "elem_of H (el_proof e) = e"
proof -
  from assms(2) obtain x where x: "x \<in> set xs" "e \<in> set (op_elems H sig_ok x)" by (auto simp: seen_def)
  with assms(1) stored_authentic [of H sig_ok _ e] show ?thesis by (cases x) (auto simp: verified_def)
qed

lemma seen_inj:
  assumes "\<forall>t. Merge t \<in> set xs \<longrightarrow> well_formed H sig_ok t" "inj_on H (el_proof ` seen H sig_ok xs)"
  shows "inj_on el_content_id (seen H sig_ok xs)"
proof (rule inj_onI)
  fix x y
  assume xy: "x \<in> seen H sig_ok xs" "y \<in> seen H sig_ok xs" "el_content_id x = el_content_id y"
  note e = seen_authentic [OF assms(1) xy(1)] seen_authentic [OF assms(1) xy(2)]
  then have "H (el_proof x) = H (el_proof y)" using xy(3) by (metis elem_of_parts(1))
  with assms(2) xy e show "x = y" by (metis inj_onD image_eqI)
qed

lemma abs_prune_zero: "abs_prune 0 a = a"
  by (simp add: abs_prune_def max_def)

lemma run_op_step:
  assumes "well_formed H sig_ok s" "\<forall>x. length (H x) = ANTS_CRDT_CONTENT_ID_SIZE" "\<forall>t. x = Merge t \<longrightarrow> well_formed H sig_ok t"
  shows "\<exists>s'. run_op H sig_ok x s = Some s' \<and> well_formed H sig_ok s' \<and>
    gset_view s' = fold abs_insert (op_elems H sig_ok x) (abs_prune (op_floor x) (gset_view s))"
proof (cases x)
  case (Insert p)
  with insert_step [OF assms(1,2), of p] show ?thesis by (auto simp: abs_prune_zero)
next
  case (Prune keep)
  with prune_step [OF assms(1,2), of keep] show ?thesis by auto
next
  case (Merge t)
  with merge_step [OF assms(1,2), of t] assms(3) show ?thesis by (auto simp: abs_prune_zero)
next
  case (Import buf)
  with import_step [OF assms(1,2), of buf] show ?thesis by (auto simp: abs_prune_zero)
qed

lemma run_ops_ok:
  assumes "\<forall>x. length (H x) = ANTS_CRDT_CONTENT_ID_SIZE"
  shows "well_formed H sig_ok s \<Longrightarrow> \<forall>t. Merge t \<in> set xs \<longrightarrow> well_formed H sig_ok t \<Longrightarrow> gset_view s = abs_state E F \<Longrightarrow>
    inj_on el_content_id (E \<union> seen H sig_ok xs) \<Longrightarrow>
    \<exists>s'. run_ops H sig_ok xs s = Some s' \<and> gset_view s' = abs_state (E \<union> seen H sig_ok xs) (max F (highest_floor xs))"
proof (induction xs arbitrary: s E F)
  case (Cons x xs)
  let ?E = "E \<union> set (op_elems H sig_ok x)"
  have un: "E \<union> seen H sig_ok (x # xs) = ?E \<union> seen H sig_ok xs" by (auto simp: seen_def)
  have fl: "highest_floor (x # xs) = max (op_floor x) (highest_floor xs)" by (simp add: highest_floor_def max_fold [of _ "op_floor x"])
  have "inj_on el_content_id ?E" using Cons.prems(4) unfolding un by (rule inj_on_subset) blast
  with run_op_step [OF Cons.prems(1) assms, of x] Cons.prems(2) obtain s1
    where s1: "run_op H sig_ok x s = Some s1" "well_formed H sig_ok s1" "gset_view s1 = abs_state ?E (max F (op_floor x))"
    by (auto simp: Cons.prems(3) abs_prune_state fold_insert_state)
  from Cons.IH [OF s1(2) _ s1(3)] Cons.prems(2,4) s1(1) show ?case unfolding un fl by (auto simp: max.assoc)
qed (simp add: seen_def highest_floor_def)

section \<open>Properties\<close>

text \<open>C26. On every reachable set each operation returns: the probing loops find their slot within
  one round of the table.\<close>

theorem crdt_set_operations_return:
  assumes "\<forall>x. length (H x) = ANTS_CRDT_CONTENT_ID_SIZE" "gset_reachable H sig_ok s" "gset_reachable H sig_ok t"
    and "length cid = ANTS_CRDT_CONTENT_ID_SIZE" "length subject = ANTS_CRDT_PEER_ID_SIZE"
  shows "(\<exists>r s'. ants_crdt_insert H sig_ok p s = Some (r, s')) \<and> (\<exists>k s'. ants_crdt_prune keep s = Some (k, s')) \<and>
    (\<exists>s'. ants_crdt_merge s t = Some s') \<and> (\<exists>r s'. ants_crdt_snapshot_merge H sig_ok buf s = Some (r, s')) \<and>
    (\<exists>b. ants_crdt_contains s cid = Some b) \<and> (\<exists>b. ants_crdt_is_slashed s subject = Some b)"
proof -
  note wf = reachable_well_formed [OF assms(2,1)] reachable_well_formed [OF assms(3,1)]
  then have "gset_ok s" by (simp add: well_formed_def)
  with insert_step [OF wf(1) assms(1), of p] prune_step [OF wf(1) assms(1), of keep] merge_step [OF wf(1) assms(1) wf(2)]
    import_step [OF wf(1) assms(1), of buf] contains_eq [OF _ assms(4)] is_slashed_eq [OF _ assms(5)]
  show ?thesis by blast
qed

text \<open>C24. Whatever inserts, prunes, merges and imports led to it, a set stores only verified proofs,
  each under its own hash and with the subject and epoch of its envelope, none below the
  prune floor; the size is the number of proofs.\<close>

theorem crdt_set_members_verify:
  assumes "\<forall>x. length (H x) = ANTS_CRDT_CONTENT_ID_SIZE" "gset_reachable H sig_ok s" "Some e \<in> set (cs_slots s)"
  shows "ants_crdt_verify H sig_ok (el_proof e) = ANTS_OK \<and> el_content_id e = H (el_proof e) \<and>
    (\<exists>v. ants_crdt_fault_proof_decode (el_proof e) = Inr v \<and> el_subject e = fv_subject v \<and> el_epoch e = fv_epoch v) \<and>
    ants_crdt_prune_floor s \<le> el_epoch e \<and> ants_crdt_size s = card {x. Some x \<in> set (cs_slots s)}"
proof -
  have wf: "well_formed H sig_ok s" by (rule reachable_well_formed [OF assms(2,1)])
  have "e \<in> set (stored (cs_slots s))" using assms(3) by (simp add: set_stored slot_elems_def)
  from stored_authentic [OF wf this] have e: "ants_crdt_verify H sig_ok (el_proof e) = ANTS_OK" "elem_of H (el_proof e) = e" by simp_all
  from verified_decodes [OF e(1)] obtain v where v: "ants_crdt_fault_proof_decode (el_proof e) = Inr v" .
  then have "el_subject e = fv_subject v" "el_epoch e = fv_epoch v" "el_content_id e = H (el_proof e)"
    by (subst e(2) [symmetric], simp add: elem_of_def)+
  moreover have "ants_crdt_prune_floor s \<le> el_epoch e"
    using wf assms(3) by (simp add: well_formed_def authentic_def gset_view_def slot_elems_def ants_crdt_prune_floor_def)
  moreover have "ants_crdt_size s = card {x. Some x \<in> set (cs_slots s)}"
    using wf slot_tab.used_card [of "cs_slots s"] by (simp add: well_formed_def gset_ok_def slots_ok_def ants_crdt_size_def slot_entries card_image slot_elems_def)
  ultimately show ?thesis using e(1) v by simp
qed

text \<open>C23. Slashing is permanent: a peer that a set reports as slashed stays slashed under every
  further insertion, pruning, merge and import.\<close>

theorem crdt_set_slash_permanent:
  assumes "\<forall>x. length (H x) = ANTS_CRDT_CONTENT_ID_SIZE" "gset_reachable H sig_ok s" "\<forall>t. x = Merge t \<longrightarrow> gset_reachable H sig_ok t"
    and "length subject = ANTS_CRDT_PEER_ID_SIZE" "ants_crdt_is_slashed s subject = Some True" "run_op H sig_ok x s = Some s'"
  shows "ants_crdt_is_slashed s' subject = Some True"
proof -
  have wf: "well_formed H sig_ok s" "\<forall>t. x = Merge t \<longrightarrow> well_formed H sig_ok t"
    using reachable_well_formed assms(1-3) by blast+
  from run_op_step [OF wf(1) assms(1) wf(2)] assms(6) have "well_formed H sig_ok s'"
    "gset_view s' = fold abs_insert (op_elems H sig_ok x) (abs_prune (op_floor x) (gset_view s))"
    by auto
  with slashed_fold [of "abs_prune (op_floor x) (gset_view s)" "op_elems H sig_ok x"]
  have "well_formed H sig_ok s' \<and> abs_slashed (gset_view s) \<subseteq> abs_slashed (gset_view s')"
    by (simp add: slashed_prune)
  with assms(5) is_slashed_eq [OF _ assms(4)] wf(1) show ?thesis by (auto simp: well_formed_def)
qed


text \<open>C25. Insertion implements the abstract insertion on every branch: a proof that does not verify
  is refused with the verifier's error and changes nothing; a verified one below the floor
  retires its subject; otherwise it is stored unless its hash is there; the flag tells news.\<close>

theorem crdt_set_insert_refines:
  assumes "\<forall>x. length (H x) = ANTS_CRDT_CONTENT_ID_SIZE" "gset_reachable H sig_ok s"
  shows "if ants_crdt_verify H sig_ok p = ANTS_OK
    then \<exists>s'. ants_crdt_insert H sig_ok p s = Some (Inr (abs_news (elem_of H p) (gset_view s)), s') \<and>
      gset_view s' = abs_insert (elem_of H p) (gset_view s)
    else ants_crdt_insert H sig_ok p s = Some (Inl (ants_crdt_verify H sig_ok p), s)"
  using reachable_well_formed [OF assms(2,1)] insert_verified [OF _ assms(1), of s sig_ok p] insert_refused [of H sig_ok p s]
  by (auto simp: well_formed_def)

text \<open>Pruning implements the abstract pruning: exactly the proofs below the given epoch are
  dropped and counted, their subjects are retired, and the floor never sinks.\<close>

theorem crdt_set_prune_refines:
  assumes "\<forall>x. length (H x) = ANTS_CRDT_CONTENT_ID_SIZE" "gset_reachable H sig_ok s"
  shows "\<exists>s'. ants_crdt_prune keep s = Some (card {e \<in> ga_elems (gset_view s). el_epoch e < keep}, s') \<and>
    gset_view s' = abs_prune keep (gset_view s)"
  using reachable_well_formed [OF assms(2,1)] prune_ok [of s keep] by (auto simp: well_formed_def)


text \<open>C27. A snapshot written into a buffer of the advertised size transfers the set: a fresh node that
  imports it admits every proof, rejects none, and stores exactly the same elements.\<close>

theorem crdt_snapshot_round_trip:
  assumes "\<forall>x. length (H x) = ANTS_CRDT_CONTENT_ID_SIZE" "gset_reachable H sig_ok s"
    and "length buf = ants_crdt_snapshot_bound s" "ants_crdt_snapshot_bound s < 2 ^ 64"
  shows "\<exists>bs s'. ants_crdt_snapshot_encode s buf = Inr bs \<and>
    ants_crdt_snapshot_merge H sig_ok bs ants_crdt_init = Some (Inr (ants_crdt_size s, 0), s') \<and>
    slot_elems (cs_slots s') = slot_elems (cs_slots s)"
proof -
  have wf: "well_formed H sig_ok s" by (rule reachable_well_formed [OF assms(2,1)])
  let ?bs = "enc_item (proofs_item (map el_proof (stored (cs_slots s))))"
  have "length ?bs \<le> length buf" using proofs_item_length [of "map el_proof (stored (cs_slots s))"] by (simp add: assms(3) snapshot_bound_eq comp_def)
  moreover have "0 < length buf" by (simp add: assms(3) snapshot_bound_eq)
  ultimately have "ants_crdt_snapshot_encode s buf = Inr ?bs"
    using snapshot_encode_eq [OF _ bound_proofs_ok [OF assms(4)]] wf by (simp add: well_formed_def fits_def)
  moreover from snapshot_transfers [OF wf assms(1,4) refl] obtain s' where
    "ants_crdt_snapshot_merge H sig_ok ?bs ants_crdt_init = Some (Inr (ants_crdt_size s, 0), s')" "gset_view s' = abs_state (slot_elems (cs_slots s)) 0"
    by blast
  ultimately show ?thesis by (auto simp: gset_view_def abs_state_def)
qed

section \<open>Witnesses\<close>

text \<open>A hash of the right width, and a set that holds one proof against the peer \<^verbatim>\<open>0101..01\<close>.\<close>

definition sample_hash :: "bytes \<Rightarrow> bytes" where
  "sample_hash x = take 32 (x @ replicate 32 0)"

lemma sample_hash_length: "\<forall>x. length (sample_hash x) = ANTS_CRDT_CONTENT_ID_SIZE"
  by (auto simp: sample_hash_def crdt_sizes min_def)

lemma sample_verified: "ants_crdt_verify H sample_signer sample_proof = ANTS_OK"
proof -
  have e: "st_epoch (sample_stmt 5) = 2" by (simp add: sample_stmt_def)
  show ?thesis
    using verify_equivocation_proved [of sample_proof H sample_signer] sample_proved e unfolding sample_proof_def by metis
qed

lemma sample_elem: "el_subject (elem_of H sample_proof) = replicate 32 1 \<and> el_epoch (elem_of H sample_proof) = 2"
  using sample_proved equivocation_decode [of "replicate 32 1" "(enc_item (stmt_item (sample_stmt 5)), replicate 64 0)"
      "(enc_item (stmt_item (sample_stmt 6)), replicate 64 0)" 2]
  by (simp add: elem_of_def sample_proof_def equivocation_proved_def crdt_sizes)

definition sample_set :: ants_crdt where
  "sample_set = snd (the (ants_crdt_insert sample_hash sample_signer sample_proof ants_crdt_init))"

lemma sample_insert:
  "ants_crdt_insert sample_hash sample_signer sample_proof ants_crdt_init = Some (Inr True, sample_set)"
  "gset_view sample_set = abs_state {elem_of sample_hash sample_proof} 0"
  using insert_verified [OF init_ok(1) sample_hash_length sample_verified]
  by (auto simp: sample_set_def init_ok(2) abs_insert_def abs_news_def abs_state_def)

lemma sample_reachable: "gset_reachable sample_hash sample_signer sample_set"
  by (rule gset_reachable.insert [OF gset_reachable.init sample_insert(1)])

lemma sample_member: "Some (elem_of sample_hash sample_proof) \<in> set (cs_slots sample_set)"
  using sample_insert(2) by (auto simp: gset_view_def abs_state_def slot_elems_def)

lemma sample_slashed: "ants_crdt_is_slashed sample_set (replicate 32 1) = Some True"
  using reachable_well_formed [OF sample_reachable sample_hash_length] is_slashed_eq [of sample_set "replicate 32 1"] sample_elem
  by (simp add: well_formed_def crdt_sizes sample_insert(2) abs_slashed_def abs_state_def)

theorem crdt_set_operations_return_witness:
  "gset_reachable sample_hash sample_signer sample_set \<and> (\<exists>k s'. ants_crdt_prune 3 sample_set = Some (k, s')) \<and>
   (\<exists>s'. ants_crdt_merge ants_crdt_init sample_set = Some s')"
  using crdt_set_operations_return [OF sample_hash_length sample_reachable gset_reachable.init, of "replicate 32 0" "replicate 32 1" "[]" 3 "[]"]
    crdt_set_operations_return [OF sample_hash_length gset_reachable.init sample_reachable, of "replicate 32 0" "replicate 32 1" "[]" 3 "[]"]
    sample_reachable
  by (simp add: crdt_sizes)

theorem crdt_set_members_verify_witness:
  "Some (elem_of sample_hash sample_proof) \<in> set (cs_slots sample_set) \<and> ants_crdt_verify sample_hash sample_signer sample_proof = ANTS_OK \<and>
   ants_crdt_prune_floor sample_set \<le> 2 \<and> ants_crdt_size sample_set = card {x. Some x \<in> set (cs_slots sample_set)}"
  using crdt_set_members_verify [OF sample_hash_length sample_reachable sample_member] sample_member sample_elem by simp

theorem crdt_set_slash_permanent_witness:
  "ants_crdt_is_slashed sample_set (replicate 32 1) = Some True \<and>
   (\<exists>s'. run_op sample_hash sample_signer (Prune 3) sample_set = Some s' \<and> ants_crdt_is_slashed s' (replicate 32 1) = Some True)"
proof -
  from run_op_step [OF reachable_well_formed [OF sample_reachable sample_hash_length] sample_hash_length, of "Prune 3"] obtain s'
    where s': "run_op sample_hash sample_signer (Prune 3) sample_set = Some s'" by auto
  from crdt_set_slash_permanent [OF sample_hash_length sample_reachable _ _ sample_slashed s'] have "ants_crdt_is_slashed s' (replicate 32 1) = Some True"
    by (simp add: crdt_sizes)
  with s' sample_slashed show ?thesis by blast
qed


theorem crdt_set_insert_refines_witness:
  "ants_crdt_verify sample_hash sample_signer sample_proof = ANTS_OK \<and>
   (\<exists>s'. ants_crdt_insert sample_hash sample_signer sample_proof sample_set = Some (Inr False, s') \<and> gset_view s' = gset_view sample_set) \<and>
   ants_crdt_insert sample_hash sample_signer [] sample_set = Some (Inl ANTS_ERROR_INVALID_ARG, sample_set)"
  using crdt_set_insert_refines [OF sample_hash_length sample_reachable, of sample_proof]
    crdt_set_insert_refines [OF sample_hash_length sample_reachable, of "[]"] sample_verified [of sample_hash]
  by (simp add: sample_insert(2) abs_insert_def abs_news_def abs_state_def ants_crdt_verify.simps [of _ _ "[]"])

theorem crdt_set_prune_refines_witness:
  "\<exists>s'. ants_crdt_prune 3 sample_set = Some (1, s') \<and> gset_view s' = \<lparr>ga_elems = {}, ga_floor = 3, ga_retired = {replicate 32 1}\<rparr>"
proof -
  have "{e. (e = elem_of sample_hash sample_proof \<and> 0 \<le> el_epoch e) \<and> el_epoch e < 3} = {elem_of sample_hash sample_proof}"
    using sample_elem by auto
  with crdt_set_prune_refines [OF sample_hash_length sample_reachable, of 3] sample_elem show ?thesis
    by (auto simp: sample_insert(2) abs_prune_def abs_state_def max_def)
qed


lemma sample_bound: "ants_crdt_snapshot_bound sample_set < 2 ^ 64"
proof -
  have "distinct (stored (cs_slots sample_set))"
    using reachable_well_formed [OF sample_reachable sample_hash_length] slot_tab.keys_distinct [of "cs_slots sample_set"]
    by (auto simp: well_formed_def gset_ok_def slots_ok_def stored_def distinct_map inj_on_def)
  moreover have "set (stored (cs_slots sample_set)) = {elem_of sample_hash sample_proof}"
    using sample_insert(2) by (simp add: set_stored gset_view_def abs_state_def)
  moreover from this have "length (stored (cs_slots sample_set)) = 1" using distinct_card [of "stored (cs_slots sample_set)"] calculation by simp
  ultimately have "stored (cs_slots sample_set) = [elem_of sample_hash sample_proof]"
    by (cases "stored (cs_slots sample_set)") auto
  moreover have "length sample_proof < 1000"
    by (simp add: sample_proof_def equivocation_item_def env_item_def signed_item_def stmt_item_def sample_stmt_def head_bytes_length)
  ultimately show ?thesis by (simp add: snapshot_bound_eq)
qed

theorem crdt_snapshot_round_trip_witness:
  "\<exists>bs s'. ants_crdt_snapshot_encode sample_set (replicate (ants_crdt_snapshot_bound sample_set) 0) = Inr bs \<and>
    ants_crdt_snapshot_merge sample_hash sample_signer bs ants_crdt_init = Some (Inr (ants_crdt_size sample_set, 0), s') \<and>
    slot_elems (cs_slots s') = slot_elems (cs_slots sample_set)"
  by (rule crdt_snapshot_round_trip [OF sample_hash_length sample_reachable _ sample_bound]) simp

text \<open>Merging carries over the stored proofs only: a subject that the source has retired is not
  slashed in the destination.\<close>

lemma merge_drops_retired:
  "\<exists>t s'. gset_reachable sample_hash sample_signer t \<and> ants_crdt_is_slashed t (replicate 32 1) = Some True \<and>
    ants_crdt_merge ants_crdt_init t = Some s' \<and> ants_crdt_is_slashed s' (replicate 32 1) = Some False"
proof -
  note wf = reachable_well_formed [OF _ sample_hash_length]
  from prune_step [OF wf [OF sample_reachable] sample_hash_length, of 3] obtain k t
    where t: "ants_crdt_prune 3 sample_set = Some (k, t)" "well_formed sample_hash sample_signer t" "gset_view t = abs_state {elem_of sample_hash sample_proof} 3"
    by (auto simp: sample_insert(2) abs_prune_state max_def)
  from merge_step [OF wf [OF gset_reachable.init] sample_hash_length t(2)] obtain s' where
    s': "ants_crdt_merge ants_crdt_init t = Some s'" "well_formed sample_hash sample_signer s'"
      "gset_view s' = fold abs_insert (stored (cs_slots t)) (gset_view ants_crdt_init)"
    by blast
  have "ga_elems (gset_view t) = {}" using sample_elem [of sample_hash] by (auto simp: t(3) abs_state_def)
  then have "stored (cs_slots t) = []" by (metis set_stored gset_view_def gset_abs.select_convs(1) set_empty)
  then have s'_view: "gset_view s' = abs_state {} 0" using s'(3) by (simp add: init_ok(2))
  have "ants_crdt_is_slashed t (replicate 32 1) = Some True"
    using is_slashed_eq [of t "replicate 32 1"] t(2) sample_elem [of sample_hash]
    by (auto simp: well_formed_def crdt_sizes t(3) abs_slashed_def abs_state_def image_iff)
  moreover have "ants_crdt_is_slashed s' (replicate 32 1) = Some False"
    using is_slashed_eq [of s' "replicate 32 1"] s'(2) by (simp add: well_formed_def crdt_sizes s'_view abs_slashed_def abs_state_def)
  ultimately show ?thesis using s'(1) gset_reachable.prune [OF sample_reachable t(1)] by blast
qed

end
