(* ===== verification/Merkle.thy ===== *)
theory Merkle
  imports Ants_Prelude
begin

text \<open>
  The Merkle tree that \<^verbatim>\<open>reputation/chain\<close>, \<^verbatim>\<open>reputation/crdt\<close>, \<^verbatim>\<open>reputation/identity\<close> and
  \<^verbatim>\<open>inference/orchestration\<close> share: pairs of nodes are combined level by level and a lone
  trailing node is promoted. The C code builds the root online with a stack of peaks and
  walks a leaf's index up the levels; both are written here once, over the function that
  combines two nodes, and shown to compute the level-by-level tree.
\<close>

section \<open>The loops\<close>

text \<open>The stack of peaks, its top first: a hash and its height.\<close>

fun merge_peaks :: "('h \<Rightarrow> 'h \<Rightarrow> 'h) \<Rightarrow> ('h \<times> nat) list \<Rightarrow> ('h \<times> nat) list" where
  "merge_peaks node ((r, h) # (l, h') # st) = (if h = h' then merge_peaks node ((node l r, h' + 1) # st) else (r, h) # (l, h') # st)"
| "merge_peaks node st = st"

definition push_leaf :: "('h \<Rightarrow> 'h \<Rightarrow> 'h) \<Rightarrow> 'h \<Rightarrow> ('h \<times> nat) list \<Rightarrow> ('h \<times> nat) list" where
  "push_leaf node leaf st = merge_peaks node ((leaf, 0) # st)"

definition bag_peaks :: "('h \<Rightarrow> 'h \<Rightarrow> 'h) \<Rightarrow> ('h \<times> nat) list \<Rightarrow> 'h" where
  "bag_peaks node st = fold (\<lambda>peak acc. node (fst peak) acc) (tl st) (fst (hd st))"

definition online_root :: "('h \<Rightarrow> 'h \<Rightarrow> 'h) \<Rightarrow> 'h list \<Rightarrow> 'h" where
  "online_root node leaves = bag_peaks node (fold (push_leaf node) leaves [])"

text \<open>The number of siblings on a leaf's path.\<close>

function path_len :: "nat \<Rightarrow> nat \<Rightarrow> nat" where
  "path_len idx count =
    (if count > 1 then
       (if idx mod 2 = 1 then 1 else if idx + 1 < count then 1 else 0) + path_len (idx div 2) ((count + 1) div 2)
     else 0)"
  by auto
termination
  by (relation "measure snd") auto

declare path_len.simps [simp del]

text \<open>The siblings, each the root of a range of leaves.\<close>

function prove_loop :: "(nat \<Rightarrow> nat \<Rightarrow> 'h) \<Rightarrow> nat \<Rightarrow> nat \<Rightarrow> nat \<Rightarrow> nat \<Rightarrow> 'h list" where
  "prove_loop range_root n level idx count =
    (if count > 1 then
       (if idx mod 2 = 1 then [range_root (push_bit level (idx - 1)) (min n (push_bit level (idx - 1 + 1)))]
        else if idx + 1 < count then [range_root (push_bit level (idx + 1)) (min n (push_bit level (idx + 1 + 1)))]
        else []) @ prove_loop range_root n (level + 1) (idx div 2) ((count + 1) div 2)
     else [])"
  by auto
termination
  by (relation "measure (\<lambda>(f, n, level, idx, count). count)") auto

declare prove_loop.simps [simp del]

text \<open>The climb from a leaf to the root along a path of \<open>w\<close>-byte siblings; the second component
  counts the siblings used.\<close>

function climb :: "nat \<Rightarrow> (bytes \<Rightarrow> bytes \<Rightarrow> bytes) \<Rightarrow> bytes \<Rightarrow> bytes \<Rightarrow> nat \<Rightarrow> nat \<Rightarrow> nat \<Rightarrow> bytes \<times> nat" where
  "climb w node path cur consumed idx count =
    (if count > 1 then
       let sib = take w (drop (consumed * w) path) in
       if idx mod 2 = 1 then climb w node path (node sib cur) (consumed + 1) (idx div 2) ((count + 1) div 2)
       else if idx + 1 < count then climb w node path (node cur sib) (consumed + 1) (idx div 2) ((count + 1) div 2)
       else climb w node path cur consumed (idx div 2) ((count + 1) div 2)
     else (cur, consumed))"
  by auto
termination
  by (relation "measure (\<lambda>(w, node, path, cur, consumed, idx, count). count)") auto

declare climb.simps [simp del]

section \<open>The tree, level by level\<close>

fun pair_level :: "('h \<Rightarrow> 'h \<Rightarrow> 'h) \<Rightarrow> 'h list \<Rightarrow> 'h list" where
  "pair_level node (l # r # xs) = node l r # pair_level node xs"
| "pair_level node xs = xs"

lemma length_pair_level [simp]: "length (pair_level node xs) = (length xs + 1) div 2"
  by (induction node xs rule: pair_level.induct) auto

function level_root :: "('h \<Rightarrow> 'h \<Rightarrow> 'h) \<Rightarrow> 'h list \<Rightarrow> 'h" where
  "level_root node xs = (if length xs > 1 then level_root node (pair_level node xs) else hd xs)"
  by auto
termination
  by (relation "measure (\<lambda>(node, xs). length xs)") auto

declare level_root.simps [simp del]

lemma level_root_single [simp]: "level_root node [x] = x"
  by (simp add: level_root.simps)

lemma level_root_up: "length xs > 1 \<Longrightarrow> level_root node xs = level_root node (pair_level node xs)"
  by (simp add: level_root.simps [of node xs])

lemma nth_pair_level:
  "i < (length xs + 1) div 2 \<Longrightarrow> pair_level node xs ! i = (if 2 * i + 1 < length xs then node (xs ! (2 * i)) (xs ! (2 * i + 1)) else xs ! (2 * i))"
proof (induction node xs arbitrary: i rule: pair_level.induct)
  case (1 node l r xs)
  show ?case
  proof (cases i)
    case (Suc j)
    with 1 show ?thesis by simp
  qed simp
qed (auto simp: less_Suc_eq_0_disj)

lemma pair_level_append: "even (length xs) \<Longrightarrow> pair_level node (xs @ ys) = pair_level node xs @ pair_level node ys"
  by (induction node xs rule: pair_level.induct) auto

lemma root_split:
  "length xs = 2 ^ j \<Longrightarrow> ys \<noteq> [] \<Longrightarrow> length ys \<le> 2 ^ j \<Longrightarrow> level_root node (xs @ ys) = node (level_root node xs) (level_root node ys)"
proof (induction j arbitrary: xs ys)
  case 0
  then obtain x y where "xs = [x]" "ys = [y]" by (auto simp: length_Suc_conv le_Suc_eq)
  then show ?case by (simp add: level_root_up)
next
  case (Suc j)
  let ?xs = "pair_level node xs" and ?ys = "pair_level node ys"
  have two: "(2 :: nat) \<le> 2 ^ Suc j" by simp
  have len: "length ?xs = 2 ^ j" "length ?ys \<le> 2 ^ j" using Suc.prems by simp_all
  have long: "length xs > 1" using Suc.prems(1) two by linarith
  have ne: "?ys \<noteq> []" using Suc.prems(2) by (cases ys; cases "tl ys") auto
  have "level_root node (xs @ ys) = level_root node (?xs @ ?ys)"
    using Suc.prems long by (subst level_root_up) (simp_all add: pair_level_append)
  also have "\<dots> = node (level_root node ?xs) (level_root node ?ys)" by (rule Suc.IH [OF len(1) ne len(2)])
  also have "level_root node ?xs = level_root node xs" using level_root_up [OF long] by simp
  also have "level_root node ?ys = level_root node ys"
  proof (cases "length ys > 1")
    case False
    with Suc.prems(2) obtain y where "ys = [y]" by (cases ys; cases "tl ys") auto
    then show ?thesis by simp
  qed (simp add: level_root_up)
  finally show ?case .
qed

section \<open>The stack of peaks\<close>

text \<open>The peaks of a stack cover the leaves from the right, each a full subtree, taller to the left.\<close>

fun peaks_over :: "('h \<Rightarrow> 'h \<Rightarrow> 'h) \<Rightarrow> ('h \<times> nat) list \<Rightarrow> 'h list \<Rightarrow> bool" where
  "peaks_over node [] xs = (xs = [])"
| "peaks_over node ((p, h) # st) xs =
    (2 ^ h \<le> length xs \<and> p = level_root node (drop (length xs - 2 ^ h) xs) \<and> peaks_over node st (take (length xs - 2 ^ h) xs))"

lemma merge_peaks_over:
  "peaks_over node st xs \<Longrightarrow> sorted_wrt (<) (map snd (tl st)) \<Longrightarrow> (\<And>a b st'. st = a # b # st' \<Longrightarrow> snd a \<le> snd b) \<Longrightarrow>
   peaks_over node (merge_peaks node st) xs \<and> sorted_wrt (<) (map snd (merge_peaks node st))"
proof (induction node st rule: merge_peaks.induct)
  case (1 node r h l h' st)
  show ?case
  proof (cases "h = h'")
    case True
    let ?n = "length xs"
    have m: "min ?n (?n - k) = ?n - k" for k by simp
    from "1.prems"(1) True have n0: "2 ^ h \<le> ?n \<and> 2 ^ h \<le> ?n - 2 ^ h" "r = level_root node (drop (?n - 2 ^ h) xs)"
        "l = level_root node (drop (?n - 2 ^ h - 2 ^ h) (take (?n - 2 ^ h) xs))" "peaks_over node st (take (?n - 2 ^ h - 2 ^ h) xs)"
      by (simp_all add: m take_take)
    then have "2 ^ h + 2 ^ h \<le> ?n" by linarith
    note n = this n0(2-)
    have cat: "drop (?n - 2 ^ h - 2 ^ h) (take (?n - 2 ^ h) xs) @ drop (?n - 2 ^ h) xs = drop (?n - 2 ^ (h + 1)) xs"
      using n(1) by (subst drop_take) (simp add: append_eq_conv_conj mult_2)
    have "(1 :: nat) \<le> 2 ^ h" by simp
    with n(1) have "\<not> ?n \<le> ?n - 2 ^ h" by linarith
    then have "level_root node (drop (?n - 2 ^ h - 2 ^ h) (take (?n - 2 ^ h) xs) @ drop (?n - 2 ^ h) xs) = node l r"
      unfolding n(2,3) by (intro root_split [of _ h]) (use n(1) in simp_all)
    then have "peaks_over node ((node l r, h' + 1) # st) xs"
      unfolding cat using n(1,4) True by (simp add: mult_2)
    moreover have "snd a \<le> snd b" if "(node l r, h' + 1) # st = a # b # st'" for a b st'
      using that "1.prems"(2) by auto
    ultimately show ?thesis using "1.IH" [OF True] "1.prems"(2) True by simp
  next
    case False
    have "h \<le> h'" using "1.prems"(3) by simp
    then have "h < h'" using False by simp
    with "1.prems"(1,2) False show ?thesis by (auto intro: less_trans)
  qed
qed auto

lemma push_leaf_over:
  assumes "peaks_over node st xs" "sorted_wrt (<) (map snd st)"
  shows "peaks_over node (push_leaf node x st) (xs @ [x]) \<and> sorted_wrt (<) (map snd (push_leaf node x st))"
  unfolding push_leaf_def by (rule merge_peaks_over) (use assms in auto)

lemma leaves_over: "peaks_over node (fold (push_leaf node) xs []) xs \<and> sorted_wrt (<) (map snd (fold (push_leaf node) xs []))"
proof (induction xs rule: rev_induct)
  case (snoc x xs)
  then show ?case using push_leaf_over [of node _ xs x] by simp
qed simp

lemma bag_over:
  "st \<noteq> [] \<Longrightarrow> peaks_over node st xs \<Longrightarrow> sorted_wrt (<) (map snd st) \<Longrightarrow> ys \<noteq> [] \<Longrightarrow> length ys \<le> 2 ^ snd (hd st) \<Longrightarrow>
   fold (\<lambda>peak acc. node (fst peak) acc) st (level_root node ys) = level_root node (xs @ ys)"
proof (induction st arbitrary: xs ys)
  case (Cons a st)
  obtain p h where a: "a = (p, h)" by fastforce
  let ?k = "length xs - 2 ^ h"
  have p: "2 ^ h \<le> length xs" "p = level_root node (drop ?k xs)" "peaks_over node st (take ?k xs)" using Cons.prems(2) a by simp_all
  have "length (drop ?k xs) = 2 ^ h" using p(1) by simp
  from root_split [OF this Cons.prems(4), of node] have nd: "node p (level_root node ys) = level_root node (drop ?k xs @ ys)"
    using Cons.prems(5) a p(2) by simp
  show ?case
  proof (cases st)
    case Nil
    with p(3) have "drop ?k xs = xs" by auto
    then show ?thesis using Nil a nd by simp
  next
    case (Cons b st')
    have h: "h < snd b" using Cons.prems(3) a Cons by simp
    have "length (drop ?k xs @ ys) \<le> 2 ^ h + 2 ^ h" using Cons.prems(5) a p(1) by simp
    also have "\<dots> = 2 ^ Suc h" by simp
    also have "\<dots> \<le> 2 ^ snd b" using h by (intro power_increasing) simp_all
    finally have "fold (\<lambda>peak acc. node (fst peak) acc) st (level_root node (drop ?k xs @ ys)) = level_root node (take ?k xs @ drop ?k xs @ ys)"
      using Cons.prems p(3) Cons by (intro Cons.IH) simp_all
    then show ?thesis using a nd by (simp add: append_assoc [symmetric] del: append_assoc)
  qed
qed simp

theorem online_root_levels:
  assumes "xs \<noteq> []"
  shows "online_root node xs = level_root node xs"
proof -
  let ?st = "fold (push_leaf node) xs []"
  have over: "peaks_over node ?st xs" "sorted_wrt (<) (map snd ?st)" using leaves_over [of node xs] by simp_all
  with assms obtain p h st where st: "?st = (p, h) # st" by (cases ?st) auto
  let ?k = "length xs - 2 ^ h"
  have p: "2 ^ h \<le> length xs" "p = level_root node (drop ?k xs)" "peaks_over node st (take ?k xs)" using over(1) st by simp_all
  have bag: "online_root node xs = fold (\<lambda>peak acc. node (fst peak) acc) st p" by (simp add: online_root_def bag_peaks_def st)
  show ?thesis
  proof (cases st)
    case Nil
    with p(3) have "drop ?k xs = xs" by auto
    then show ?thesis using bag p(2) Nil by simp
  next
    case (Cons b st')
    have "(1 :: nat) \<le> 2 ^ h" by simp
    then have "\<not> length xs \<le> ?k" using p(1) by linarith
    moreover have "2 ^ h \<le> (2 :: nat) ^ snd b" using over(2) st Cons by (intro power_increasing) simp_all
    ultimately have "fold (\<lambda>peak acc. node (fst peak) acc) st (level_root node (drop ?k xs)) = level_root node (take ?k xs @ drop ?k xs)"
      using over(2) st Cons p by (intro bag_over) simp_all
    then show ?thesis using bag p(2) by simp
  qed
qed

text \<open>The stack holds at most one peak per height below the logarithm of the leaves.\<close>

lemma peaks_heights: "peaks_over node st xs \<Longrightarrow> (\<Sum>p \<leftarrow> st. 2 ^ snd p) = length xs"
proof (induction st arbitrary: xs)
  case (Cons a st)
  obtain p h where a: "a = (p, h)" by fastforce
  with Cons.prems have "2 ^ h \<le> length xs" "peaks_over node st (take (length xs - 2 ^ h) xs)" by simp_all
  with Cons.IH a show ?case by simp
qed simp

lemma stack_room:
  assumes "length xs < 2 ^ d"
  shows "length (fold (push_leaf node) xs []) \<le> d"
proof -
  let ?st = "fold (push_leaf node) xs []"
  have over: "peaks_over node ?st xs" "sorted_wrt (<) (map snd ?st)" using leaves_over [of node xs] by simp_all
  have "set (map snd ?st) \<subseteq> {..<d}"
  proof
    fix h assume "h \<in> set (map snd ?st)"
    then have "2 ^ h \<le> (\<Sum>p \<leftarrow> ?st. (2 :: nat) ^ snd p)" by (intro member_le_sum_list) auto
    also have "\<dots> < 2 ^ d" using peaks_heights [OF over(1)] assms by simp
    finally show "h \<in> {..<d}" by (simp add: power_less_imp_less_exp [of 2])
  qed
  then have "card (set (map snd ?st)) \<le> d" using card_mono [of "{..<d}"] by fastforce
  moreover have "distinct (map snd ?st)" using over(2) strict_sorted_iff by blast
  ultimately show ?thesis using distinct_card by (metis length_map)
qed

section \<open>Paths\<close>

text \<open>A node of level \<open>j\<close> is the root of a block of \<open>2 ^ j\<close> leaves, the last block possibly short.\<close>

lemma levels_cover: "length xs \<le> length ((pair_level node ^^ j) xs) * 2 ^ j"
proof (induction j)
  case (Suc j)
  let ?l = "length ((pair_level node ^^ j) xs)"
  note Suc
  also have "?l * 2 ^ j \<le> ((?l + 1) div 2 * 2) * 2 ^ j" by (rule mult_right_mono) simp_all
  also have "\<dots> = length ((pair_level node ^^ Suc j) xs) * 2 ^ Suc j" by simp
  finally show ?case .
qed simp

lemma level_nth:
  "i < length ((pair_level node ^^ j) xs) \<Longrightarrow> (pair_level node ^^ j) xs ! i = level_root node (take (2 ^ j) (drop (i * 2 ^ j) xs)) \<and> i * 2 ^ j < length xs"
proof (induction j arbitrary: i)
  case 0
  then show ?case by (simp add: take_Suc_conv_app_nth hd_drop_conv_nth take_Suc)
next
  case (Suc j)
  let ?L = "(pair_level node ^^ j) xs"
  define blk where "blk i = take (2 ^ j) (drop (i * 2 ^ j) xs)" for i
  have i: "i < (length ?L + 1) div 2" using Suc.prems by simp
  then have "2 * i < length ?L" by simp
  note l0 = Suc.IH [OF this]
  have l: "?L ! (2 * i) = level_root node (blk (2 * i))" using l0 unfolding blk_def by blast
  have bound: "i * 2 ^ Suc j < length xs" using l0 by (simp add: algebra_simps)
  have "(pair_level node ^^ Suc j) xs ! i = level_root node (take (2 ^ Suc j) (drop (i * 2 ^ Suc j) xs))"
  proof (cases "2 * i + 1 < length ?L")
    case True
    have r: "?L ! (2 * i + 1) = level_root node (blk (2 * i + 1))" "(2 * i + 1) * 2 ^ j < length xs"
      using Suc.IH [OF True] by (simp_all add: blk_def)
    have cat: "take (2 ^ Suc j) (drop (i * 2 ^ Suc j) xs) = blk (2 * i) @ blk (2 * i + 1)"
      using take_add [of "2 ^ j" "2 ^ j" "drop (i * 2 ^ Suc j) xs"] by (simp add: blk_def mult_2 algebra_simps)
    have "level_root node (blk (2 * i) @ blk (2 * i + 1)) = node (level_root node (blk (2 * i))) (level_root node (blk (2 * i + 1)))"
      by (rule root_split [of _ j]) (use r(2) in \<open>auto simp: blk_def\<close>)
    then show ?thesis unfolding cat using nth_pair_level [OF i, of node] True l r(1) by simp
  next
    case False
    have "length xs \<le> length ?L * 2 ^ j" by (rule levels_cover)
    also have "\<dots> \<le> (2 * i + 1) * 2 ^ j" using False by (intro mult_right_mono) simp_all
    finally have "take (2 ^ Suc j) (drop (i * 2 ^ Suc j) xs) = blk (2 * i)" by (simp add: blk_def algebra_simps)
    then show ?thesis using nth_pair_level [OF i, of node] False l by simp
  qed
  with bound show ?case by blast
qed

text \<open>The siblings of a leaf, taken from the levels.\<close>

definition level_sibling :: "'h list \<Rightarrow> nat \<Rightarrow> 'h list" where
  "level_sibling xs idx = (if idx mod 2 = 1 then [xs ! (idx - 1)] else if idx + 1 < length xs then [xs ! (idx + 1)] else [])"

function siblings :: "('h \<Rightarrow> 'h \<Rightarrow> 'h) \<Rightarrow> 'h list \<Rightarrow> nat \<Rightarrow> 'h list" where
  "siblings node xs idx =
    (if length xs > 1 then level_sibling xs idx @ siblings node (pair_level node xs) (idx div 2) else [])"
  by auto
termination
  by (relation "measure (\<lambda>(node, xs, idx). length xs)") auto

declare siblings.simps [simp del]

lemma length_siblings: "length (siblings node xs idx) = path_len idx (length xs)"
proof (induction node xs idx rule: siblings.induct)
  case (1 node xs idx)
  then show ?case by (subst siblings.simps, subst path_len.simps) (simp add: level_sibling_def)
qed

lemma prove_loop_siblings:
  assumes "\<And>lo hi. lo < hi \<Longrightarrow> hi \<le> length xs \<Longrightarrow> range_root lo hi = level_root node (drop lo (take hi xs))"
  shows "L = (pair_level node ^^ level) xs \<Longrightarrow> idx < length L \<Longrightarrow> prove_loop range_root (length xs) level idx (length L) = siblings node L idx"
proof (induction "length L" arbitrary: L idx level rule: less_induct)
  case less
  have nth: "range_root (push_bit level i) (min (length xs) (push_bit level (i + 1))) = L ! i" if "i < length L" for i
  proof -
    have lv: "L ! i = level_root node (take (2 ^ level) (drop (i * 2 ^ level) xs))" "i * 2 ^ level < length xs"
      using level_nth [where i = i and node = node and j = level and xs = xs] that less.prems(1) by simp_all
    let ?hi = "min (length xs) (push_bit level (i + 1))"
    have "drop (i * 2 ^ level) (take ?hi xs) = take (2 ^ level) (drop (i * 2 ^ level) xs)"
      by (cases "length xs \<le> push_bit level (i + 1)") (simp_all add: push_bit_eq_mult drop_take algebra_simps)
    moreover have "i * 2 ^ level < ?hi" using lv(2) by (simp add: push_bit_eq_mult)
    ultimately show ?thesis using assms [of "i * 2 ^ level" ?hi] lv(1) by (simp add: push_bit_eq_mult)
  qed
  show ?case
  proof (cases "length L > 1")
    case True
    have up: "pair_level node L = (pair_level node ^^ (level + 1)) xs" "idx div 2 < length (pair_level node L)"
      using less.prems by (simp_all add: less_mult_imp_div_less)
    show ?thesis
      using less.prems(2) True nth [of "idx - 1"] nth [of "idx + 1"] less.hyps [OF _ up]
      by (subst siblings.simps, subst prove_loop.simps) (auto simp: level_sibling_def)
  qed (simp add: prove_loop.simps [of _ _ _ _ "length L"] siblings.simps [of _ L])
qed

section \<open>What a path proves\<close>

text \<open>The pairs that are combined when the tree is built, and when a path is climbed.\<close>

function tree_pairs :: "('h \<Rightarrow> 'h \<Rightarrow> 'h) \<Rightarrow> 'h list \<Rightarrow> ('h \<times> 'h) set" where
  "tree_pairs node xs =
    (if length xs > 1 then {(xs ! (2 * i), xs ! (2 * i + 1)) | i. 2 * i + 1 < length xs} \<union> tree_pairs node (pair_level node xs) else {})"
  by auto
termination
  by (relation "measure (\<lambda>(node, xs). length xs)") auto

function climb_pairs :: "nat \<Rightarrow> (bytes \<Rightarrow> bytes \<Rightarrow> bytes) \<Rightarrow> bytes \<Rightarrow> bytes \<Rightarrow> nat \<Rightarrow> nat \<Rightarrow> nat \<Rightarrow> (bytes \<times> bytes) set" where
  "climb_pairs w node path cur consumed idx count =
    (if count > 1 then
       let sib = take w (drop (consumed * w) path) in
       if idx mod 2 = 1 then insert (sib, cur) (climb_pairs w node path (node sib cur) (consumed + 1) (idx div 2) ((count + 1) div 2))
       else if idx + 1 < count then insert (cur, sib) (climb_pairs w node path (node cur sib) (consumed + 1) (idx div 2) ((count + 1) div 2))
       else climb_pairs w node path cur consumed (idx div 2) ((count + 1) div 2)
     else {})"
  by auto
termination
  by (relation "measure (\<lambda>(w, node, path, cur, consumed, idx, count). count)") auto

declare tree_pairs.simps [simp del] climb_pairs.simps [simp del]

lemma pair_level_member: "x \<in> set (pair_level node xs) \<Longrightarrow> x \<in> set xs \<or> (\<exists>l r. x = node l r)"
  by (induction node xs rule: pair_level.induct) auto

lemma siblings_size:
  assumes "\<And>l r. length (node l r) = w"
  shows "\<forall>x \<in> set xs. length x = w \<Longrightarrow> idx < length xs \<Longrightarrow> \<forall>x \<in> set (siblings node xs idx). length x = w"
proof (induction "length xs" arbitrary: xs idx rule: less_induct)
  case less
  show ?case
  proof (cases "length xs > 1")
    case True
    have "\<forall>x \<in> set (pair_level node xs). length x = w" using less.prems(1) assms pair_level_member by metis
    moreover have "idx div 2 < length (pair_level node xs)" using less.prems(2) by (simp add: less_mult_imp_div_less)
    ultimately have "\<forall>x \<in> set (siblings node (pair_level node xs) (idx div 2)). length x = w" using True by (intro less.hyps) simp_all
    then show ?thesis using less.prems True by (subst siblings.simps) (auto simp: level_sibling_def)
  qed (simp add: siblings.simps [of _ xs])
qed

lemma level_up:
  assumes "idx < length xs"
  shows "pair_level node xs ! (idx div 2) =
    (if idx mod 2 = 1 then node (xs ! (idx - 1)) (xs ! idx) else if idx + 1 < length xs then node (xs ! idx) (xs ! (idx + 1)) else xs ! idx)"
proof -
  have nth: "pair_level node xs ! (idx div 2) =
      (if 2 * (idx div 2) + 1 < length xs then node (xs ! (2 * (idx div 2))) (xs ! (2 * (idx div 2) + 1)) else xs ! (2 * (idx div 2)))"
    using assms by (intro nth_pair_level) (simp add: less_mult_imp_div_less)
  show ?thesis
  proof (cases "idx mod 2 = 1")
    case True
    then have "2 * (idx div 2) = idx - 1" "idx - 1 + 1 = idx" by presburger+
    with nth True assms show ?thesis by simp
  next
    case False
    then have "2 * (idx div 2) = idx" by presburger
    with nth False show ?thesis by simp
  qed
qed

lemma climb_level:
  assumes "length xs > 1" "idx < length xs" "\<forall>x \<in> set xs. length x = w" "drop (consumed * w) path = concat (level_sibling xs idx) @ rest"
  shows "climb w node path (xs ! idx) consumed idx (length xs) =
      climb w node path (pair_level node xs ! (idx div 2)) (consumed + length (level_sibling xs idx)) (idx div 2) ((length xs + 1) div 2)"
    and "drop ((consumed + length (level_sibling xs idx)) * w) path = rest"
proof -
  have w: "\<forall>x \<in> set (level_sibling xs idx). length x = w" using assms(2,3) by (auto simp: level_sibling_def)
  have sib: "level_sibling xs idx = [x] \<Longrightarrow> take w (drop (consumed * w) path) = x" for x using assms(4) w by simp
  have "length (concat (level_sibling xs idx)) = length (level_sibling xs idx) * w" using w by (auto simp: level_sibling_def)
  moreover have "drop ((consumed + length (level_sibling xs idx)) * w) path = drop (length (level_sibling xs idx) * w) (drop (consumed * w) path)"
    by (simp add: algebra_simps)
  ultimately show "drop ((consumed + length (level_sibling xs idx)) * w) path = rest" using assms(4) by simp
  show "climb w node path (xs ! idx) consumed idx (length xs) =
      climb w node path (pair_level node xs ! (idx div 2)) (consumed + length (level_sibling xs idx)) (idx div 2) ((length xs + 1) div 2)"
    using assms(1) sib level_up [OF assms(2), of node] by (subst climb.simps) (auto simp: level_sibling_def)
qed

lemma level_sizes:
  assumes "\<And>l r. length (node l r) = w" "\<forall>x \<in> set xs. length x = w"
  shows "\<forall>x \<in> set (pair_level node xs). length x = w"
  using assms pair_level_member by metis

lemma climb_siblings:
  assumes "\<And>l r. length (node l r) = w"
  shows "\<forall>x \<in> set xs. length x = w \<Longrightarrow> idx < length xs \<Longrightarrow> drop (consumed * w) path = concat (siblings node xs idx) @ rest \<Longrightarrow>
    climb w node path (xs ! idx) consumed idx (length xs) = (level_root node xs, consumed + path_len idx (length xs))"
proof (induction "length xs" arbitrary: xs idx consumed rule: less_induct)
  case less
  let ?up = "pair_level node xs" and ?c = "consumed + length (level_sibling xs idx)"
  show ?case
  proof (cases "length xs > 1")
    case True
    have "drop (consumed * w) path = concat (level_sibling xs idx) @ concat (siblings node ?up (idx div 2)) @ rest"
      using less.prems(3) True by (subst (asm) siblings.simps) simp
    note lv = climb_level(1) [OF True less.prems(2,1) this, of node] climb_level(2) [OF True less.prems(2,1) this]
    have "climb w node path (?up ! (idx div 2)) ?c (idx div 2) (length ?up) = (level_root node ?up, ?c + path_len (idx div 2) (length ?up))"
      using True less.prems(2) level_sizes [OF assms less.prems(1)] lv(2)
      by (intro less.hyps) (simp_all add: less_mult_imp_div_less)
    then show ?thesis
      unfolding lv(1) using level_root_up [OF True, of node] path_len.simps [of idx "length xs"] True
      by (simp add: level_sibling_def)
  next
    case False
    with less.prems(2) obtain x where "xs = [x]" "idx = 0" by (cases xs; cases "tl xs") auto
    then show ?thesis by (simp add: climb.simps [of _ _ _ _ _ 0] path_len.simps [of 0])
  qed
qed

lemma climb_size:
  assumes "\<And>l r. length (node l r) = w"
  shows "length cur = w \<Longrightarrow> length (fst (climb w node path cur consumed idx count)) = w"
proof (induction count arbitrary: cur consumed idx rule: less_induct)
  case (less count)
  then show ?case using assms by (subst climb.simps) (simp add: Let_def)
qed

lemma level_root_size:
  assumes "\<And>l r. length (node l r) = w"
  shows "xs \<noteq> [] \<Longrightarrow> \<forall>x \<in> set xs. length x = w \<Longrightarrow> length (level_root node xs) = w"
proof (induction "length xs" arbitrary: xs rule: less_induct)
  case less
  show ?case
  proof (cases "length xs > 1")
    case True
    then have "pair_level node xs \<noteq> []" by (cases xs; cases "tl xs") auto
    then show ?thesis
      unfolding level_root_up [OF True] using True level_sizes [of node w xs, OF assms less.prems(2)] by (intro less.hyps) simp_all
  next
    case False
    with less.prems obtain x where "xs = [x]" by (cases xs; cases "tl xs") auto
    with less.prems show ?thesis by simp
  qed
qed

text \<open>Conversely, what climbs to the root at an index is the leaf at that index, unless two different
  pairs met on the way combine to the same node.\<close>

lemma climb_binds:
  assumes "\<And>l r. length (node l r) = w"
  shows "\<forall>x \<in> set xs. length x = w \<Longrightarrow> idx < length xs \<Longrightarrow> length cur = w \<Longrightarrow>
    inj_on (\<lambda>(l, r). node l r) (tree_pairs node xs \<union> climb_pairs w node path cur consumed idx (length xs)) \<Longrightarrow>
    fst (climb w node path cur consumed idx (length xs)) = level_root node xs \<Longrightarrow> cur = xs ! idx"
proof (induction "length xs" arbitrary: xs idx cur consumed rule: less_induct)
  case less
  let ?up = "pair_level node xs" and ?sib = "take w (drop (consumed * w) path)"
  let ?cur = "if idx mod 2 = 1 then node ?sib cur else if idx + 1 < length xs then node cur ?sib else cur"
  let ?c = "consumed + length (level_sibling xs idx)"
  show ?case
  proof (cases "length xs > 1")
    case True
    let ?pair = "(xs ! (2 * (idx div 2)), xs ! (2 * (idx div 2) + 1))"
    let ?own = "if idx mod 2 = 1 then {(?sib, cur)} else if idx + 1 < length xs then {(cur, ?sib)} else {}"
    have pairs: "climb_pairs w node path cur consumed idx (length xs) = ?own \<union> climb_pairs w node path ?cur ?c (idx div 2) (length ?up)"
      using True by (subst climb_pairs.simps) (simp add: level_sibling_def Let_def)
    have tree: "tree_pairs node xs = {(xs ! (2 * i), xs ! (2 * i + 1)) | i. 2 * i + 1 < length xs} \<union> tree_pairs node ?up"
      using True by (subst tree_pairs.simps) simp
    have "fst (climb w node path ?cur ?c (idx div 2) (length ?up)) = level_root node ?up"
      using less.prems(5) level_root_up [OF True, of node] True by (subst (asm) climb.simps) (simp add: level_sibling_def Let_def split: if_splits)
    moreover have "inj_on (\<lambda>(l, r). node l r) (tree_pairs node ?up \<union> climb_pairs w node path ?cur ?c (idx div 2) (length ?up))"
      using less.prems(4) unfolding pairs tree by (rule inj_on_subset) blast
    ultimately have cur: "?cur = ?up ! (idx div 2)"
      using True less.prems(2,3) level_sizes [OF assms less.prems(1)] assms
      by (intro less.hyps [of ?up "idx div 2" ?cur ?c]) (simp_all add: less_mult_imp_div_less)
    have inj: "node l r = node (fst ?pair) (snd ?pair) \<Longrightarrow> (l, r) \<in> ?own \<Longrightarrow> 2 * (idx div 2) + 1 < length xs \<Longrightarrow> (l, r) = ?pair" for l r
      using inj_onD [OF less.prems(4), of "(l, r)" ?pair] unfolding pairs tree by auto
    have even_odd: "2 * (idx div 2) = (if idx mod 2 = 1 then idx - 1 else idx)" "idx mod 2 = 1 \<Longrightarrow> idx - 1 + 1 = idx" by presburger+
    show ?thesis
      using cur inj [unfolded even_odd(1)] even_odd(2) level_up [OF less.prems(2), of node] less.prems(2) by (auto split: if_splits)
  next
    case False
    with less.prems(2) obtain x where "xs = [x]" "idx = 0" by (cases xs; cases "tl xs") auto
    then show ?thesis using less.prems(5) by (simp add: climb.simps [of _ _ _ _ _ 0])
  qed
qed

lemma tree_pairs_size:
  assumes "\<And>l r. length (node l r) = w"
  shows "\<forall>x \<in> set xs. length x = w \<Longrightarrow> (l, r) \<in> tree_pairs node xs \<Longrightarrow> length l = w \<and> length r = w"
proof (induction "length xs" arbitrary: xs rule: less_induct)
  case less
  show ?case
  proof (cases "(l, r) \<in> tree_pairs node (pair_level node xs) \<and> length xs > 1")
    case True
    then show ?thesis using level_sizes [of node w xs, OF assms less.prems(1)] by (intro less.hyps [of "pair_level node xs"]) auto
  next
    case False
    then show ?thesis using less.prems by (subst (asm) tree_pairs.simps) (auto split: if_splits)
  qed
qed

lemma climb_pairs_size:
  assumes "\<And>l r. length (node l r) = w"
  shows "length cur = w \<Longrightarrow> (consumed + path_len idx count) * w \<le> length path \<Longrightarrow> (l, r) \<in> climb_pairs w node path cur consumed idx count \<Longrightarrow>
    length l = w \<and> length r = w"
proof (induction count arbitrary: cur consumed idx rule: less_induct)
  case (less count)
  let ?sib = "take w (drop (consumed * w) path)"
  let ?cur = "if idx mod 2 = 1 then node ?sib cur else if idx + 1 < count then node cur ?sib else cur"
  let ?step = "if idx mod 2 = 1 \<or> idx + 1 < count then 1 else 0 :: nat"
  have c: "count > 1" using less.prems(3) by (subst (asm) climb_pairs.simps) (simp split: if_splits)
  have len: "path_len idx count = ?step + path_len (idx div 2) ((count + 1) div 2)" using c by (subst path_len.simps) simp
  have "(consumed + ?step) * w \<le> length path" using less.prems(2) unfolding len by (simp add: algebra_simps)
  then have sib: "?step = 1 \<Longrightarrow> length ?sib = w" by (auto simp: algebra_simps split: if_splits)
  show ?case
  proof (cases "(l, r) \<in> climb_pairs w node path ?cur (consumed + ?step) (idx div 2) ((count + 1) div 2)")
    case True
    show ?thesis
      by (rule less.IH [OF _ _ _ True]) (use c less.prems(1,2) assms in \<open>simp_all add: len add.assoc\<close>)
  next
    case False
    then show ?thesis using less.prems(1,3) sib c by (subst (asm) climb_pairs.simps) (auto simp: Let_def split: if_splits)
  qed
qed

end
