(* ===== verification/Chain_Merkle.thy ===== *)
theory Chain_Merkle
  imports Merkle
begin

text \<open>
  The Merkle commitment to the confirmed fault proofs of an epoch (first part of
  \<^verbatim>\<open>src/reputation/chain/src/chain.c\<close>): root, inclusion proof and its check. The hash is the
  parameter \<open>H\<close>; it takes the concatenation of what the C code feeds to the hasher.
\<close>

section \<open>Definitions\<close>

definition ANTS_CHAIN_HASH_SIZE :: nat where "ANTS_CHAIN_HASH_SIZE = 32"
definition ANTS_CHAIN_MERKLE_MAX_DEPTH :: nat where "ANTS_CHAIN_MERKLE_MAX_DEPTH = 32"
definition CHAIN_MERKLE_LEAF_PREFIX :: u8 where "CHAIN_MERKLE_LEAF_PREFIX = 0x00"
definition CHAIN_MERKLE_NODE_PREFIX :: u8 where "CHAIN_MERKLE_NODE_PREFIX = 0x01"
definition CHAIN_MERKLE_EMPTY_PREFIX :: u8 where "CHAIN_MERKLE_EMPTY_PREFIX = 0x02"

definition leaf_hash :: "(bytes \<Rightarrow> bytes) \<Rightarrow> bytes \<Rightarrow> bytes" where
  "leaf_hash H content_id = H (CHAIN_MERKLE_LEAF_PREFIX # content_id)"

definition node_hash :: "(bytes \<Rightarrow> bytes) \<Rightarrow> bytes \<Rightarrow> bytes \<Rightarrow> bytes" where
  "node_hash H left right = H (CHAIN_MERKLE_NODE_PREFIX # left @ right)"

definition empty_root :: "(bytes \<Rightarrow> bytes) \<Rightarrow> bytes" where
  "empty_root H = H [CHAIN_MERKLE_EMPTY_PREFIX]"

text \<open>The leaves of the range are hashed as they are pushed.\<close>

definition subtree_root_range :: "(bytes \<Rightarrow> bytes) \<Rightarrow> bytes list \<Rightarrow> nat \<Rightarrow> nat \<Rightarrow> bytes" where
  "subtree_root_range H ids lo hi =
    bag_peaks (node_hash H) (fold (\<lambda>i st. push_leaf (node_hash H) (leaf_hash H (ids ! i)) st) [lo..<hi] [])"

definition merkle_path_len :: "nat \<Rightarrow> nat \<Rightarrow> nat" where
  "merkle_path_len index n_leaves = path_len index n_leaves"

fun ids_strictly_ascending :: "bytes list \<Rightarrow> bool" where
  "ids_strictly_ascending (a # b # ids) = (\<not> memcmp a b ANTS_CHAIN_HASH_SIZE \<ge> 0 \<and> ids_strictly_ascending (b # ids))"
| "ids_strictly_ascending _ = True"

definition n_leaves_in_range :: "nat \<Rightarrow> bool" where
  "n_leaves_in_range n \<longleftrightarrow> n \<le> push_bit ANTS_CHAIN_MERKLE_MAX_DEPTH 1"

definition ants_chain_confirmed_root :: "(bytes \<Rightarrow> bytes) \<Rightarrow> bytes list \<Rightarrow> bytes res" where
  "ants_chain_confirmed_root H content_ids =
    (let n = length content_ids in
     if n = 0 then Inr (empty_root H)
     else if \<not> n_leaves_in_range n then Inl ANTS_ERROR_INVALID_ARG
     else if \<not> ids_strictly_ascending content_ids then Inl ANTS_ERROR_NON_CANONICAL
     else Inr (subtree_root_range H content_ids 0 n))"

text \<open>The second component is \<^verbatim>\<open>*out_path_len\<close>, when it is written.\<close>

definition ants_chain_confirmed_prove :: "(bytes \<Rightarrow> bytes) \<Rightarrow> bytes list \<Rightarrow> nat \<Rightarrow> nat \<Rightarrow> bytes res \<times> nat option" where
  "ants_chain_confirmed_prove H content_ids index path_cap =
    (let n = length content_ids in
     if n = 0 \<or> index \<ge> n then (Inl ANTS_ERROR_INVALID_ARG, None)
     else if \<not> n_leaves_in_range n then (Inl ANTS_ERROR_INVALID_ARG, None)
     else if \<not> ids_strictly_ascending content_ids then (Inl ANTS_ERROR_NON_CANONICAL, None)
     else
       let need_bytes = merkle_path_len index n * ANTS_CHAIN_HASH_SIZE in
       if need_bytes > path_cap then (Inl ANTS_ERROR_BUFFER_TOO_SMALL, Some need_bytes)
       else
         let written = prove_loop (subtree_root_range H content_ids) n 0 index n in
         (Inr (concat written), Some (length written * ANTS_CHAIN_HASH_SIZE)))"

definition ants_chain_confirmed_verify :: "(bytes \<Rightarrow> bytes) \<Rightarrow> bytes \<Rightarrow> nat \<Rightarrow> nat \<Rightarrow> bytes \<Rightarrow> bytes \<Rightarrow> bool res" where
  "ants_chain_confirmed_verify H leaf_content_id index n path root =
    (if n = 0 \<or> index \<ge> n then Inl ANTS_ERROR_INVALID_ARG
     else if \<not> n_leaves_in_range n then Inl ANTS_ERROR_INVALID_ARG
     else if length path \<noteq> merkle_path_len index n * ANTS_CHAIN_HASH_SIZE then Inl ANTS_ERROR_INVALID_ARG
     else
       case climb ANTS_CHAIN_HASH_SIZE (node_hash H) path (leaf_hash H leaf_content_id) 0 index n of (cur, consumed) \<Rightarrow>
       Inr (consumed * ANTS_CHAIN_HASH_SIZE = length path \<and> memcmp cur root ANTS_CHAIN_HASH_SIZE = 0))"

section \<open>The tree behind the commitment\<close>

lemma range_root:
  assumes "lo < hi" "hi \<le> length ids"
  shows "subtree_root_range H ids lo hi = level_root (node_hash H) (drop lo (take hi (map (leaf_hash H) ids)))"
proof -
  have eq: "map (\<lambda>i. leaf_hash H (ids ! i)) [lo..<hi] = drop lo (take hi (map (leaf_hash H) ids))"
    by (rule nth_equalityI) (use assms in simp_all)
  have "fold (\<lambda>i st. push_leaf (node_hash H) (leaf_hash H (ids ! i)) st) [lo..<hi] [] =
      fold (push_leaf (node_hash H)) (map (\<lambda>i. leaf_hash H (ids ! i)) [lo..<hi]) []"
    by (simp add: fold_map comp_def)
  then have "subtree_root_range H ids lo hi = online_root (node_hash H) (drop lo (take hi (map (leaf_hash H) ids)))"
    unfolding eq by (simp add: subtree_root_range_def online_root_def)
  moreover have "drop lo (take hi (map (leaf_hash H) ids)) \<noteq> []" using assms by simp
  ultimately show ?thesis by (simp add: online_root_levels)
qed

lemma prove_siblings:
  assumes "index < length ids"
  shows "prove_loop (subtree_root_range H ids) (length ids) 0 index (length ids) = siblings (node_hash H) (map (leaf_hash H) ids) index"
  using prove_loop_siblings [of "map (leaf_hash H) ids" "subtree_root_range H ids" "node_hash H" "map (leaf_hash H) ids" 0 index] range_root [of _ _ ids H] assms
  by simp

lemma concat_sizes: "\<forall>x \<in> set xss. length x = w \<Longrightarrow> length (concat xss) = length xss * w"
  by (induction xss) auto

lemma prove_path:
  assumes "\<forall>x. length (H x) = ANTS_CHAIN_HASH_SIZE" "index < length ids"
  shows "length (concat (siblings (node_hash H) (map (leaf_hash H) ids) index)) = merkle_path_len index (length ids) * ANTS_CHAIN_HASH_SIZE"
    and "climb ANTS_CHAIN_HASH_SIZE (node_hash H) (concat (siblings (node_hash H) (map (leaf_hash H) ids) index)) (leaf_hash H (ids ! index)) 0 index (length ids) =
      (level_root (node_hash H) (map (leaf_hash H) ids), merkle_path_len index (length ids))"
proof -
  let ?ls = "map (leaf_hash H) ids"
  have sz: "\<And>l r. length (node_hash H l r) = ANTS_CHAIN_HASH_SIZE" "\<forall>x \<in> set ?ls. length x = ANTS_CHAIN_HASH_SIZE"
    using assms(1) by (simp_all add: node_hash_def leaf_hash_def)
  have i: "index < length ?ls" using assms(2) by simp
  from concat_sizes [OF siblings_size [of "node_hash H", OF sz i]] show "length (concat (siblings (node_hash H) ?ls index)) = merkle_path_len index (length ids) * ANTS_CHAIN_HASH_SIZE"
    by (simp add: length_siblings merkle_path_len_def del: length_concat)
  from climb_siblings [of "node_hash H" ANTS_CHAIN_HASH_SIZE ?ls index 0 "concat (siblings (node_hash H) ?ls index)" "[]"] sz i
  show "climb ANTS_CHAIN_HASH_SIZE (node_hash H) (concat (siblings (node_hash H) ?ls index)) (leaf_hash H (ids ! index)) 0 index (length ids) =
      (level_root (node_hash H) ?ls, merkle_path_len index (length ids))"
    by (simp add: merkle_path_len_def)
qed

text \<open>The inputs that are hashed when the tree is built, and when a path is checked.\<close>

definition tree_inputs :: "(bytes \<Rightarrow> bytes) \<Rightarrow> bytes list \<Rightarrow> bytes set" where
  "tree_inputs H ids = (\<lambda>x. CHAIN_MERKLE_LEAF_PREFIX # x) ` set ids \<union>
    (\<lambda>(l, r). CHAIN_MERKLE_NODE_PREFIX # l @ r) ` tree_pairs (node_hash H) (map (leaf_hash H) ids)"

definition path_inputs :: "(bytes \<Rightarrow> bytes) \<Rightarrow> bytes \<Rightarrow> nat \<Rightarrow> nat \<Rightarrow> bytes \<Rightarrow> bytes set" where
  "path_inputs H leaf index n path = insert (CHAIN_MERKLE_LEAF_PREFIX # leaf)
    ((\<lambda>(l, r). CHAIN_MERKLE_NODE_PREFIX # l @ r) ` climb_pairs ANTS_CHAIN_HASH_SIZE (node_hash H) path (leaf_hash H leaf) 0 index n)"

lemma hashed_pairs_inj:
  assumes "\<forall>(l, r) \<in> P. length l = w \<and> length r = w" "inj_on H ((\<lambda>(l, r). CHAIN_MERKLE_NODE_PREFIX # l @ r) ` P)"
  shows "inj_on (\<lambda>(l, r). node_hash H l r) P"
proof (rule inj_onI)
  fix p q assume pq: "p \<in> P" "q \<in> P" "(\<lambda>(l, r). node_hash H l r) p = (\<lambda>(l, r). node_hash H l r) q"
  obtain l r l' r' where d: "p = (l, r)" "q = (l', r')" by fastforce
  with pq have "l @ r = l' @ r'" using inj_onD [OF assms(2), of "CHAIN_MERKLE_NODE_PREFIX # l @ r" "CHAIN_MERKLE_NODE_PREFIX # l' @ r'"]
    by (force simp: node_hash_def)
  moreover have "length l = length l'" using bspec [OF assms(1) pq(1)] bspec [OF assms(1) pq(2)] d by simp
  ultimately show "p = q" using d by simp
qed

lemma inclusion_binds:
  assumes "\<forall>x. length (H x) = ANTS_CHAIN_HASH_SIZE" "index < length ids" "length path = merkle_path_len index (length ids) * ANTS_CHAIN_HASH_SIZE"
    and "inj_on H (tree_inputs H ids \<union> path_inputs H leaf index (length ids) path)"
    and "fst (climb ANTS_CHAIN_HASH_SIZE (node_hash H) path (leaf_hash H leaf) 0 index (length ids)) = level_root (node_hash H) (map (leaf_hash H) ids)"
  shows "leaf = ids ! index"
proof -
  let ?ls = "map (leaf_hash H) ids" and ?P = "tree_pairs (node_hash H) (map (leaf_hash H) ids)"
  let ?Q = "climb_pairs ANTS_CHAIN_HASH_SIZE (node_hash H) path (leaf_hash H leaf) 0 index (length ids)"
  have sz: "\<And>l r. length (node_hash H l r) = ANTS_CHAIN_HASH_SIZE" "\<forall>x \<in> set ?ls. length x = ANTS_CHAIN_HASH_SIZE" "length (leaf_hash H leaf) = ANTS_CHAIN_HASH_SIZE"
    using assms(1) by (simp_all add: node_hash_def leaf_hash_def)
  have "\<forall>(l, r) \<in> ?P \<union> ?Q. length l = ANTS_CHAIN_HASH_SIZE \<and> length r = ANTS_CHAIN_HASH_SIZE"
    using tree_pairs_size [of "node_hash H", OF sz(1,2)] climb_pairs_size [of "node_hash H", OF sz(1,3), of 0 index "length ids" path] assms(3)
    by (auto simp: merkle_path_len_def)
  moreover have "inj_on H ((\<lambda>(l, r). CHAIN_MERKLE_NODE_PREFIX # l @ r) ` (?P \<union> ?Q))"
    using assms(4) by (rule inj_on_subset) (auto simp: tree_inputs_def path_inputs_def)
  ultimately have "inj_on (\<lambda>(l, r). node_hash H l r) (?P \<union> ?Q)" by (rule hashed_pairs_inj)
  then have "leaf_hash H leaf = ?ls ! index"
    using climb_binds [of "node_hash H" ANTS_CHAIN_HASH_SIZE ?ls index "leaf_hash H leaf" path 0] sz assms(2,5) by simp
  then have "H (CHAIN_MERKLE_LEAF_PREFIX # leaf) = H (CHAIN_MERKLE_LEAF_PREFIX # ids ! index)" using assms(2) by (simp add: leaf_hash_def)
  with assms(4) have "CHAIN_MERKLE_LEAF_PREFIX # leaf = CHAIN_MERKLE_LEAF_PREFIX # ids ! index"
    by (rule inj_onD) (use assms(2) in \<open>auto simp: tree_inputs_def path_inputs_def\<close>)
  then show ?thesis by simp
qed

lemma confirmed_root_eq:
  "ants_chain_confirmed_root H ids =
    (if ids = [] then Inr (H [CHAIN_MERKLE_EMPTY_PREFIX])
     else if length ids > 2 ^ ANTS_CHAIN_MERKLE_MAX_DEPTH then Inl ANTS_ERROR_INVALID_ARG
     else if \<not> ids_strictly_ascending ids then Inl ANTS_ERROR_NON_CANONICAL
     else Inr (level_root (node_hash H) (map (leaf_hash H) ids)))"
  using range_root [of 0 "length ids" ids H]
  by (auto simp: ants_chain_confirmed_root_def Let_def n_leaves_in_range_def empty_root_def not_le push_bit_eq_mult)

lemma confirmed_prove_eq:
  assumes "\<forall>x. length (H x) = ANTS_CHAIN_HASH_SIZE" "ants_chain_confirmed_root H ids = Inr root" "index < length ids"
    "merkle_path_len index (length ids) * ANTS_CHAIN_HASH_SIZE \<le> path_cap"
  shows "ants_chain_confirmed_prove H ids index path_cap =
    (Inr (concat (siblings (node_hash H) (map (leaf_hash H) ids) index)), Some (merkle_path_len index (length ids) * ANTS_CHAIN_HASH_SIZE))"
proof -
  have "ids \<noteq> []" using assms(3) by auto
  with assms(2) have "n_leaves_in_range (length ids)" "ids_strictly_ascending ids"
    by (auto simp: ants_chain_confirmed_root_def Let_def split: if_splits)
  with assms(3,4) prove_siblings [OF assms(3), of H] \<open>ids \<noteq> []\<close> show ?thesis
    by (simp add: ants_chain_confirmed_prove_def Let_def length_siblings merkle_path_len_def not_le)
qed

section \<open>Properties\<close>

text \<open>C28. The online construction with its stack of peaks computes the level-by-level tree in which
  a lone trailing node is promoted, and reports the other inputs: no leaves, too many, or
  leaves out of order.\<close>

theorem chain_root_is_level_tree:
  "ants_chain_confirmed_root H ids =
    (if ids = [] then Inr (H [CHAIN_MERKLE_EMPTY_PREFIX])
     else if length ids > 2 ^ ANTS_CHAIN_MERKLE_MAX_DEPTH then Inl ANTS_ERROR_INVALID_ARG
     else if \<not> ids_strictly_ascending ids then Inl ANTS_ERROR_NON_CANONICAL
     else Inr (level_root (node_hash H) (map (leaf_hash H) ids)))"
  by (rule confirmed_root_eq)

text \<open>The fixed stack is large enough: with at most \<^verbatim>\<open>2^32\<close> leaves there is always room for the
  next one among its 34 entries.\<close>

theorem chain_merkle_stack_bounded:
  assumes "n_leaves_in_range (length ids)" "k < length ids"
  shows "length (fold (\<lambda>i st. push_leaf (node_hash H) (leaf_hash H (ids ! i)) st) [0..<k] []) < ANTS_CHAIN_MERKLE_MAX_DEPTH + 2"
proof -
  let ?ls = "map (\<lambda>i. leaf_hash H (ids ! i)) [0..<k]"
  have "length ?ls < 2 ^ ANTS_CHAIN_MERKLE_MAX_DEPTH" using assms by (simp add: n_leaves_in_range_def push_bit_eq_mult)
  from stack_room [OF this, of "node_hash H"] show ?thesis by (simp add: fold_map comp_def)
qed

text \<open>C29. An inclusion proof that the prover writes is accepted by the checker against the root, for
  every leaf.\<close>

theorem chain_inclusion_complete:
  assumes "\<forall>x. length (H x) = ANTS_CHAIN_HASH_SIZE" "ants_chain_confirmed_root H ids = Inr root" "index < length ids"
    "merkle_path_len index (length ids) * ANTS_CHAIN_HASH_SIZE \<le> path_cap"
  shows "\<exists>path. ants_chain_confirmed_prove H ids index path_cap = (Inr path, Some (length path)) \<and>
    ants_chain_confirmed_verify H (ids ! index) index (length ids) path root = Inr True"
proof -
  let ?path = "concat (siblings (node_hash H) (map (leaf_hash H) ids) index)"
  have "ids \<noteq> []" using assms(3) by auto
  with assms(2) have r: "n_leaves_in_range (length ids)" "root = level_root (node_hash H) (map (leaf_hash H) ids)"
    using confirmed_root_eq [of H ids] by (auto simp: n_leaves_in_range_def push_bit_eq_mult split: if_splits)
  have "ants_chain_confirmed_verify H (ids ! index) index (length ids) ?path root = Inr True"
    using assms(3) r prove_path [OF assms(1,3)] \<open>ids \<noteq> []\<close> by (simp add: ants_chain_confirmed_verify_def del: length_concat)
  then show ?thesis
    using confirmed_prove_eq [OF assms] prove_path(1) [OF assms(1,3)] by (intro exI [of _ ?path]) (simp del: length_concat)
qed

text \<open>C30. The root binds its leaves: a checker that accepts a path at an index has been given the leaf
  at that index, unless two different inputs hashed on the way collide.\<close>

theorem chain_inclusion_binds:
  assumes "\<forall>x. length (H x) = ANTS_CHAIN_HASH_SIZE" "ants_chain_confirmed_root H ids = Inr root"
    and "ants_chain_confirmed_verify H leaf index (length ids) path root = Inr True"
    and "inj_on H (tree_inputs H ids \<union> path_inputs H leaf index (length ids) path)"
  shows "leaf = ids ! index"
proof -
  have v: "index < length ids" "length path = merkle_path_len index (length ids) * ANTS_CHAIN_HASH_SIZE"
      "memcmp (fst (climb ANTS_CHAIN_HASH_SIZE (node_hash H) path (leaf_hash H leaf) 0 index (length ids))) root ANTS_CHAIN_HASH_SIZE = 0"
    using assms(3) by (auto simp: ants_chain_confirmed_verify_def split: if_splits prod.splits)
  then have root: "root = level_root (node_hash H) (map (leaf_hash H) ids)" using assms(2) confirmed_root_eq [of H ids] by (auto split: if_splits)
  have sz: "\<And>l r. length (node_hash H l r) = ANTS_CHAIN_HASH_SIZE" "\<And>x. length (leaf_hash H x) = ANTS_CHAIN_HASH_SIZE"
    using assms(1) by (simp_all add: node_hash_def leaf_hash_def)
  have "ids \<noteq> []" using v(1) by auto
  then have "length root = ANTS_CHAIN_HASH_SIZE" using level_root_size [of "node_hash H", OF sz(1)] sz(2) by (simp add: root)
  then show ?thesis
    using v(3) climb_size [of "node_hash H", OF sz] by (intro inclusion_binds [OF assms(1) v(1,2) assms(4)]) (simp add: memcmp_key root)
qed

section \<open>Witnesses\<close>

text \<open>A hash of the right width that keeps the first and the last byte, and two leaves.\<close>

definition ends_hash :: "bytes \<Rightarrow> bytes" where
  "ends_hash x = replicate 30 0 @ [hd x, last x]"

definition sample_ids :: "bytes list" where
  "sample_ids = [replicate 32 1, replicate 32 2]"

lemma ends_hash_length: "\<forall>x. length (ends_hash x) = ANTS_CHAIN_HASH_SIZE"
  by (simp add: ends_hash_def ANTS_CHAIN_HASH_SIZE_def)

lemma sample_root:
  "ants_chain_confirmed_root ends_hash sample_ids = Inr (node_hash ends_hash (leaf_hash ends_hash (replicate 32 1)) (leaf_hash ends_hash (replicate 32 2)))"
proof -
  have "ids_strictly_ascending sample_ids" by code_simp
  moreover have "length sample_ids = 2" by (simp add: sample_ids_def)
  ultimately show ?thesis
    unfolding confirmed_root_eq by (simp add: sample_ids_def ANTS_CHAIN_MERKLE_MAX_DEPTH_def level_root_up)
qed

lemma sample_cap: "1 < length sample_ids" "merkle_path_len 1 (length sample_ids) * ANTS_CHAIN_HASH_SIZE \<le> 32"
  by code_simp+

theorem chain_merkle_stack_bounded_witness:
  "n_leaves_in_range (length sample_ids) \<and>
   length (fold (\<lambda>i st. push_leaf (node_hash ends_hash) (leaf_hash ends_hash (sample_ids ! i)) st) [0..<1] []) < ANTS_CHAIN_MERKLE_MAX_DEPTH + 2"
proof -
  have n: "n_leaves_in_range (length sample_ids)"
    by (simp add: n_leaves_in_range_def sample_ids_def push_bit_eq_mult ANTS_CHAIN_MERKLE_MAX_DEPTH_def)
  from chain_merkle_stack_bounded [OF n sample_cap(1)] n show ?thesis by blast
qed

theorem chain_inclusion_complete_witness:
  "\<exists>root path. ants_chain_confirmed_root ends_hash sample_ids = Inr root \<and>
    ants_chain_confirmed_prove ends_hash sample_ids 1 32 = (Inr path, Some (length path)) \<and>
    ants_chain_confirmed_verify ends_hash (sample_ids ! 1) 1 2 path root = Inr True"
proof -
  have "length sample_ids = 2" by (simp add: sample_ids_def)
  with chain_inclusion_complete [OF ends_hash_length sample_root sample_cap] sample_root show ?thesis by auto
qed

theorem chain_inclusion_binds_witness:
  "\<exists>root path. ants_chain_confirmed_root ends_hash sample_ids = Inr root \<and>
    ants_chain_confirmed_verify ends_hash (replicate 32 2) 1 2 path root = Inr True \<and> replicate 32 2 = sample_ids ! 1"
proof -
  let ?l = "\<lambda>b. leaf_hash ends_hash (replicate 32 b)"
  have two: "length sample_ids = 2" by (simp add: sample_ids_def)
  have lv: "map (leaf_hash ends_hash) sample_ids = [?l 1, ?l 2]" by (simp add: sample_ids_def)
  have t: "tree_pairs (node_hash ends_hash) [?l 1, ?l 2] = {(?l 1, ?l 2)}"
    by (subst tree_pairs.simps, subst tree_pairs.simps) (auto simp: less_Suc_eq)
  have c: "climb_pairs ANTS_CHAIN_HASH_SIZE (node_hash ends_hash) (?l 1) (?l 2) 0 1 2 = {(?l 1, ?l 2)}"
    by (subst climb_pairs.simps, subst climb_pairs.simps) (simp add: leaf_hash_def ends_hash_def ANTS_CHAIN_HASH_SIZE_def)
  have inj: "inj_on ends_hash (tree_inputs ends_hash sample_ids \<union> path_inputs ends_hash (replicate 32 2) 1 2 (?l 1))"
    unfolding tree_inputs_def path_inputs_def lv t c
    by (auto simp: inj_on_def sample_ids_def ends_hash_def leaf_hash_def CHAIN_MERKLE_LEAF_PREFIX_def CHAIN_MERKLE_NODE_PREFIX_def)
  have "climb ANTS_CHAIN_HASH_SIZE (node_hash ends_hash) (?l 1) (?l 2) 0 1 2 = (node_hash ends_hash (?l 1) (?l 2), 1)"
    by (subst climb.simps, subst climb.simps) (simp add: leaf_hash_def ends_hash_def ANTS_CHAIN_HASH_SIZE_def)
  moreover have "merkle_path_len 1 2 = 1" by code_simp
  moreover have "n_leaves_in_range 2" by (simp add: n_leaves_in_range_def push_bit_eq_mult ANTS_CHAIN_MERKLE_MAX_DEPTH_def)
  ultimately have v: "ants_chain_confirmed_verify ends_hash (replicate 32 2) 1 2 (?l 1) (node_hash ends_hash (?l 1) (?l 2)) = Inr True"
    using ends_hash_length by (simp add: ants_chain_confirmed_verify_def leaf_hash_def)
  have "replicate 32 2 = sample_ids ! 1" using chain_inclusion_binds [OF ends_hash_length sample_root, of "replicate 32 2" 1 "?l 1"] v inj by (simp add: two)
  with sample_root v show ?thesis by blast
qed

end
