(* ===== verification/Chain_Block.thy ===== *)
theory Chain_Block
  imports Chain_Merkle Fault_Proof
begin

text \<open>
  The epoch summary and the block of \<^verbatim>\<open>src/reputation/chain/src/chain.c\<close> as canonical CBOR, the
  block hash, and the documented buffer bounds. The decoders take the capacity of the
  caller's array of findings; the second component of their result is what they write to
  \<^verbatim>\<open>*out_n_findings\<close>. The last section shows that \<^verbatim>\<open>reputation/crdt\<close>, which has its own reader
  of blocks, reads the same summary out of them.
\<close>

section \<open>Definitions\<close>

definition ANTS_CHAIN_PEER_ID_SIZE :: nat where "ANTS_CHAIN_PEER_ID_SIZE = 32"
definition ANTS_CHAIN_MAX_PATTERN_FINDINGS :: nat where "ANTS_CHAIN_MAX_PATTERN_FINDINGS = 256"
definition ANTS_CHAIN_EPOCH_SUMMARY_ENCODED_MAX :: nat where
  "ANTS_CHAIN_EPOCH_SUMMARY_ENCODED_MAX = 80 + ANTS_CHAIN_MAX_PATTERN_FINDINGS * 96"
definition ANTS_CHAIN_BLOCK_ENCODED_MAX :: nat where
  "ANTS_CHAIN_BLOCK_ENCODED_MAX = 64 + ANTS_CHAIN_EPOCH_SUMMARY_ENCODED_MAX"
definition ANTS_CHAIN_SEVERITY_SOFT :: "32 word" where "ANTS_CHAIN_SEVERITY_SOFT = 1"
definition ANTS_CHAIN_SEVERITY_MEDIUM :: "32 word" where "ANTS_CHAIN_SEVERITY_MEDIUM = 2"
definition ANTS_CHAIN_SEVERITY_HARD :: "32 word" where "ANTS_CHAIN_SEVERITY_HARD = 3"
definition ANTS_CHAIN_SEVERITY_RESERVED_MIN :: "32 word" where "ANTS_CHAIN_SEVERITY_RESERVED_MIN = 5"

lemmas chain_sizes = ANTS_CHAIN_HASH_SIZE_def ANTS_CHAIN_PEER_ID_SIZE_def ANTS_CHAIN_MAX_PATTERN_FINDINGS_def
  ANTS_CHAIN_EPOCH_SUMMARY_ENCODED_MAX_def ANTS_CHAIN_BLOCK_ENCODED_MAX_def

lemmas chain_severities = ANTS_CHAIN_SEVERITY_SOFT_def ANTS_CHAIN_SEVERITY_MEDIUM_def ANTS_CHAIN_SEVERITY_HARD_def
  ANTS_CHAIN_SEVERITY_RESERVED_MIN_def

record ants_chain_pattern_finding =
  pf_subject :: bytes
  pf_rule_id :: u64
  pf_window_s :: u64
  pf_count :: u64
  pf_severity :: "32 word"

record ants_chain_epoch_summary =
  es_epoch :: u64
  es_cutoff_time :: u64
  es_confirmed_proofs :: bytes
  es_findings :: "ants_chain_pattern_finding list"

record ants_chain_block =
  bk_height :: u64
  bk_prev_block_hash :: bytes
  bk_degraded_seed :: bool
  bk_summary :: ants_chain_epoch_summary

definition severity_valid :: "u64 \<Rightarrow> bool" where
  "severity_valid s \<longleftrightarrow> s \<ge> ucast ANTS_CHAIN_SEVERITY_SOFT \<and> s < ucast ANTS_CHAIN_SEVERITY_RESERVED_MIN"

definition ants_chain_epoch_summary_bound :: "ants_chain_epoch_summary \<Rightarrow> nat" where
  "ants_chain_epoch_summary_bound s = 80 + length (es_findings s) * 96"

definition enc_finding :: "ants_chain_pattern_finding \<Rightarrow> ants_cbor_enc step" where
  "enc_finding f = run_steps
    [ants_cbor_enc_map 5, enc_kv_bytes 1 (pf_subject f), enc_kv_uint 2 (pf_rule_id f), enc_kv_uint 3 (pf_window_s f),
     enc_kv_uint 4 (pf_count f), enc_kv_uint 5 (ucast (pf_severity f))]"

definition ants_chain_epoch_summary_encode :: "ants_chain_epoch_summary \<Rightarrow> bytes \<Rightarrow> bytes res" where
  "ants_chain_epoch_summary_encode s buf =
    (if length (es_findings s) > ANTS_CHAIN_MAX_PATTERN_FINDINGS then Inl ANTS_ERROR_INVALID_ARG
     else if list_ex (\<lambda>f. \<not> severity_valid (ucast (pf_severity f))) (es_findings s) then Inl ANTS_ERROR_INVALID_ARG
     else cbor_document buf
      ([ants_cbor_enc_map 4, enc_kv_uint 1 (es_epoch s), enc_kv_uint 2 (es_cutoff_time s), enc_kv_bytes 3 (es_confirmed_proofs s),
        ants_cbor_enc_uint 4, ants_cbor_enc_array (length (es_findings s))] @ map enc_finding (es_findings s)))"

definition decode_finding :: "(ants_cbor_dec, ants_chain_pattern_finding) reader" where
  "decode_finding =
    then_read (norm_read ants_cbor_dec_map) (\<lambda>n_pairs. if n_pairs \<noteq> 5 then read_fail ANTS_ERROR_MALFORMED else
    then_read (decode_bytes_field 1 ANTS_CHAIN_PEER_ID_SIZE) (\<lambda>subject.
    then_read (decode_uint_field 2) (\<lambda>rule_id.
    then_read (decode_uint_field 3) (\<lambda>window_s.
    then_read (decode_uint_field 4) (\<lambda>count.
    then_read (then_read (decode_uint_field 5) (\<lambda>u. if \<not> severity_valid u then read_fail ANTS_ERROR_UNSUPPORTED_TYPE else read_ret (ucast u))) (\<lambda>severity.
    read_ret \<lparr>pf_subject = subject, pf_rule_id = rule_id, pf_window_s = window_s, pf_count = count, pf_severity = severity\<rparr>))))))"

text \<open>Up to the array header, and the findings after it.\<close>

definition summary_head :: "(ants_cbor_dec, u64 \<times> u64 \<times> bytes \<times> nat) reader" where
  "summary_head =
    then_read (norm_read ants_cbor_dec_map) (\<lambda>n_pairs. if n_pairs \<noteq> 4 then read_fail ANTS_ERROR_MALFORMED else
    then_read (decode_uint_field 1) (\<lambda>epoch.
    then_read (decode_uint_field 2) (\<lambda>cutoff_time.
    then_read (decode_bytes_field 3 ANTS_CHAIN_HASH_SIZE) (\<lambda>confirmed_proofs.
    then_read (expect_key 4) (\<lambda>_.
    then_read (norm_read ants_cbor_dec_array) (\<lambda>n_findings.
    read_ret (epoch, cutoff_time, confirmed_proofs, n_findings)))))))"

definition summary_findings :: "nat \<Rightarrow> nat \<Rightarrow> (ants_cbor_dec, ants_chain_pattern_finding list) reader" where
  "summary_findings findings_cap n_findings =
    (if n_findings > findings_cap then read_fail ANTS_ERROR_BUFFER_TOO_SMALL else read_times n_findings decode_finding)"

definition summary_body :: "nat \<Rightarrow> (ants_cbor_dec, ants_chain_epoch_summary) reader" where
  "summary_body findings_cap =
    then_read summary_head (\<lambda>(epoch, cutoff_time, confirmed_proofs, n_findings).
    then_read (summary_findings findings_cap n_findings) (\<lambda>findings.
    read_ret \<lparr>es_epoch = epoch, es_cutoff_time = cutoff_time, es_confirmed_proofs = confirmed_proofs, es_findings = findings\<rparr>))"

definition ants_chain_epoch_summary_decode :: "bytes \<Rightarrow> nat \<Rightarrow> ants_chain_epoch_summary res \<times> nat option" where
  "ants_chain_epoch_summary_decode buf findings_cap =
    (if length buf = 0 then (Inl ANTS_ERROR_INVALID_ARG, None)
     else (cbor_read_document (summary_body findings_cap) buf,
       case summary_head (ants_cbor_dec_init buf) of
         (Inl e, d) \<Rightarrow> None
       | (Inr (epoch, cutoff_time, confirmed_proofs, n_findings), d) \<Rightarrow> Some n_findings))"

definition ants_chain_block_bound :: "ants_chain_block \<Rightarrow> nat" where
  "ants_chain_block_bound b = 64 + ants_chain_epoch_summary_bound (bk_summary b)"

definition ants_chain_block_encode :: "ants_chain_block \<Rightarrow> bytes \<Rightarrow> bytes res" where
  "ants_chain_block_encode b buf =
    (case ants_chain_epoch_summary_encode (bk_summary b) (replicate ANTS_CHAIN_EPOCH_SUMMARY_ENCODED_MAX 0) of
       Inl e \<Rightarrow> Inl e
     | Inr sbuf \<Rightarrow> cbor_document buf
        [ants_cbor_enc_map 4, enc_kv_uint 1 (bk_height b), enc_kv_bytes 2 (bk_prev_block_hash b), ants_cbor_enc_uint 3,
         ants_cbor_enc_bool (bk_degraded_seed b), ants_cbor_enc_uint 4, ants_cbor_enc_bytes sbuf])"

definition ants_chain_block_hash :: "(bytes \<Rightarrow> bytes) \<Rightarrow> ants_chain_block \<Rightarrow> bytes res" where
  "ants_chain_block_hash H b =
    (case ants_chain_block_encode b (replicate ANTS_CHAIN_BLOCK_ENCODED_MAX 0) of Inl e \<Rightarrow> Inl e | Inr buf \<Rightarrow> Inr (H buf))"

definition block_head :: "(ants_cbor_dec, u64 \<times> bytes \<times> bool \<times> bytes) reader" where
  "block_head =
    then_read (norm_read ants_cbor_dec_map) (\<lambda>n_pairs. if n_pairs \<noteq> 4 then read_fail ANTS_ERROR_MALFORMED else
    then_read (decode_uint_field 1) (\<lambda>height.
    then_read (decode_bytes_field 2 ANTS_CHAIN_HASH_SIZE) (\<lambda>prev_block_hash.
    then_read (decode_bool_field 3) (\<lambda>degraded_seed.
    then_read (expect_key 4) (\<lambda>_.
    then_read (norm_read ants_cbor_dec_bytes) (\<lambda>sp.
    read_ret (height, prev_block_hash, degraded_seed, sp)))))))"

definition ants_chain_block_decode :: "bytes \<Rightarrow> nat \<Rightarrow> ants_chain_block res \<times> nat option" where
  "ants_chain_block_decode buf findings_cap =
    (if length buf = 0 then (Inl ANTS_ERROR_INVALID_ARG, None)
     else case block_head (ants_cbor_dec_init buf) of
       (Inl e, d) \<Rightarrow> (Inl e, None)
     | (Inr (height, prev_block_hash, degraded_seed, sp), d) \<Rightarrow>
         (case ants_chain_epoch_summary_decode sp findings_cap of
            (Inl e, n) \<Rightarrow> (Inl e, n)
          | (Inr s, n) \<Rightarrow>
              (let rc = norm_decode_err (ants_cbor_dec_finalise d) in
               if rc \<noteq> ANTS_OK then (Inl rc, n)
               else (Inr \<lparr>bk_height = height, bk_prev_block_hash = prev_block_hash, bk_degraded_seed = degraded_seed, bk_summary = s\<rparr>, n))))"

section \<open>The documents\<close>

definition finding_item :: "ants_chain_pattern_finding \<Rightarrow> item" where
  "finding_item f = MapI [(UInt 1, ByteStr (pf_subject f)), (UInt 2, UInt (pf_rule_id f)), (UInt 3, UInt (pf_window_s f)),
    (UInt 4, UInt (pf_count f)), (UInt 5, UInt (ucast (pf_severity f)))]"

definition finding_ok :: "ants_chain_pattern_finding \<Rightarrow> bool" where
  "finding_ok f \<longleftrightarrow> length (pf_subject f) = ANTS_CHAIN_PEER_ID_SIZE \<and> severity_valid (ucast (pf_severity f))"

definition summary_item :: "ants_chain_epoch_summary \<Rightarrow> item" where
  "summary_item s = MapI [(UInt 1, UInt (es_epoch s)), (UInt 2, UInt (es_cutoff_time s)), (UInt 3, ByteStr (es_confirmed_proofs s)),
    (UInt 4, Arr (map finding_item (es_findings s)))]"

definition summary_ok :: "nat \<Rightarrow> ants_chain_epoch_summary \<Rightarrow> bool" where
  "summary_ok cap s \<longleftrightarrow> length (es_confirmed_proofs s) = ANTS_CHAIN_HASH_SIZE \<and> length (es_findings s) \<le> cap \<and> list_all finding_ok (es_findings s)"

definition block_item :: "ants_chain_block \<Rightarrow> item" where
  "block_item b = MapI [(UInt 1, UInt (bk_height b)), (UInt 2, ByteStr (bk_prev_block_hash b)), (UInt 3, Boolean (bk_degraded_seed b)),
    (UInt 4, ByteStr (enc_item (summary_item (bk_summary b))))]"

definition block_ok :: "nat \<Rightarrow> ants_chain_block \<Rightarrow> bool" where
  "block_ok cap b \<longleftrightarrow> length (bk_prev_block_hash b) = ANTS_CHAIN_HASH_SIZE \<and> summary_ok cap (bk_summary b)"

lemma finding_item_wf: "finding_ok f \<Longrightarrow> wf_item (finding_item f) \<and> nests_within 2 (finding_item f)"
  by (simp add: finding_item_def finding_ok_def chain_sizes head_bytes_def)

lemma summary_item_wf:
  assumes "summary_ok cap s" "cap < 2 ^ 64"
  shows "wf_item (summary_item s) \<and> nests_within ANTS_CBOR_MAX_DEPTH (summary_item s)"
proof -
  have "wf_item (finding_item f) \<and> nests_within 14 (finding_item f)" if "f \<in> set (es_findings s)" for f
    using finding_item_wf [of f] assms(1) that by (auto simp: summary_ok_def list_all_iff finding_item_def)
  with assms show ?thesis by (auto simp: summary_item_def summary_ok_def chain_sizes head_bytes_def ANTS_CBOR_MAX_DEPTH_def)
qed

lemma finding_size: "finding_ok f \<Longrightarrow> length (enc_item (finding_item f)) \<le> 77"
proof -
  have "length (head_bytes m v) \<le> 9" for m v by (simp add: head_bytes_length)
  from this [of 0 "pf_rule_id f"] this [of 0 "pf_window_s f"] this [of 0 "pf_count f"] this [of 0 "ucast (pf_severity f)"]
  show "finding_ok f \<Longrightarrow> ?thesis" by (simp add: finding_item_def finding_ok_def chain_sizes head_bytes_length)
qed

lemma summary_size:
  assumes "summary_ok cap s"
  shows "length (enc_item (summary_item s)) \<le> ants_chain_epoch_summary_bound s"
proof -
  have hd: "length (head_bytes m v) \<le> 9" for m v by (simp add: head_bytes_length)
  have "list_all finding_ok fs \<Longrightarrow> length (concat (map (enc_item \<circ> finding_item) fs)) \<le> length fs * 96" for fs
  proof (induction fs)
    case (Cons f fs)
    then show ?case using finding_size [of f] by simp
  qed simp
  from this [of "es_findings s"] hd [of 0 "es_epoch s"] hd [of 0 "es_cutoff_time s"] hd [of 4 "of_nat (length (es_findings s))"] assms
  show ?thesis
    by (simp add: summary_item_def summary_ok_def ants_chain_epoch_summary_bound_def chain_sizes head_bytes_length [of _ 1]
        head_bytes_length [of _ 2] head_bytes_length [of _ 3] head_bytes_length [of _ 4] head_bytes_length [of 2 32])
qed

section \<open>Encoding\<close>

definition finding_calls :: "ants_chain_pattern_finding \<Rightarrow> enc_call list" where
  "finding_calls f = [CMap 5, CUint 1, CBytes (pf_subject f), CUint 2, CUint (pf_rule_id f), CUint 3, CUint (pf_window_s f),
    CUint 4, CUint (pf_count f), CUint 5, CUint (ucast (pf_severity f))]"

lemma finding_calls_item: "calls_of (finding_item f) = finding_calls f"
  by (simp add: finding_item_def finding_calls_def)

lemma exec_finding: "exec_calls (finding_calls f) = enc_finding f"
  using run_exec_calls [of "[[CMap 5], [CUint 1, CBytes (pf_subject f)], [CUint 2, CUint (pf_rule_id f)], [CUint 3, CUint (pf_window_s f)],
    [CUint 4, CUint (pf_count f)], [CUint 5, CUint (ucast (pf_severity f))]]"]
  by (simp add: finding_calls_def enc_finding_def enc_kv_calls exec_single) (simp add: exec_calls_def)

lemma summary_encode:
  "ants_chain_epoch_summary_encode s buf =
    (if summary_ok ANTS_CHAIN_MAX_PATTERN_FINDINGS s then fits buf (enc_item (summary_item s)) else ants_chain_epoch_summary_encode s buf)"
proof (cases "summary_ok ANTS_CHAIN_MAX_PATTERN_FINDINGS s")
  case True
  have "ANTS_CHAIN_MAX_PATTERN_FINDINGS < 2 ^ 64" by (simp add: chain_sizes)
  note wf = summary_item_wf [OF True this]
  have "cbor_document buf
      ([ants_cbor_enc_map 4, enc_kv_uint 1 (es_epoch s), enc_kv_uint 2 (es_cutoff_time s), enc_kv_bytes 3 (es_confirmed_proofs s),
        ants_cbor_enc_uint 4, ants_cbor_enc_array (length (es_findings s))] @ map enc_finding (es_findings s)) = fits buf (enc_item (summary_item s))"
    by (rule document_groups [OF conjunct1 [OF wf] conjunct2 [OF wf], where css = "[[CMap 4], [CUint 1, CUint (es_epoch s)],
        [CUint 2, CUint (es_cutoff_time s)], [CUint 3, CBytes (es_confirmed_proofs s)], [CUint 4], [CArray (length (es_findings s))]] @
        map finding_calls (es_findings s)"])
      (simp_all add: enc_kv_calls exec_single exec_finding summary_item_def finding_calls_item o_def)
  with True show ?thesis by (auto simp: ants_chain_epoch_summary_encode_def summary_ok_def finding_ok_def list_all_iff list_ex_iff)
qed simp

lemma summary_encode_max:
  assumes "summary_ok ANTS_CHAIN_MAX_PATTERN_FINDINGS s"
  shows "ants_chain_epoch_summary_encode s (replicate ANTS_CHAIN_EPOCH_SUMMARY_ENCODED_MAX 0) = Inr (enc_item (summary_item s))"
proof -
  have "length (enc_item (summary_item s)) \<le> ANTS_CHAIN_EPOCH_SUMMARY_ENCODED_MAX"
    using summary_size [OF assms] assms by (simp add: ants_chain_epoch_summary_bound_def chain_sizes summary_ok_def)
  with assms show ?thesis by (subst summary_encode) (simp add: fits_def chain_sizes)
qed

lemma block_item_wf:
  assumes "block_ok cap b" "cap \<le> ANTS_CHAIN_MAX_PATTERN_FINDINGS"
  shows "wf_item (block_item b) \<and> nests_within ANTS_CBOR_MAX_DEPTH (block_item b)"
proof -
  have "length (enc_item (summary_item (bk_summary b))) \<le> 80 + 256 * 96"
    using summary_size [of cap "bk_summary b"] assms by (simp add: block_ok_def summary_ok_def ants_chain_epoch_summary_bound_def chain_sizes)
  with assms show ?thesis by (simp add: block_item_def block_ok_def chain_sizes head_bytes_def ANTS_CBOR_MAX_DEPTH_def)
qed

lemma block_encode:
  assumes "block_ok ANTS_CHAIN_MAX_PATTERN_FINDINGS b"
  shows "ants_chain_block_encode b buf = fits buf (enc_item (block_item b))"
proof -
  note wf = block_item_wf [OF assms order_refl]
  have "summary_ok ANTS_CHAIN_MAX_PATTERN_FINDINGS (bk_summary b)" using assms by (simp add: block_ok_def)
  note s = summary_encode_max [OF this]
  show ?thesis
    unfolding ants_chain_block_encode_def s sum.case
    by (rule document_groups [OF conjunct1 [OF wf] conjunct2 [OF wf], where css = "[[CMap 4], [CUint 1, CUint (bk_height b)],
        [CUint 2, CBytes (bk_prev_block_hash b)], [CUint 3], [CBool (bk_degraded_seed b)], [CUint 4], [CBytes (enc_item (summary_item (bk_summary b)))]]"])
      (simp_all add: enc_kv_calls exec_single block_item_def)
qed

lemma block_size:
  assumes "block_ok ANTS_CHAIN_MAX_PATTERN_FINDINGS b"
  shows "length (enc_item (block_item b)) \<le> ants_chain_block_bound b"
proof -
  have hd: "length (head_bytes m v) \<le> 9" for m v by (simp add: head_bytes_length)
  have "summary_ok ANTS_CHAIN_MAX_PATTERN_FINDINGS (bk_summary b)" using assms by (simp add: block_ok_def)
  from summary_size [OF this] hd [of 0 "bk_height b"] hd [of 2 "of_nat (length (enc_item (summary_item (bk_summary b))))"] assms
  show ?thesis
    by (simp add: block_item_def block_ok_def ants_chain_block_bound_def chain_sizes
        head_bytes_length [of _ 1] head_bytes_length [of _ 2] head_bytes_length [of _ 3] head_bytes_length [of _ 4] head_bytes_length [of 2 32])
qed

section \<open>Decoding\<close>

lemma severity_back: "severity_valid x \<Longrightarrow> ucast (ucast x :: 32 word) = x"
  by (simp add: severity_valid_def chain_severities word_unat_eq_iff unat_ucast_up unsigned_ucast_eq unsigned_take_bit_eq take_bit_nat_eq_self_iff word_less_nat_alt)

lemma severity_widen: "ucast (ucast (q :: 32 word) :: u64) = q"
  using unsigned_less [of q, where 'a = nat]
  by (simp add: word_unat_eq_iff unsigned_ucast_eq unsigned_take_bit_eq take_bit_nat_eq_self_iff)

lemma parser_severity:
  "parser (then_read (decode_uint_field 5) (\<lambda>u. if \<not> severity_valid u then read_fail ANTS_ERROR_UNSUPPORTED_TYPE else read_ret (ucast u)))
    (\<lambda>s :: 32 word. severity_valid (ucast s)) (\<lambda>s. [CUint 5, CUint (ucast s)])"
  by (rule parser_cong [OF parser_check [OF parser_uint_field, where g = ucast]]) (simp_all add: severity_back severity_widen)

lemma parser_finding: "parser decode_finding finding_ok finding_calls"
proof (rule parser_cong)
  show "parser decode_finding
      (\<lambda>f. (length (pf_subject f) = ANTS_CHAIN_PEER_ID_SIZE \<and> (True \<and> (True \<and> (True \<and> (severity_valid (ucast (pf_severity f)) \<and> True))))) \<and> True)
      (\<lambda>f. [CMap 5] @ [CUint 1, CBytes (pf_subject f)] @ [CUint 2, CUint (pf_rule_id f)] @ [CUint 3, CUint (pf_window_s f)] @
        [CUint 4, CUint (pf_count f)] @ [CUint 5, CUint (ucast (pf_severity f))] @ [])"
    unfolding decode_finding_def
    by (rule parser_expect [OF parser_norm [OF dec_map.prs.parser_axioms] TrueI], rule parser_field [OF parser_bytes_field],
        rule parser_field [OF parser_uint_field], rule parser_field [OF parser_uint_field], rule parser_field [OF parser_uint_field],
        rule parser_field [OF parser_severity], rule parser_done) auto
qed (simp_all add: finding_ok_def finding_calls_def)

lemma parser_summary_head:
  "parser summary_head (\<lambda>(e, c, r, n). length r = ANTS_CHAIN_HASH_SIZE)
    (\<lambda>(e, c, r, n). [CMap 4, CUint 1, CUint e, CUint 2, CUint c, CUint 3, CBytes r, CUint 4, CArray n])"
proof (rule parser_cong)
  show "parser summary_head (\<lambda>x. (True \<and> (True \<and> (length (fst (snd (snd x))) = ANTS_CHAIN_HASH_SIZE \<and> (True \<and> (True \<and> True))))) \<and> True)
      (\<lambda>x. [CMap 4] @ [CUint 1, CUint (fst x)] @ [CUint 2, CUint (fst (snd x))] @ [CUint 3, CBytes (fst (snd (snd x)))] @ [CUint 4] @
        [CArray (snd (snd (snd x)))] @ [])"
    unfolding summary_head_def
    by (rule parser_expect [OF parser_norm [OF dec_map.prs.parser_axioms] TrueI], rule parser_field [OF parser_uint_field],
        rule parser_field [OF parser_uint_field], rule parser_field [OF parser_bytes_field],
        rule parser_field [OF parser_expect_key, where sel = "\<lambda>_. ()"],
        rule parser_field [OF parser_norm [OF dec_array.prs.parser_axioms]], rule parser_done) auto
qed auto

lemma parser_summary:
  "parser (summary_body cap) (summary_ok cap) (\<lambda>s. calls_of (summary_item s))"
proof (rule parser_cong)
  let ?hd = "\<lambda>s. (es_epoch s, es_cutoff_time s, es_confirmed_proofs s, length (es_findings s))"
  show "parser (summary_body cap)
      (\<lambda>s. (case ?hd s of (e, c, r, n) \<Rightarrow> length r = ANTS_CHAIN_HASH_SIZE) \<and> (length (es_findings s) \<le> cap \<and> list_all finding_ok (es_findings s)))
      (\<lambda>s. (case ?hd s of (e, c, r, n) \<Rightarrow> [CMap 4, CUint 1, CUint e, CUint 2, CUint c, CUint 3, CBytes r, CUint 4, CArray n]) @
        concat (map finding_calls (es_findings s)) @ [])"
    unfolding summary_body_def
  proof (rule parser_then [OF parser_summary_head, where sel = ?hd], clarify)
    fix e c :: u64 and r :: bytes and n :: nat
    show "parser (then_read (summary_findings cap n) (\<lambda>findings. read_ret \<lparr>es_epoch = e, es_cutoff_time = c, es_confirmed_proofs = r, es_findings = findings\<rparr>))
        (\<lambda>s. (length (es_findings s) \<le> cap \<and> list_all finding_ok (es_findings s)) \<and> ?hd s = (e, c, r, n))
        (\<lambda>s. concat (map finding_calls (es_findings s)) @ [])"
    proof (rule parser_cong)
      show "parser (then_read (summary_findings cap n) (\<lambda>findings. read_ret \<lparr>es_epoch = e, es_cutoff_time = c, es_confirmed_proofs = r, es_findings = findings\<rparr>))
          (\<lambda>s. ((length (es_findings s) = n \<and> list_all finding_ok (es_findings s) \<and> n \<le> cap) \<and> True) \<and> (es_epoch s = e \<and> es_cutoff_time s = c \<and> es_confirmed_proofs s = r))
          (\<lambda>s. concat (map finding_calls (es_findings s)) @ [])"
      proof (rule parser_field [where V = "\<lambda>fs. length fs = n \<and> list_all finding_ok fs \<and> n \<le> cap"])
        show "parser (summary_findings cap n) (\<lambda>fs. length fs = n \<and> list_all finding_ok fs \<and> n \<le> cap) (\<lambda>fs. concat (map finding_calls fs))"
          unfolding summary_findings_def
          by (rule parser_guard) (auto intro: parser_cong [OF parser_times [OF parser_finding]])
      qed (rule parser_done, auto)
    qed auto
  qed
qed (auto simp: summary_ok_def summary_item_def finding_calls_item o_def)

lemma summary_decode:
  assumes "cap < 2 ^ 64"
  shows "fst (ants_chain_epoch_summary_decode bs cap) = Inr s \<longleftrightarrow> summary_ok cap s \<and> bs = enc_item (summary_item s)"
proof -
  have "cbor_read_document (summary_body cap) bs = Inr s \<longleftrightarrow> summary_ok cap s \<and> bs = enc_item (summary_item s)"
    by (rule read_document_iff [OF parser_summary]) (use summary_item_wf assms in blast)
  moreover have "bs = [] \<Longrightarrow> bs \<noteq> enc_item (summary_item s)" using enc_item_nonempty by metis
  ultimately show ?thesis by (auto simp: ants_chain_epoch_summary_decode_def)
qed

definition head_item :: "u64 \<times> bytes \<times> bool \<times> bytes \<Rightarrow> item" where
  "head_item x = (case x of (h, p, d, sp) \<Rightarrow> MapI [(UInt 1, UInt h), (UInt 2, ByteStr p), (UInt 3, Boolean d), (UInt 4, ByteStr sp)])"

definition head_ok :: "u64 \<times> bytes \<times> bool \<times> bytes \<Rightarrow> bool" where
  "head_ok x \<longleftrightarrow> (case x of (h, p, d, sp) \<Rightarrow> length p = ANTS_CHAIN_HASH_SIZE \<and> length sp < 2 ^ 64)"

lemma parser_block_head: "parser block_head head_ok (\<lambda>x. calls_of (head_item x))"
proof (rule parser_cong [OF parser_calls_ok])
  show "parser block_head (\<lambda>x. (True \<and> (length (fst (snd x)) = ANTS_CHAIN_HASH_SIZE \<and> (True \<and> (True \<and> (True \<and> True))))) \<and> True)
      (\<lambda>x. [CMap 4] @ [CUint 1, CUint (fst x)] @ [CUint 2, CBytes (fst (snd x))] @ [CUint 3, CBool (fst (snd (snd x)))] @ [CUint 4] @
        [CBytes (snd (snd (snd x)))] @ [])"
    unfolding block_head_def
    by (rule parser_expect [OF parser_norm [OF dec_map.prs.parser_axioms] TrueI], rule parser_field [OF parser_uint_field],
        rule parser_field [OF parser_bytes_field], rule parser_field [OF parser_bool_field],
        rule parser_field [OF parser_expect_key, where sel = "\<lambda>_. ()"],
        rule parser_field [OF parser_norm [OF dec_bytes.prs.parser_axioms]], rule parser_done) auto
qed (auto simp: head_ok_def head_item_def call_ok_def chain_sizes)

lemma block_head_document: "cbor_read_document block_head bs = Inr x \<longleftrightarrow> head_ok x \<and> bs = enc_item (head_item x)"
  by (rule read_document_iff [OF parser_block_head])
    (auto simp: head_ok_def head_item_def chain_sizes head_bytes_def ANTS_CBOR_MAX_DEPTH_def)

lemma block_decode_split:
  "fst (ants_chain_block_decode bs cap) = Inr b \<longleftrightarrow>
    (\<exists>sp. cbor_read_document block_head bs = Inr (bk_height b, bk_prev_block_hash b, bk_degraded_seed b, sp) \<and> bs \<noteq> [] \<and>
      fst (ants_chain_epoch_summary_decode sp cap) = Inr (bk_summary b))"
  by (cases b) (auto simp: ants_chain_block_decode_def cbor_read_document_def Let_def split: prod.splits sum.splits if_splits)

lemma block_decode:
  assumes "cap \<le> ANTS_CHAIN_MAX_PATTERN_FINDINGS"
  shows "fst (ants_chain_block_decode bs cap) = Inr b \<longleftrightarrow> block_ok cap b \<and> bs = enc_item (block_item b)"
proof -
  have cap: "cap < 2 ^ 64" using assms by (simp add: chain_sizes)
  let ?sp = "enc_item (summary_item (bk_summary b))"
  have "summary_ok cap (bk_summary b) \<Longrightarrow> length ?sp \<le> 80 + 256 * 96"
    using summary_size [of cap "bk_summary b"] assms by (simp add: summary_ok_def ants_chain_epoch_summary_bound_def chain_sizes)
  then have "summary_ok cap (bk_summary b) \<Longrightarrow> length ?sp < 2 ^ 64" by simp
  moreover have "block_item b = head_item (bk_height b, bk_prev_block_hash b, bk_degraded_seed b, ?sp)" by (simp add: block_item_def head_item_def)
  moreover have "bs = enc_item y \<Longrightarrow> bs \<noteq> []" for y by simp
  ultimately show ?thesis
    unfolding block_decode_split block_head_document summary_decode [OF cap] block_ok_def head_ok_def by auto
qed

interpretation block_rec: record_codec "\<lambda>buf b. ants_chain_block_encode b buf" "\<lambda>bs. fst (ants_chain_block_decode bs ANTS_CHAIN_MAX_PATTERN_FINDINGS)"
  block_item "block_ok ANTS_CHAIN_MAX_PATTERN_FINDINGS"
  by unfold_locales (simp_all add: block_encode block_decode block_item_wf)

section \<open>The same block read by the fault-proof verifier\<close>

definition l2_of_finding :: "ants_chain_pattern_finding \<Rightarrow> l2_finding" where
  "l2_of_finding f = \<lparr>lf_subject = pf_subject f, lf_rule = pf_rule_id f, lf_window = pf_window_s f, lf_count = pf_count f, lf_severity = ucast (pf_severity f)\<rparr>"

lemma parser_l2_finding:
  "parser l2_finding_walk (\<lambda>f. length (lf_subject f) = ANTS_CRDT_PEER_ID_SIZE)
    (\<lambda>f. [CMap 5, CUint 1, CBytes (lf_subject f), CUint 2, CUint (lf_rule f), CUint 3, CUint (lf_window f), CUint 4, CUint (lf_count f), CUint 5, CUint (lf_severity f)])"
proof (rule parser_cong)
  have sz: "ANTS_CRDT_PEER_ID_SIZE < 2 ^ 64" by (simp add: crdt_sizes)
  show "parser l2_finding_walk
      (\<lambda>f. (length (lf_subject f) = ANTS_CRDT_PEER_ID_SIZE \<and> (True \<and> (True \<and> (True \<and> (True \<and> True))))) \<and> True)
      (\<lambda>f. CMap 5 # (CUint 1 # [CBytes (lf_subject f)]) @ (CUint 2 # [CUint (lf_rule f)]) @ (CUint 3 # [CUint (lf_window f)]) @
        (CUint 4 # [CUint (lf_count f)]) @ (CUint 5 # [CUint (lf_severity f)]) @ [])"
    unfolding l2_finding_walk_def
    by (rule parser_sized_map, rule parser_field [OF parser_keyed [OF parser_bytes_of_size [OF sz]]],
        rule parser_field [OF parser_keyed [OF parser_uint_val]], rule parser_field [OF parser_keyed [OF parser_uint_val]],
        rule parser_field [OF parser_keyed [OF parser_uint_val]], rule parser_field [OF parser_keyed [OF parser_uint_val]], rule parser_done) auto
qed auto

lemma parser_l2_summary:
  "parser l2_summary_walk (\<lambda>s. length (ls_confirmed s) = ANTS_CRDT_CONTENT_ID_SIZE \<and> list_all (\<lambda>f. length (lf_subject f) = ANTS_CRDT_PEER_ID_SIZE) (ls_findings s))
    (\<lambda>s. [CMap 4, CUint 1, CUint (ls_epoch s), CUint 2, CUint (ls_cutoff s), CUint 3, CBytes (ls_confirmed s), CUint 4, CArray (length (ls_findings s))] @
      concat (map (\<lambda>f. [CMap 5, CUint 1, CBytes (lf_subject f), CUint 2, CUint (lf_rule f), CUint 3, CUint (lf_window f), CUint 4, CUint (lf_count f),
        CUint 5, CUint (lf_severity f)]) (ls_findings s)))"
proof (rule parser_cong)
  have sz: "ANTS_CRDT_CONTENT_ID_SIZE < 2 ^ 64" by (simp add: crdt_sizes)
  show "parser l2_summary_walk
      (\<lambda>s. (True \<and> (True \<and> (length (ls_confirmed s) = ANTS_CRDT_CONTENT_ID_SIZE \<and>
        (list_all (\<lambda>f. length (lf_subject f) = ANTS_CRDT_PEER_ID_SIZE) (ls_findings s) \<and> True)))) \<and> True)
      (\<lambda>s. CMap 4 # (CUint 1 # [CUint (ls_epoch s)]) @ (CUint 2 # [CUint (ls_cutoff s)]) @ (CUint 3 # [CBytes (ls_confirmed s)]) @
        (CUint 4 # CArray (length (ls_findings s)) # concat (map (\<lambda>f. [CMap 5, CUint 1, CBytes (lf_subject f), CUint 2, CUint (lf_rule f), CUint 3,
          CUint (lf_window f), CUint 4, CUint (lf_count f), CUint 5, CUint (lf_severity f)]) (ls_findings s))) @ [])"
    unfolding l2_summary_walk_def
    by (rule parser_sized_map, rule parser_field [OF parser_keyed [OF parser_uint_val]], rule parser_field [OF parser_keyed [OF parser_uint_val]],
        rule parser_field [OF parser_keyed [OF parser_bytes_of_size [OF sz]]],
        rule parser_field [OF parser_keyed [OF parser_array [OF parser_mal [OF dec_array.prs.parser_axioms] parser_l2_finding]]], rule parser_done) auto
qed auto

lemma parser_l2_block:
  "parser l2_block_walk (\<lambda>b. length (lb_prev b) = ANTS_CRDT_CONTENT_ID_SIZE \<and> length (lb_summary b) < 2 ^ 64)
    (\<lambda>b. calls_of (head_item (lb_height b, lb_prev b, lb_degraded b, lb_summary b)))"
proof (rule parser_cong)
  have sz: "ANTS_CRDT_CONTENT_ID_SIZE < 2 ^ 64" by (simp add: crdt_sizes)
  show "parser l2_block_walk
      (\<lambda>b. (True \<and> (length (lb_prev b) = ANTS_CRDT_CONTENT_ID_SIZE \<and> (True \<and> (length (lb_summary b) < 2 ^ 64 \<and> True)))) \<and> True)
      (\<lambda>b. CMap 4 # (CUint 1 # [CUint (lb_height b)]) @ (CUint 2 # [CBytes (lb_prev b)]) @ (CUint 3 # [CBool (lb_degraded b)]) @
        (CUint 4 # [CBytes (lb_summary b)]) @ [])"
    unfolding l2_block_walk_def
    by (rule parser_sized_map, rule parser_field [OF parser_keyed [OF parser_uint_val]],
        rule parser_field [OF parser_keyed [OF parser_bytes_of_size [OF sz]]],
        rule parser_field [OF parser_keyed [OF parser_mal [OF dec_bool.prs.parser_axioms]]],
        rule parser_field [OF parser_keyed [OF parser_bytes_val]], rule parser_done) auto
qed (auto simp: head_item_def)

definition l2_finding_item :: "l2_finding \<Rightarrow> item" where
  "l2_finding_item f = MapI [(UInt 1, ByteStr (lf_subject f)), (UInt 2, UInt (lf_rule f)), (UInt 3, UInt (lf_window f)),
    (UInt 4, UInt (lf_count f)), (UInt 5, UInt (lf_severity f))]"

lemma l2_finding_calls: "calls_of (l2_finding_item f) =
  [CMap 5, CUint 1, CBytes (lf_subject f), CUint 2, CUint (lf_rule f), CUint 3, CUint (lf_window f), CUint 4, CUint (lf_count f), CUint 5, CUint (lf_severity f)]"
  by (simp add: l2_finding_item_def)

definition l2_summary_item :: "l2_summary \<Rightarrow> item" where
  "l2_summary_item s = MapI [(UInt 1, UInt (ls_epoch s)), (UInt 2, UInt (ls_cutoff s)), (UInt 3, ByteStr (ls_confirmed s)),
    (UInt 4, Arr (map l2_finding_item (ls_findings s)))]"

definition l2_summary_ok :: "l2_summary \<Rightarrow> bool" where
  "l2_summary_ok s \<longleftrightarrow> length (ls_confirmed s) = ANTS_CRDT_CONTENT_ID_SIZE \<and> length (ls_findings s) < 2 ^ 64 \<and>
    list_all (\<lambda>f. length (lf_subject f) = ANTS_CRDT_PEER_ID_SIZE) (ls_findings s)"

lemma l2_summary_document: "mal_document l2_summary_walk bs = Inr s \<longleftrightarrow> l2_summary_ok s \<and> bs = enc_item (l2_summary_item s)"
proof (rule mal_document_iff)
  show "parser l2_summary_walk l2_summary_ok (\<lambda>s. calls_of (l2_summary_item s))"
    by (rule parser_cong [OF parser_calls_ok [OF parser_l2_summary]])
      (auto simp: l2_summary_ok_def l2_summary_item_def l2_finding_calls call_ok_def crdt_sizes list_all_iff o_def)
next
  fix s
  assume ok: "l2_summary_ok s"
  have "wf_item (l2_summary_item s) \<and> nests_within ANTS_CBOR_MAX_DEPTH (l2_summary_item s)"
    using ok by (auto simp: l2_summary_ok_def l2_summary_item_def l2_finding_item_def list_all_iff crdt_sizes head_bytes_def ANTS_CBOR_MAX_DEPTH_def)
  then show "calls_of (l2_summary_item s) = calls_of (l2_summary_item s) \<and> wf_item (l2_summary_item s) \<and> nests_within ANTS_CBOR_MAX_DEPTH (l2_summary_item s)"
    by blast
qed

lemma l2_block_document:
  "mal_document l2_block_walk bs = Inr b \<longleftrightarrow> (length (lb_prev b) = ANTS_CRDT_CONTENT_ID_SIZE \<and> length (lb_summary b) < 2 ^ 64) \<and>
    bs = enc_item (head_item (lb_height b, lb_prev b, lb_degraded b, lb_summary b))"
  by (rule mal_document_iff [OF parser_l2_block]) (auto simp: head_item_def crdt_sizes head_bytes_def ANTS_CBOR_MAX_DEPTH_def)

lemma l2_reads_block:
  assumes "block_ok ANTS_CHAIN_MAX_PATTERN_FINDINGS b"
  shows "parse_block_summary (enc_item (block_item b)) = Inr (es_epoch (bk_summary b), es_confirmed_proofs (bk_summary b))"
proof -
  let ?s = "bk_summary b" and ?sp = "enc_item (summary_item (bk_summary b))"
  let ?ls = "\<lparr>ls_epoch = es_epoch ?s, ls_cutoff = es_cutoff_time ?s, ls_confirmed = es_confirmed_proofs ?s, ls_findings = map l2_of_finding (es_findings ?s)\<rparr>"
  let ?lb = "\<lparr>lb_height = bk_height b, lb_prev = bk_prev_block_hash b, lb_degraded = bk_degraded_seed b, lb_summary = ?sp\<rparr>"
  have s: "summary_ok ANTS_CHAIN_MAX_PATTERN_FINDINGS ?s" using assms by (simp add: block_ok_def)
  have wf: "wf_item (summary_item ?s) \<and> nests_within ANTS_CBOR_MAX_DEPTH (summary_item ?s)" using summary_item_wf [OF s] by (simp add: chain_sizes)
  have size: "length ?sp < 2 ^ 64"
    using summary_size [OF s] s by (simp add: summary_ok_def ants_chain_epoch_summary_bound_def chain_sizes)
  have item: "block_item b = head_item (bk_height b, bk_prev_block_hash b, bk_degraded_seed b, ?sp)" by (simp add: block_item_def head_item_def)
  have "mal_document l2_block_walk (enc_item (block_item b)) = Inr ?lb"
    unfolding l2_block_document using assms size item by (simp add: block_ok_def chain_sizes crdt_sizes)
  moreover have "l2_summary_item ?ls = summary_item ?s"
    by (simp add: l2_summary_item_def l2_finding_item_def summary_item_def finding_item_def l2_of_finding_def o_def)
  then have "mal_document l2_summary_walk ?sp = Inr ?ls"
    unfolding l2_summary_document using s by (simp add: l2_summary_ok_def summary_ok_def finding_ok_def l2_of_finding_def list_all_iff chain_sizes crdt_sizes)
  moreover have "ants_cbor_is_canonical (enc_item (block_item b)) = ANTS_OK" "ants_cbor_is_canonical ?sp = ANTS_OK"
    using block_item_wf [OF assms order_refl] wf is_canonical_iff by blast+
  ultimately show ?thesis by (simp add: parse_block_summary_def)
qed

section \<open>Properties\<close>

text \<open>C31. Blocks round trip: a byte string decodes to a block exactly when the block is valid and
  encodes to that byte string.\<close>

theorem chain_block_round_trip:
  "fst (ants_chain_block_decode bs ANTS_CHAIN_MAX_PATTERN_FINDINGS) = Inr b \<longleftrightarrow>
    block_ok ANTS_CHAIN_MAX_PATTERN_FINDINGS b \<and> ants_chain_block_encode b bs = Inr bs"
  using block_rec.codec by blast

text \<open>The advertised bounds suffice: a valid block is encoded into a buffer of the size that
  \<^verbatim>\<open>ants_chain_block_bound\<close> returns, and hashing it never runs out of its fixed buffers.\<close>

theorem chain_block_bound_enough:
  assumes "block_ok ANTS_CHAIN_MAX_PATTERN_FINDINGS b" "length buf = ants_chain_block_bound b"
  shows "\<exists>bs. ants_chain_block_encode b buf = Inr bs \<and> ants_chain_block_hash H b = Inr (H bs)"
proof -
  have "ants_chain_block_bound b \<le> ANTS_CHAIN_BLOCK_ENCODED_MAX" "0 < ants_chain_block_bound b"
    using assms(1) by (simp_all add: ants_chain_block_bound_def ants_chain_epoch_summary_bound_def chain_sizes block_ok_def summary_ok_def)
  with block_size [OF assms(1)] assms show ?thesis
    by (simp add: block_encode ants_chain_block_hash_def fits_def)
qed

text \<open>A block frame whose summary is the empty byte string is reported as a bad argument of the call,
  not as a malformed frame.\<close>

lemma block_empty_summary:
  assumes "length p = ANTS_CHAIN_HASH_SIZE"
  shows "ants_chain_block_decode (enc_item (head_item (h, p, d, []))) cap = (Inl ANTS_ERROR_INVALID_ARG, None)"
proof -
  let ?bs = "enc_item (head_item (h, p, d, []))"
  have "cbor_read_document block_head ?bs = Inr (h, p, d, [])" unfolding block_head_document using assms by (simp add: head_ok_def)
  then obtain dec where "block_head (ants_cbor_dec_init ?bs) = (Inr (h, p, d, []), dec)" by (auto simp: read_document_run)
  then show ?thesis by (simp add: ants_chain_block_decode_def ants_chain_epoch_summary_decode_def)
qed

section \<open>Witnesses\<close>

definition sample_block :: ants_chain_block where
  "sample_block = \<lparr>bk_height = 7, bk_prev_block_hash = replicate 32 1, bk_degraded_seed = True,
    bk_summary = \<lparr>es_epoch = 2, es_cutoff_time = 1000, es_confirmed_proofs = replicate 32 2, es_findings =
      [\<lparr>pf_subject = replicate 32 3, pf_rule_id = 1, pf_window_s = 2592000, pf_count = 6, pf_severity = ANTS_CHAIN_SEVERITY_HARD\<rparr>]\<rparr>\<rparr>"

theorem chain_block_bound_enough_witness:
  "\<exists>bs. ants_chain_block_encode sample_block (replicate (ants_chain_block_bound sample_block) 0) = Inr bs \<and>
    ants_chain_block_hash ends_hash sample_block = Inr (ends_hash bs)"
  by (rule chain_block_bound_enough)
    (simp_all add: sample_block_def block_ok_def summary_ok_def finding_ok_def severity_valid_def chain_severities chain_sizes)

end
