(* ===== verification/Chain_Fault.thy ===== *)
theory Chain_Fault
  imports Chain_Block
begin

text \<open>
  The chain and the fault-proof verifier together. \<^verbatim>\<open>reputation/crdt\<close> keeps its own copy of the
  Merkle path check and of the block reader, so that a verdict needs nothing but bytes; here
  they are shown to agree with \<^verbatim>\<open>reputation/chain\<close>, and a committee member who signs a block
  that commits bytes which are no fault proof is shown to be provably at fault.
\<close>

section \<open>The two Merkle checks agree\<close>

lemma cp_hashes: "cp_leaf_hash = leaf_hash" "cp_node_hash = node_hash"
  by (simp_all add: fun_eq_iff cp_leaf_hash_def leaf_hash_def cp_node_hash_def node_hash_def CP_MERKLE_LEAF_PREFIX_def
      CP_MERKLE_NODE_PREFIX_def CHAIN_MERKLE_LEAF_PREFIX_def CHAIN_MERKLE_NODE_PREFIX_def)

lemma word_steps:
  fixes idx count :: u64
  assumes "unat count < 2 ^ 63" "idx < count"
  shows "count > 1 \<longleftrightarrow> unat count > 1" "idx AND 1 = 1 \<longleftrightarrow> unat idx mod 2 = 1" "idx + 1 < count \<longleftrightarrow> unat idx + 1 < unat count"
    "unat (idx div 2) = unat idx div 2" "unat ((count + 1) div 2) = (unat count + 1) div 2"
proof -
  have i: "unat idx < unat count" using assms(2) by (simp add: word_less_nat_alt)
  have s: "unat (idx + 1) = unat idx + 1" "unat (count + 1) = unat count + 1"
    using i assms(1) by (simp_all add: unat_word_ariths)
  show "count > 1 \<longleftrightarrow> unat count > 1" by (simp add: word_less_nat_alt)
  show "idx AND 1 = 1 \<longleftrightarrow> unat idx mod 2 = 1" by (simp add: and_one_eq word_unat_eq_iff unat_mod)
  show "idx + 1 < count \<longleftrightarrow> unat idx + 1 < unat count" using s(1) by (simp add: word_less_nat_alt)
  show "unat (idx div 2) = unat idx div 2" by (simp add: unat_div)
  show "unat ((count + 1) div 2) = (unat count + 1) div 2" using s(2) by (simp add: unat_div)
qed

lemma halves_less:
  fixes idx count :: u64
  assumes "unat count < 2 ^ 63" "idx < count" "count > 1"
  shows "unat ((count + 1) div 2) < 2 ^ 63" "idx div 2 < (count + 1) div 2"
  using word_steps [OF assms(1,2)] assms by (simp_all add: word_less_nat_alt)

lemma cp_path_len_eq: "unat count < 2 ^ 63 \<Longrightarrow> idx < count \<Longrightarrow> cp_path_len idx count = path_len (unat idx) (unat count)"
proof (induction idx count rule: cp_path_len.induct)
  case (1 idx count)
  note st = word_steps [OF "1.prems"]
  show ?case
  proof (cases "count > 1")
    case True
    then show ?thesis
      using "1.IH" [OF True halves_less [OF "1.prems" True]] st by (subst cp_path_len.simps, subst path_len.simps) simp
  next
    case False
    then show ?thesis using st(1) by (subst cp_path_len.simps, subst path_len.simps) simp
  qed
qed

lemma cp_fold_eq:
  "unat count < 2 ^ 63 \<Longrightarrow> idx < count \<Longrightarrow> rest = drop (consumed * ANTS_CHAIN_HASH_SIZE) path \<Longrightarrow>
    cp_fold_loop H cur rest idx count = fst (climb ANTS_CHAIN_HASH_SIZE (node_hash H) path cur consumed (unat idx) (unat count))"
proof (induction H cur rest idx count arbitrary: consumed rule: cp_fold_loop.induct)
  case (1 H cur rest idx count)
  note st = word_steps [OF "1.prems"(1,2)]
  have sz: "ANTS_CRDT_CONTENT_ID_SIZE = ANTS_CHAIN_HASH_SIZE" by (simp add: crdt_sizes chain_sizes)
  show ?case
  proof (cases "count > 1")
    case True
    note h = halves_less [OF "1.prems"(1,2) True]
    have nx: "drop ANTS_CHAIN_HASH_SIZE rest = drop ((consumed + 1) * ANTS_CHAIN_HASH_SIZE) path" using "1.prems"(3) by (simp add: algebra_simps)
    show ?thesis
      using "1.IH"(1) [OF True refl refl _ h, of "consumed + 1"] "1.IH"(2) [OF True refl refl _ _ h, of "consumed + 1"]
        "1.IH"(3) [OF True refl refl _ _ h "1.prems"(3)] "1.prems"(3) nx True st
      by (subst cp_fold_loop.simps, subst climb.simps) (simp add: Let_def cp_hashes sz)
  next
    case False
    then show ?thesis using st(1) by (subst cp_fold_loop.simps, subst climb.simps) simp
  qed
qed

section \<open>Signing a fabricated block\<close>

lemma path_len_le: "path_len idx count \<le> count"
proof (induction idx count rule: path_len.induct)
  case (1 idx count)
  then show ?case by (subst path_len.simps) auto
qed

lemma it_encode:
  assumes "length subject = ANTS_CRDT_PEER_ID_SIZE" "it_ok ev" "ie_block ev \<noteq> []" "ie_cited ev \<noteq> []" "ie_leaf_index ev < ie_n_leaves ev"
  shows "ants_crdt_invalid_transition_encode subject e (ie_block ev) (ie_sig ev) (ie_cited ev) (ie_leaf_index ev) (ie_n_leaves ev) (ie_path ev) buf =
    fits buf (enc_item (env_item subject ANTS_FAULT_INVALID_TRANSITION e (it_item ev)))"
proof -
  have wf: "wf_item (env_item subject ANTS_FAULT_INVALID_TRANSITION e (it_item ev)) \<and> nests_within ANTS_CBOR_MAX_DEPTH (env_item subject ANTS_FAULT_INVALID_TRANSITION e (it_item ev))"
    using assms(1,2) by (simp add: env_item_def it_item_def it_ok_def crdt_sizes fault_types head_bytes_def ANTS_CBOR_MAX_DEPTH_def)
  have "cbor_document buf [ants_cbor_enc_map 4, ants_cbor_enc_uint 0, ants_cbor_enc_bytes subject,
      ants_cbor_enc_uint 1, ants_cbor_enc_uint ANTS_FAULT_INVALID_TRANSITION, ants_cbor_enc_uint 2, ants_cbor_enc_uint e,
      ants_cbor_enc_uint 3, ants_cbor_enc_array 6, ants_cbor_enc_bytes (ie_block ev), ants_cbor_enc_bytes (ie_sig ev), ants_cbor_enc_bytes (ie_cited ev),
      ants_cbor_enc_uint (ie_leaf_index ev), ants_cbor_enc_uint (ie_n_leaves ev), ants_cbor_enc_bytes (ie_path ev)] =
      fits buf (enc_item (env_item subject ANTS_FAULT_INVALID_TRANSITION e (it_item ev)))"
    by (rule document_item [OF conjunct1 [OF wf] conjunct2 [OF wf]]) (simp add: env_item_calls env_calls_def it_item_def numeral_eq_Suc)
  moreover have "ie_n_leaves ev \<noteq> 0" using assms(5) by auto
  moreover have "\<not> ie_n_leaves ev \<le> ie_leaf_index ev" using assms(5) by (simp only: not_le)
  ultimately show ?thesis using assms(3,4) by (simp add: ants_crdt_invalid_transition_encode_def)
qed

lemma chain_path_commits:
  assumes "\<forall>x. length (H x) = ANTS_CHAIN_HASH_SIZE" "ants_chain_confirmed_root H ids = Inr root" "index < length ids"
    and "ants_chain_confirmed_prove H ids index cap = (Inr path, n)"
  shows "length ids \<le> 2 ^ 32" "length path = cp_path_len (of_nat index) (of_nat (length ids)) * ANTS_CRDT_CONTENT_ID_SIZE"
    "cp_fold_to_root H (ids ! index) (of_nat index) (of_nat (length ids)) path = root"
proof -
  have "ids \<noteq> []" using assms(3) by auto
  with assms(2) show n: "length ids \<le> 2 ^ 32"
    using confirmed_root_eq [of H ids] by (auto simp: ANTS_CHAIN_MERKLE_MAX_DEPTH_def split: if_splits)
  have root: "root = level_root (node_hash H) (map (leaf_hash H) ids)"
    using assms(2) confirmed_root_eq [of H ids] \<open>ids \<noteq> []\<close> by (auto split: if_splits)
  have u: "unat (of_nat index :: u64) = index" "unat (of_nat (length ids) :: u64) = length ids"
    using n assms(3) by (simp_all add: unsigned_of_nat take_bit_nat_eq_self_iff)
  then have w: "unat (of_nat (length ids) :: u64) < 2 ^ 63" "(of_nat index :: u64) < of_nat (length ids)"
    using n assms(3) by (simp_all add: word_less_nat_alt)
  have "path = concat (siblings (node_hash H) (map (leaf_hash H) ids) index)"
    using assms(4) prove_siblings [OF assms(3), of H] by (auto simp: ants_chain_confirmed_prove_def Let_def split: if_splits)
  note p = prove_path [OF assms(1,3), folded this]
  show "length path = cp_path_len (of_nat index) (of_nat (length ids)) * ANTS_CRDT_CONTENT_ID_SIZE"
    using p(1) by (simp add: cp_path_len_eq [OF w] u merkle_path_len_def chain_sizes crdt_sizes)
  show "cp_fold_to_root H (ids ! index) (of_nat index) (of_nat (length ids)) path = root"
    using p(2) cp_fold_eq [OF w, of path 0 path H "leaf_hash H (ids ! index)"] by (simp add: cp_fold_to_root_def cp_hashes u root)
qed

section \<open>Properties\<close>

text \<open>C32. The committee cannot fabricate: when a member signs a block whose confirmed root commits,
  at some position, the content address of bytes that are no fault proof, the evidence that
  anyone assembles with the chain's prover and the client's encoder convicts the member.\<close>

theorem chain_fabrication_convicts:
  assumes "\<forall>x. length (H x) = ANTS_CHAIN_HASH_SIZE" "block_ok ANTS_CHAIN_MAX_PATTERN_FINDINGS b" "ants_chain_block_encode b buf = Inr blk"
    and "ants_chain_confirmed_root H ids = Inr (es_confirmed_proofs (bk_summary b))" "index < length ids" "ids ! index = H cited"
    and "cited \<noteq> []" "length cited < 2 ^ 64" "refuted H sig_ok cited"
    and "length subject = ANTS_CRDT_PEER_ID_SIZE" "length sig = ANTS_CRDT_SIG_SIZE" "sig_ok subject (H blk) sig"
    and "ants_chain_confirmed_prove H ids index cap = (Inr path, n)"
    and "ants_crdt_invalid_transition_encode subject (es_epoch (bk_summary b)) blk sig cited (of_nat index) (of_nat (length ids)) path buf' = Inr bs"
  shows "ants_crdt_verify H sig_ok bs = ANTS_OK"
proof -
  let ?e = "es_epoch (bk_summary b)"
  define ev where "ev = \<lparr>ie_block = blk, ie_sig = sig, ie_cited = cited, ie_leaf_index = of_nat index, ie_n_leaves = of_nat (length ids), ie_path = path\<rparr>"
  have blk: "blk = enc_item (block_item b)" using assms(2,3) by (auto simp: block_encode fits_def split: if_splits)
  note pc = chain_path_commits [OF assms(1,4,5,13)]
  have u: "unat (of_nat index :: u64) = index" "unat (of_nat (length ids) :: u64) = length ids"
    using pc(1) assms(5) by (simp_all add: unsigned_of_nat take_bit_nat_eq_self_iff)
  have lt: "ie_leaf_index ev < ie_n_leaves ev" using u assms(5) by (simp add: ev_def word_less_nat_alt)
  have "cp_path_len (of_nat index) (of_nat (length ids)) \<le> length ids"
    using cp_path_len_eq [of "of_nat (length ids)" "of_nat index"] path_len_le [of index "length ids"] u pc(1) lt by (simp add: ev_def)
  then have "length path < 2 ^ 64" using pc(1,2) by (simp add: crdt_sizes)
  moreover have "length blk < 2 ^ 64"
    using block_size [OF assms(2)] assms(2) by (simp add: blk ants_chain_block_bound_def ants_chain_epoch_summary_bound_def block_ok_def summary_ok_def chain_sizes)
  ultimately have ok: "it_ok ev" using assms(8,11) by (simp add: it_ok_def ev_def crdt_sizes)
  have "attested H sig_ok subject ?e ev"
    using lt pc u assms(6,7,11,12) l2_reads_block [OF assms(2)]
    by (simp add: attested_def commits_def ev_def blk CP_MERKLE_MAX_DEPTH_def)
  moreover have "bs = enc_item (env_item subject ANTS_FAULT_INVALID_TRANSITION ?e (it_item ev))"
    using it_encode [OF assms(10) ok _ _ lt, of ?e buf'] assms(7,14) by (auto simp: ev_def blk fits_def split: if_splits)
  moreover have "refuted H sig_ok (ie_cited ev)" using assms(9) by (simp add: ev_def)
  ultimately have "is_invalid_transition bs \<and> ants_crdt_verify H sig_ok bs = ANTS_OK"
    unfolding verify_invalid_transition_proved using assms(10) ok by blast
  then show ?thesis by blast
qed

section \<open>Witnesses\<close>

text \<open>A block that commits the address of the byte string \<^verbatim>\<open>ff\<close>, which is no CBOR document.\<close>

definition fabricated_block :: ants_chain_block where
  "fabricated_block = \<lparr>bk_height = 1, bk_prev_block_hash = replicate 32 0, bk_degraded_seed = False,
    bk_summary = \<lparr>es_epoch = 2, es_cutoff_time = 3, es_confirmed_proofs = leaf_hash ends_hash (ends_hash [0xff]), es_findings = []\<rparr>\<rparr>"

definition fabricated_evidence :: it_evidence where
  "fabricated_evidence = \<lparr>ie_block = enc_item (block_item fabricated_block), ie_sig = replicate 64 0, ie_cited = [0xff],
    ie_leaf_index = 0, ie_n_leaves = 1, ie_path = []\<rparr>"

lemma fabricated_ok: "block_ok ANTS_CHAIN_MAX_PATTERN_FINDINGS fabricated_block"
  using ends_hash_length by (simp add: block_ok_def summary_ok_def fabricated_block_def chain_sizes leaf_hash_def)

lemma ff_refuted: "refuted H sig_ok [0xff]"
proof -
  have "ants_cbor_is_canonical [0xff] \<noteq> ANTS_OK" by code_simp
  then show ?thesis by (simp add: refuted_def ants_crdt_fault_proof_decode_def)
qed

theorem chain_fabrication_convicts_witness:
  "\<exists>bs. ants_crdt_invalid_transition_encode (replicate 32 1) 2 (enc_item (block_item fabricated_block)) (replicate 64 0) [0xff] 0 1 [] bs = Inr bs \<and>
    ants_crdt_verify ends_hash sample_signer bs = ANTS_OK"
proof -
  let ?ids = "[ends_hash [0xff]]" and ?blk = "enc_item (block_item fabricated_block)"
  let ?bs = "enc_item (env_item (replicate 32 1) ANTS_FAULT_INVALID_TRANSITION 2 (it_item fabricated_evidence))"
  have blk: "ants_chain_block_encode fabricated_block ?blk = Inr ?blk" by (simp add: block_encode [OF fabricated_ok] fits_def)
  have root: "ants_chain_confirmed_root ends_hash ?ids = Inr (es_confirmed_proofs (bk_summary fabricated_block))"
    by (simp add: confirmed_root_eq fabricated_block_def ANTS_CHAIN_MERKLE_MAX_DEPTH_def)
  have prove: "ants_chain_confirmed_prove ends_hash ?ids 0 0 = (Inr [], Some 0)"
    by (simp add: ants_chain_confirmed_prove_def n_leaves_in_range_def ANTS_CHAIN_MERKLE_MAX_DEPTH_def merkle_path_len_def path_len.simps [of _ "Suc 0"]
        prove_loop.simps [of _ _ _ _ "Suc 0"] push_bit_eq_mult)
  have size: "length ?blk < 2 ^ 64"
    using block_size [OF fabricated_ok] by (simp add: ants_chain_block_bound_def ants_chain_epoch_summary_bound_def fabricated_block_def)
  have ev: "it_ok fabricated_evidence" using size by (simp add: it_ok_def fabricated_evidence_def)
  have enc: "ants_crdt_invalid_transition_encode (replicate 32 1) 2 ?blk (replicate 64 0) [0xff] 0 1 [] ?bs = Inr ?bs"
    using it_encode [of "replicate 32 1" fabricated_evidence 2 ?bs] ev by (simp add: fabricated_evidence_def crdt_sizes fits_def)
  have "ants_crdt_verify ends_hash sample_signer ?bs = ANTS_OK"
    by (rule chain_fabrication_convicts [OF ends_hash_length fabricated_ok blk root _ _ _ _ ff_refuted _ _ _ prove, of "replicate 32 1" "replicate 64 0"])
      (use enc in \<open>simp_all add: crdt_sizes sample_signer_def fabricated_block_def\<close>)
  with enc show ?thesis by blast
qed

end
