(* ===== verification/Insertion.thy ===== *)
theory Insertion
  imports Main "HOL-Library.Multiset"
begin

text \<open>
  The in-place insertion sort that \<^verbatim>\<open>chain.c\<close> uses to put findings and committees into their
  canonical order: each element is shifted down the array while its left neighbour is
  greater. The comparison is a parameter; the locale \<open>shift_order\<close> states what it must satisfy
  on the elements that are sorted.
\<close>

fun shift_in :: "('a \<Rightarrow> 'a \<Rightarrow> bool) \<Rightarrow> 'a \<Rightarrow> nat \<Rightarrow> 'a list \<Rightarrow> 'a list" where
  "shift_in gt key 0 a = a[0 := key]"
| "shift_in gt key (Suc j) a = (if gt (a ! j) key then shift_in gt key j (a[Suc j := a ! j]) else a[Suc j := key])"

definition insertion_sort :: "('a \<Rightarrow> 'a \<Rightarrow> bool) \<Rightarrow> 'a list \<Rightarrow> 'a list" where
  "insertion_sort gt a = fold (\<lambda>i a. shift_in gt (a ! i) i a) [1..<length a] a"

text \<open>Shifting works on the prefix alone, where it inserts the key.\<close>

fun insert_right :: "('a \<Rightarrow> 'a \<Rightarrow> bool) \<Rightarrow> 'a \<Rightarrow> 'a list \<Rightarrow> 'a list" where
  "insert_right gt key [] = [key]"
| "insert_right gt key (x # xs) = (if gt x key then x # insert_right gt key xs else key # x # xs)"

lemma shift_in_insert:
  assumes "length xs = j"
  shows "shift_in gt key j (rev xs @ y # ys) = rev (insert_right gt key xs) @ ys"
  using assms
proof (induction xs arbitrary: j y ys)
  case (Cons x xs)
  have len: "length (rev xs) = length xs" by simp
  have upd: "(rev (x # xs) @ y # ys)[Suc (length xs) := z] = rev xs @ x # z # ys" for z
    using list_update_length [of "rev xs @ [x]" y ys z] by simp
  have nth: "(rev (x # xs) @ y # ys) ! length xs = x"
    using nth_append_length [of "rev xs" x "y # ys"] by simp
  show ?case using Cons.IH [of "length xs" x "x # ys"] Cons.prems upd nth by auto
qed simp

definition sort_prefix :: "('a \<Rightarrow> 'a \<Rightarrow> bool) \<Rightarrow> 'a list \<Rightarrow> 'a list" where
  "sort_prefix gt xs = fold (insert_right gt) xs []"

lemma length_insert_right [simp]: "length (insert_right gt key xs) = Suc (length xs)"
  by (induction xs) simp_all

lemma length_sort_prefix [simp]: "length (sort_prefix gt xs) = length xs"
proof -
  have "length (fold (insert_right gt) xs acc) = length acc + length xs" for acc by (induction xs arbitrary: acc) simp_all
  then show ?thesis by (simp add: sort_prefix_def)
qed

lemma insertion_rounds:
  assumes "1 \<le> n" "n \<le> length a"
  shows "fold (\<lambda>i a. shift_in gt (a ! i) i a) [1..<n] a = rev (sort_prefix gt (take n a)) @ drop n a"
  using assms
proof (induction n rule: dec_induct)
  case base
  then show ?case by (cases a) (simp_all add: sort_prefix_def)
next
  case (step n)
  let ?p = "sort_prefix gt (take n a)"
  have n: "n < length a" using step.prems by simp
  then have drop: "drop n a = a ! n # drop (Suc n) a" by (simp add: Cons_nth_drop_Suc)
  have len: "length ?p = n" using n by simp
  have nth: "(rev ?p @ a ! n # drop (Suc n) a) ! n = a ! n" using nth_append_length [of "rev ?p"] len by simp
  have "fold (\<lambda>i a. shift_in gt (a ! i) i a) [1..<Suc n] a = rev (insert_right gt (a ! n) ?p) @ drop (Suc n) a"
    using step n drop shift_in_insert [OF len, of gt "a ! n" "a ! n"] nth by simp
  then show ?case using n by (simp add: sort_prefix_def take_Suc_conv_app_nth)
qed

lemma insertion_sort_prefix: "insertion_sort gt a = rev (sort_prefix gt a)"
  using insertion_rounds [of "length a" a gt] by (cases a) (simp_all add: insertion_sort_def sort_prefix_def)

lemma mset_insert_right: "mset (insert_right gt key xs) = add_mset key (mset xs)"
  by (induction xs) auto

lemma mset_insertion_sort [simp]: "mset (insertion_sort gt xs) = mset xs"
proof -
  have "mset (fold (insert_right gt) xs acc) = mset acc + mset xs" for acc
    by (induction xs arbitrary: acc) (simp_all add: mset_insert_right)
  then show ?thesis by (simp add: insertion_sort_prefix sort_prefix_def)
qed

lemma set_insertion_sort [simp]: "set (insertion_sort gt xs) = set xs"
  by (rule mset_eq_setD [OF mset_insertion_sort])

lemma length_insertion_sort [simp]: "length (insertion_sort gt xs) = length xs"
  by (rule mset_eq_length [OF mset_insertion_sort])

text \<open>What a comparison must satisfy on the elements in question.\<close>

locale shift_order =
  fixes gt :: "'a \<Rightarrow> 'a \<Rightarrow> bool" and elems :: "'a set"
  assumes gt_asym: "x \<in> elems \<Longrightarrow> y \<in> elems \<Longrightarrow> gt x y \<Longrightarrow> \<not> gt y x"
    and le_trans: "x \<in> elems \<Longrightarrow> y \<in> elems \<Longrightarrow> z \<in> elems \<Longrightarrow> \<not> gt x y \<Longrightarrow> \<not> gt y z \<Longrightarrow> \<not> gt x z"
begin

lemma insert_right_sorted:
  assumes "set xs \<subseteq> elems" "key \<in> elems" "sorted_wrt (\<lambda>x y. \<not> gt y x) xs"
  shows "sorted_wrt (\<lambda>x y. \<not> gt y x) (insert_right gt key xs)"
  using assms
proof (induction xs)
  case (Cons x xs)
  have s: "set (insert_right gt key xs) = insert key (set xs)"
    by (metis mset_insert_right set_mset_add_mset_insert set_mset_mset)
  show ?case
  proof (cases "gt x key")
    case True
    then show ?thesis using Cons s by (auto dest: gt_asym [of x key])
  next
    case False
    have "\<not> gt z key" if "z \<in> set xs" for z using False Cons.prems that le_trans [of z x key] by auto
    with False show ?thesis using Cons.prems by simp
  qed
qed simp

lemma sorts:
  assumes "set xs \<subseteq> elems"
  shows "sorted_wrt (\<lambda>x y. \<not> gt x y) (insertion_sort gt xs)"
proof -
  have "sorted_wrt (\<lambda>x y. \<not> gt y x) acc \<Longrightarrow> set acc \<subseteq> elems \<Longrightarrow> set xs \<subseteq> elems \<Longrightarrow>
      sorted_wrt (\<lambda>x y. \<not> gt y x) (fold (insert_right gt) xs acc)" for acc
  proof (induction xs arbitrary: acc)
    case (Cons x xs)
    have "set (insert_right gt x acc) = insert x (set acc)"
      by (metis mset_insert_right set_mset_add_mset_insert set_mset_mset)
    with Cons show ?case by (simp add: insert_right_sorted)
  qed simp
  from this [of "[]"] show ?thesis using assms by (simp add: insertion_sort_prefix sort_prefix_def sorted_wrt_rev)
qed

end

end
