(* ===== verification/Chain_Scan.thy ===== *)
theory Chain_Scan
  imports Chain_Block Insertion
begin

text \<open>
  The pattern rules of \<^verbatim>\<open>reputation/chain/src/chain.c\<close>: the fault events visible at a cutoff are
  counted per subject within the rule's window, and each subject with an event in the window gets
  one finding with a severity; the findings are returned in the order of their subjects. The
  theorems say what the findings are, and that the order in which the events are listed does
  not matter.
\<close>

section \<open>The rules\<close>

definition ANTS_CHAIN_PATTERN_WINDOW_S :: u64 where "ANTS_CHAIN_PATTERN_WINDOW_S = 2592000"
definition ANTS_CHAIN_PATTERN_SOFT_MIN_EVENTS :: u64 where "ANTS_CHAIN_PATTERN_SOFT_MIN_EVENTS = 1"
definition ANTS_CHAIN_PATTERN_MEDIUM_MIN_EVENTS :: u64 where "ANTS_CHAIN_PATTERN_MEDIUM_MIN_EVENTS = 3"
definition ANTS_CHAIN_PATTERN_HARD_MIN_EVENTS :: u64 where "ANTS_CHAIN_PATTERN_HARD_MIN_EVENTS = 6"
definition ANTS_CHAIN_RULE_FAULT_COUNT_30D :: u64 where "ANTS_CHAIN_RULE_FAULT_COUNT_30D = 1"

record ants_chain_event =
  ev_subject :: bytes
  ev_timestamp :: u64
  ev_fault_type :: u64

definition severity_for_count :: "u64 \<Rightarrow> u32" where
  "severity_for_count cnt =
    (if cnt \<ge> ANTS_CHAIN_PATTERN_HARD_MIN_EVENTS then ANTS_CHAIN_SEVERITY_HARD
     else if cnt \<ge> ANTS_CHAIN_PATTERN_MEDIUM_MIN_EVENTS then ANTS_CHAIN_SEVERITY_MEDIUM
     else ANTS_CHAIN_SEVERITY_SOFT)"

definition event_in_window :: "ants_chain_event \<Rightarrow> u64 \<Rightarrow> bool" where
  "event_in_window e now \<longleftrightarrow> ev_timestamp e \<le> now \<and> now - ev_timestamp e < ANTS_CHAIN_PATTERN_WINDOW_S"

definition same_subject :: "ants_chain_event \<Rightarrow> ants_chain_event \<Rightarrow> bool" where
  "same_subject e e' \<longleftrightarrow> memcmp (ev_subject e) (ev_subject e') ANTS_CHAIN_PEER_ID_SIZE = 0"

definition window_count :: "ants_chain_event list \<Rightarrow> u64 \<Rightarrow> ants_chain_event \<Rightarrow> u64" where
  "window_count events now e =
    fold (\<lambda>ev cnt. if same_subject ev e \<and> event_in_window ev now then cnt + 1 else cnt) events 0"

text \<open>One round of the scan. The state is the filled part of the output array and the number of
  findings, which goes on counting when the array is full.\<close>

definition scan_event :: "ants_chain_event list \<Rightarrow> u64 \<Rightarrow> nat \<Rightarrow> nat \<Rightarrow>
    ants_chain_pattern_finding list \<times> nat \<Rightarrow> ants_chain_pattern_finding list \<times> nat" where
  "scan_event events now cap i s = (case s of (out, n) \<Rightarrow>
    if list_ex (\<lambda>e. same_subject e (events ! i)) (take i events) then (out, n)
    else
      let cnt = window_count events now (events ! i) in
      if cnt < ANTS_CHAIN_PATTERN_SOFT_MIN_EVENTS then (out, n)
      else
        (if n < cap then out @ [\<lparr>pf_subject = ev_subject (events ! i), pf_rule_id = ANTS_CHAIN_RULE_FAULT_COUNT_30D,
           pf_window_s = ANTS_CHAIN_PATTERN_WINDOW_S, pf_count = cnt, pf_severity = severity_for_count cnt\<rparr>] else out, n + 1))"

definition finding_gt :: "ants_chain_pattern_finding \<Rightarrow> ants_chain_pattern_finding \<Rightarrow> bool" where
  "finding_gt f g \<longleftrightarrow> memcmp (pf_subject f) (pf_subject g) ANTS_CHAIN_PEER_ID_SIZE > 0"

text \<open>The second component is \<^verbatim>\<open>*out_n\<close>.\<close>

definition ants_chain_pattern_scan :: "ants_chain_event list \<Rightarrow> u64 \<Rightarrow> nat \<Rightarrow> ants_chain_pattern_finding list res \<times> nat" where
  "ants_chain_pattern_scan events now cap =
    (case fold (scan_event events now cap) [0..<length events] ([], 0) of (out, n) \<Rightarrow>
     if n > cap then (Inl ANTS_ERROR_BUFFER_TOO_SMALL, n) else (Inr (insertion_sort finding_gt out), n))"

section \<open>Subjects and findings\<close>

definition events_ok :: "ants_chain_event list \<Rightarrow> bool" where
  "events_ok events \<longleftrightarrow> list_all (\<lambda>e. length (ev_subject e) = ANTS_CHAIN_PEER_ID_SIZE) events \<and> length events < 2 ^ 64"

text \<open>The events of a subject in the window, and the finding they amount to.\<close>

definition events_of :: "ants_chain_event list \<Rightarrow> u64 \<Rightarrow> bytes \<Rightarrow> nat" where
  "events_of events now subj = length (filter (\<lambda>e. ev_subject e = subj \<and> event_in_window e now) events)"

definition finding_for :: "ants_chain_event list \<Rightarrow> u64 \<Rightarrow> bytes \<Rightarrow> ants_chain_pattern_finding" where
  "finding_for events now subj = (let cnt = of_nat (events_of events now subj) in
    \<lparr>pf_subject = subj, pf_rule_id = ANTS_CHAIN_RULE_FAULT_COUNT_30D, pf_window_s = ANTS_CHAIN_PATTERN_WINDOW_S,
     pf_count = cnt, pf_severity = severity_for_count cnt\<rparr>)"

definition offenders :: "ants_chain_event list \<Rightarrow> u64 \<Rightarrow> bytes set" where
  "offenders events now = {subj. 0 < events_of events now subj}"

lemma same_subject_iff:
  assumes "events_ok events" "e \<in> set events" "e' \<in> set events"
  shows "same_subject e e' \<longleftrightarrow> ev_subject e = ev_subject e'"
  using assms by (auto simp: same_subject_def events_ok_def list_all_iff memcmp_key)

lemma window_count_eq:
  assumes "events_ok events" "e \<in> set events"
  shows "window_count events now e = of_nat (events_of events now (ev_subject e))"
proof -
  have "set es \<subseteq> set events \<Longrightarrow>
      fold (\<lambda>ev cnt. if same_subject ev e \<and> event_in_window ev now then cnt + 1 else cnt) es c =
      (c :: u64) + of_nat (length (filter (\<lambda>ev. ev_subject ev = ev_subject e \<and> event_in_window ev now) es))" for es c
    by (induction es arbitrary: c) (auto simp: same_subject_iff [OF assms(1) _ assms(2)] add.assoc)
  then show ?thesis by (simp add: window_count_def events_of_def)
qed

lemma events_of_less: "events_ok events \<Longrightarrow> events_of events now subj < 2 ^ 64"
  unfolding events_of_def events_ok_def by (meson length_filter_le order_le_less_trans)

lemma count_positive:
  assumes "events_ok events"
  shows "of_nat (events_of events now subj) < ANTS_CHAIN_PATTERN_SOFT_MIN_EVENTS \<longleftrightarrow> events_of events now subj = 0"
  unfolding word_less_nat_alt unat_of_nat_fits [OF events_of_less [OF assms]]
  by (simp add: ANTS_CHAIN_PATTERN_SOFT_MIN_EVENTS_def)

text \<open>The subjects in the order of their first event.\<close>

fun first_subjects :: "ants_chain_event list \<Rightarrow> bytes list" where
  "first_subjects [] = []"
| "first_subjects (e # es) = ev_subject e # filter (\<lambda>s. s \<noteq> ev_subject e) (first_subjects es)"

definition found :: "ants_chain_event list \<Rightarrow> u64 \<Rightarrow> nat \<Rightarrow> bytes list" where
  "found events now k = filter (\<lambda>s. 0 < events_of events now s) (rev (remdups (rev (map ev_subject (take k events)))))"

lemma found_Suc:
  assumes "k < length events"
  shows "found events now (Suc k) =
    found events now k @ (if ev_subject (events ! k) \<in> ev_subject ` set (take k events) \<or> events_of events now (ev_subject (events ! k)) = 0
      then [] else [ev_subject (events ! k)])"
  using assms by (auto simp: found_def take_Suc_conv_app_nth)

lemma scan_loop:
  assumes ok: "events_ok events" and k: "k \<le> length events"
  shows "fold (scan_event events now cap) [0..<k] ([], 0) =
    (map (finding_for events now) (take cap (found events now k)), length (found events now k))"
  using k
proof (induction k)
  case 0
  then show ?case by (simp add: found_def)
next
  case (Suc k)
  let ?e = "events ! k" and ?n = "length (found events now k)"
  have k: "k < length events" and mem: "?e \<in> set events" using Suc.prems by simp_all
  have first: "list_ex (\<lambda>e. same_subject e ?e) (take k events) \<longleftrightarrow> ev_subject ?e \<in> ev_subject ` set (take k events)"
    using same_subject_iff [OF ok in_set_takeD mem, of _ k] unfolding list_ex_iff image_iff by metis
  have "take cap (found events now k @ [s]) = take cap (found events now k) @ (if ?n < cap then [s] else [])" for s
    by simp
  then show ?case using Suc k
    by (simp add: scan_event_def first found_Suc window_count_eq [OF ok mem] count_positive [OF ok] finding_for_def Let_def)
qed

lemma set_found: "set (found events now (length events)) = offenders events now"
  by (auto simp: found_def offenders_def events_of_def filter_empty_conv)

lemma distinct_found: "distinct (found events now k)"
  by (simp add: found_def)

lemma card_offenders: "card (offenders events now) = length (found events now (length events))"
  by (metis distinct_card distinct_found set_found)

lemma offenders_le: "card (offenders events now) \<le> length events"
  unfolding card_offenders found_def by (rule order_trans [OF length_filter_le]) (use length_remdups_leq [of "rev (map ev_subject events)"] in simp)

lemma offenders_length:
  assumes "events_ok events" "s \<in> offenders events now"
  shows "length s = ANTS_CHAIN_PEER_ID_SIZE"
  using assms by (auto simp: offenders_def events_of_def events_ok_def list_all_iff filter_empty_conv)

lemma finding_subject [simp]: "pf_subject (finding_for events now s) = s"
  by (simp add: finding_for_def Let_def)

lemma scan_result:
  assumes "events_ok events"
  shows "ants_chain_pattern_scan events now cap =
    (if card (offenders events now) > cap then Inl ANTS_ERROR_BUFFER_TOO_SMALL
     else Inr (insertion_sort finding_gt (map (finding_for events now) (found events now (length events)))),
     card (offenders events now))"
  by (simp add: ants_chain_pattern_scan_def scan_loop [OF assms] card_offenders)

section \<open>The canonical order\<close>

interpretation by_subject: shift_order finding_gt "{f. length (pf_subject f) = ANTS_CHAIN_PEER_ID_SIZE}"
proof
  fix f g h :: ants_chain_pattern_finding
  assume fg: "f \<in> {f. length (pf_subject f) = ANTS_CHAIN_PEER_ID_SIZE}" "g \<in> {f. length (pf_subject f) = ANTS_CHAIN_PEER_ID_SIZE}"
  have gt: "finding_gt f g \<longleftrightarrow> bytes_less (pf_subject g) (pf_subject f)" if "length (pf_subject f) = ANTS_CHAIN_PEER_ID_SIZE"
    "length (pf_subject g) = ANTS_CHAIN_PEER_ID_SIZE" for f g :: ants_chain_pattern_finding
    using memcmp_less_iff [OF that(2,1)] memcmp_swap [of "pf_subject g" "pf_subject f"] by (simp add: finding_gt_def)
  then show "finding_gt f g \<Longrightarrow> \<not> finding_gt g f" using fg bytes_less_asym by auto
  assume "h \<in> {f. length (pf_subject f) = ANTS_CHAIN_PEER_ID_SIZE}" "\<not> finding_gt f g" "\<not> finding_gt g h"
  then show "\<not> finding_gt f h" using fg gt bytes_less_linear bytes_less_trans by (auto; metis)
qed

text \<open>A list that is strictly ascending in the byte order is determined by its set.\<close>

lemma ascending_unique:
  assumes "sorted_wrt bytes_less xs" "sorted_wrt bytes_less ys" "set xs = set ys"
  shows "xs = ys"
  using assms
proof (induction xs arbitrary: ys)
  case (Cons x xs)
  then obtain y ys' where ys: "ys = y # ys'" by (cases ys) auto
  have nx: "x \<notin> set xs" and ny: "y \<notin> set ys'" using Cons.prems ys bytes_less_irrefl by auto
  have "x = y" using Cons.prems ys by simp (metis bytes_less_asym insertCI insertE)
  moreover from this have "set xs = set ys'" using Cons.prems(3) ys nx ny by auto
  ultimately show ?case using Cons ys by simp
qed simp

lemma scan_sorted:
  assumes "events_ok events" "ants_chain_pattern_scan events now cap = (Inr fs, n)"
  shows "sorted_wrt bytes_less (map pf_subject fs)" "set fs = finding_for events now ` offenders events now"
proof -
  let ?fs = "map (finding_for events now) (found events now (length events))"
  have fs: "fs = insertion_sort finding_gt ?fs" using assms by (simp add: scan_result split: if_splits)
  then show set: "set fs = finding_for events now ` offenders events now" by (simp add: set_found)
  have len: "length (pf_subject f) = ANTS_CHAIN_PEER_ID_SIZE" if "f \<in> set fs" for f
    using that offenders_length [OF assms(1)] by (auto simp: set)
  have "distinct (map pf_subject ?fs)" using distinct_found by (simp add: o_def)
  moreover have "mset (map pf_subject fs) = mset (map pf_subject ?fs)" unfolding fs by (simp only: mset_map mset_insertion_sort)
  ultimately have d: "distinct (map pf_subject fs)" by (metis mset_eq_imp_distinct_iff)
  have "sorted_wrt (\<lambda>f g. \<not> finding_gt f g) fs" unfolding fs by (rule by_subject.sorts) (use len in \<open>auto simp: fs\<close>)
  then have "sorted_wrt (\<lambda>f g. \<not> finding_gt f g \<and> pf_subject f \<noteq> pf_subject g) fs"
    using d by (auto simp: sorted_wrt_iff_nth_less distinct_conv_nth)
  then show "sorted_wrt bytes_less (map pf_subject fs)" unfolding sorted_wrt_map
  proof (rule sorted_wrt_mono_rel [rotated])
    fix f g assume fg: "f \<in> set fs" "g \<in> set fs" and "\<not> finding_gt f g \<and> pf_subject f \<noteq> pf_subject g"
    then show "bytes_less (pf_subject f) (pf_subject g)"
      using memcmp_less_iff [OF len [OF fg(2)] len [OF fg(1)]] memcmp_swap [of "pf_subject g" "pf_subject f"] bytes_less_linear
      by (auto simp: finding_gt_def)
  qed
qed

lemma scan_mset:
  assumes "events_ok events" "mset events' = mset events"
  shows "ants_chain_pattern_scan events' now cap = ants_chain_pattern_scan events now cap"
proof -
  have ok: "events_ok events'" using assms mset_eq_setD [OF assms(2)] mset_eq_length [OF assms(2)]
    by (simp add: events_ok_def list_all_iff)
  have n: "events_of events' now = events_of events now"
    unfolding events_of_def size_mset [symmetric] mset_filter assms(2) by (rule refl)
  then have f: "finding_for events' now = finding_for events now" and o: "offenders events' now = offenders events now"
    by (auto simp: finding_for_def offenders_def)
  show ?thesis
  proof (cases "card (offenders events now) > cap")
    case False
    obtain fs fs' where fs: "ants_chain_pattern_scan events now cap = (Inr fs, card (offenders events now))"
      "ants_chain_pattern_scan events' now cap = (Inr fs', card (offenders events now))"
      using False by (auto simp: scan_result [OF assms(1)] scan_result [OF ok] o)
    note s = scan_sorted [OF assms(1) fs(1)] and s' = scan_sorted [OF ok fs(2), unfolded f o]
    have subj: "map pf_subject fs = map pf_subject fs'"
      by (rule ascending_unique [OF s(1) s'(1)]) (simp only: set_map s(2) s'(2))
    have "map (\<lambda>g. finding_for events now (pf_subject g)) gs = gs" if "set gs = finding_for events now ` offenders events now" for gs
      by (rule map_idI) (use that in auto)
    from this [OF s(2)] this [OF s'(2)] have "fs = map (finding_for events now) (map pf_subject fs)"
      "fs' = map (finding_for events now) (map pf_subject fs')" by (simp_all add: o_def)
    with subj have "fs = fs'" by simp
    with fs show ?thesis by simp
  qed (simp add: scan_result [OF assms(1)] scan_result [OF ok] o)
qed

lemma scan_findings_ok:
  assumes "events_ok events" "ants_chain_pattern_scan events now cap = (Inr fs, n)"
  shows "list_all finding_ok fs" "length fs = n" "n \<le> cap"
proof -
  have "severity_valid (ucast (severity_for_count c))" for c
    by (simp add: severity_for_count_def severity_valid_def chain_severities)
  then show "list_all finding_ok fs" using scan_sorted(2) [OF assms] offenders_length [OF assms(1)]
    by (auto simp: list_all_iff finding_ok_def finding_for_def Let_def)
  show "length fs = n" "n \<le> cap" using assms(2) by (auto simp: scan_result [OF assms(1)] card_offenders split: if_splits)
qed

section \<open>Properties\<close>


text \<open>The order in which the events are listed does not matter: two members that see the same events
  compute byte-identical findings.\<close>

theorem chain_scan_order_independent:
  assumes "events_ok events" "mset events' = mset events"
  shows "ants_chain_pattern_scan events' now cap = ants_chain_pattern_scan events now cap"
  by (rule scan_mset [OF assms])

section \<open>Witnesses\<close>

definition sample_events :: "ants_chain_event list" where
  "sample_events = [\<lparr>ev_subject = replicate 32 9, ev_timestamp = 100, ev_fault_type = 1\<rparr>,
    \<lparr>ev_subject = replicate 32 4, ev_timestamp = 200, ev_fault_type = 1\<rparr>, \<lparr>ev_subject = replicate 32 9, ev_timestamp = 300, ev_fault_type = 2\<rparr>]"


theorem chain_scan_order_independent_witness:
  "ants_chain_pattern_scan (rev sample_events) 250 5 = ants_chain_pattern_scan sample_events 250 5"
  by (rule chain_scan_order_independent) (simp_all add: events_ok_def sample_events_def chain_sizes)

end
