(* ===== verification/Chain_Committee.thy ===== *)
theory Chain_Committee
  imports Chain_Block Insertion "HOL-Library.Monad_Syntax"
begin

text \<open>
  Committee selection of \<^verbatim>\<open>reputation/chain/src/chain.c\<close>: a keystream of 64-bit words derived from
  the previous block and a seed, a draw below a bound by rejection sampling, and Floyd's
  algorithm for \<open>k\<close> distinct members. The rejection loop need not end for an adversarial hash, so
  it is a partial function: \<open>None\<close> is the call that does not return.
\<close>

section \<open>The keystream\<close>

definition write_le64 :: "u64 \<Rightarrow> bytes" where
  "write_le64 v = [ucast v, ucast (drop_bit 8 v), ucast (drop_bit 16 v), ucast (drop_bit 24 v), ucast (drop_bit 32 v),
    ucast (drop_bit 40 v), ucast (drop_bit 48 v), ucast (drop_bit 56 v)]"

definition read_be64 :: "bytes \<Rightarrow> u64" where
  "read_be64 b = push_bit 56 (ucast (b ! 0)) OR push_bit 48 (ucast (b ! 1)) OR push_bit 40 (ucast (b ! 2)) OR
    push_bit 32 (ucast (b ! 3)) OR push_bit 24 (ucast (b ! 4)) OR push_bit 16 (ucast (b ! 5)) OR
    push_bit 8 (ucast (b ! 6)) OR ucast (b ! 7)"

definition committee_tag :: bytes where "committee_tag = [0x63, 0x6d, 0x74, 0x65]"

text \<open>The second component is the counter after the draw.\<close>

definition committee_draw_word :: "(bytes \<Rightarrow> bytes) \<Rightarrow> bytes \<Rightarrow> bytes \<Rightarrow> u64 \<Rightarrow> u64 \<times> u64" where
  "committee_draw_word H prev beacon ctr = (read_be64 (H (prev @ beacon @ committee_tag @ write_le64 ctr)), ctr + 1)"

section \<open>The uniform draw\<close>

definition draw_accepted :: "u64 \<Rightarrow> u64 \<Rightarrow> bool" where
  "draw_accepted bnd w \<longleftrightarrow> w \<ge> (0 - bnd) mod bnd"

partial_function (option) committee_uniform :: "(bytes \<Rightarrow> bytes) \<Rightarrow> bytes \<Rightarrow> bytes \<Rightarrow> u64 \<Rightarrow> u64 \<Rightarrow> (u64 \<times> u64) option" where
  "committee_uniform H prev beacon bnd ctr =
    (if draw_accepted bnd (fst (committee_draw_word H prev beacon ctr))
     then Some (fst (committee_draw_word H prev beacon ctr) mod bnd, snd (committee_draw_word H prev beacon ctr))
     else committee_uniform H prev beacon bnd (snd (committee_draw_word H prev beacon ctr)))"

declare committee_uniform.simps [code]

section \<open>The committee\<close>

text \<open>One round of Floyd's algorithm on the members chosen so far.\<close>

definition select_step :: "nat \<Rightarrow> nat \<Rightarrow> nat list \<Rightarrow> nat \<Rightarrow> nat list" where
  "select_step population_size k out t =
    (let j = population_size - k + length out; found = list_ex (\<lambda>m. m = t) out in out @ [if found then j else t])"

fun select_loop :: "(bytes \<Rightarrow> bytes) \<Rightarrow> bytes \<Rightarrow> bytes \<Rightarrow> nat \<Rightarrow> nat \<Rightarrow> nat \<Rightarrow> u64 \<Rightarrow> nat list \<Rightarrow> nat list option" where
  "select_loop H prev beacon population_size k 0 ctr out = Some out"
| "select_loop H prev beacon population_size k (Suc s) ctr out =
    (let j = population_size - k + length out in
     do { (t, ctr') \<leftarrow> committee_uniform H prev beacon (of_nat j + 1) ctr;
          select_loop H prev beacon population_size k s ctr' (select_step population_size k out (unat t)) })"

text \<open>The second component is \<^verbatim>\<open>*out_n\<close>, when it is written.\<close>

definition ants_chain_committee_select :: "(bytes \<Rightarrow> bytes) \<Rightarrow> bytes \<Rightarrow> bytes \<Rightarrow> nat \<Rightarrow> nat \<Rightarrow> nat \<Rightarrow> (nat list res \<times> nat option) option" where
  "ants_chain_committee_select H prev_block_hash beacon population_size k cap =
    (if k = 0 \<or> k > population_size then Some (Inl ANTS_ERROR_INVALID_ARG, None)
     else if cap < k then Some (Inl ANTS_ERROR_BUFFER_TOO_SMALL, Some k)
     else do { out \<leftarrow> select_loop H prev_block_hash beacon population_size k k 0 [];
               Some (Inr (insertion_sort (\<lambda>x y. x > y) out), Some k) })"

section \<open>The draw is unbiased and ends\<close>

lemma unat_reject_band: "b \<noteq> 0 \<Longrightarrow> unat ((0 - b) mod b :: u64) = 2 ^ 64 mod unat b"
proof -
  assume b: "b \<noteq> 0"
  have lt: "unat b < 2 ^ 64" by (rule unat_bound)
  have "unat (0 - b) = 2 ^ 64 - unat b" using b by (simp only: unat_sub_if_size) (simp add: word_size unat_eq_0)
  then have "unat ((0 - b) mod b) = (2 ^ 64 - unat b) mod unat b" by (simp only: unat_mod)
  also have "\<dots> = 2 ^ 64 mod unat b" using lt by (metis le_mod_geq less_imp_le)
  finally show ?thesis .
qed

text \<open>Among the \<open>m + q * b\<close> numbers from \<open>0\<close>, those from \<open>m\<close> on hit each residue \<open>q\<close> times.\<close>

lemma residues_in_band:
  fixes b m q r :: nat
  assumes "m < b" "r < b"
  shows "card {n. m \<le> n \<and> n < m + q * b \<and> n mod b = r} = q"
proof -
  define I where "I = (if m \<le> r then {0..<q} else {1..<Suc q})"
  have "{n. m \<le> n \<and> n < m + q * b \<and> n mod b = r} = (\<lambda>i. i * b + r) ` I"
  proof (intro set_eqI iffI)
    fix n assume "n \<in> {n. m \<le> n \<and> n < m + q * b \<and> n mod b = r}"
    then have n: "m \<le> n" "n < m + q * b" "n mod b = r" by simp_all
    define i where "i = n div b"
    have eq: "n = i * b + r" using n(3) div_mult_mod_eq [of n b] by (simp add: i_def)
    have "i < Suc q"
    proof (rule ccontr)
      assume "\<not> i < Suc q"
      then have "Suc q * b \<le> i * b" by (intro mult_le_mono1) simp
      with n(2) assms eq show False by simp
    qed
    moreover have "i < q" if "m \<le> r"
    proof (rule ccontr)
      assume "\<not> i < q"
      then have "q * b \<le> i * b" by simp
      with that n(2) eq show False by linarith
    qed
    moreover have "1 \<le> i" if "\<not> m \<le> r" using that n(1) eq by (cases i) simp_all
    ultimately have "i \<in> I" by (simp add: I_def)
    with eq show "n \<in> (\<lambda>i. i * b + r) ` I" by blast
  next
    fix n assume "n \<in> (\<lambda>i. i * b + r) ` I"
    then obtain i where i: "n = i * b + r" "i \<in> I" by blast
    have "m \<le> n \<and> n < m + q * b"
    proof (cases "m \<le> r")
      case True
      then have "Suc i * b \<le> q * b" using i by (intro mult_le_mono1) (simp add: I_def)
      with True i assms show ?thesis by simp
    next
      case False
      then have "1 * b \<le> i * b" "i * b \<le> q * b" using i by (auto simp: I_def intro!: mult_le_mono1)
      with False i(1) assms show ?thesis by linarith
    qed
    then show "n \<in> {n. m \<le> n \<and> n < m + q * b \<and> n mod b = r}" using i assms by simp
  qed
  moreover have "inj_on (\<lambda>i. i * b + r) I" using assms by (auto simp: inj_on_def)
  ultimately show ?thesis by (simp add: card_image I_def)
qed

lemma draw_residues:
  fixes bnd :: u64
  assumes "bnd \<noteq> 0" "r < bnd"
  shows "card {w. draw_accepted bnd w \<and> w mod bnd = r} = 2 ^ 64 div unat bnd"
proof -
  define M :: nat where "M = 2 ^ 64"
  let ?b = "unat bnd" and ?S = "{w. draw_accepted bnd w \<and> w mod bnd = r}"
  have b: "0 < ?b" using assms(1) by (simp add: unat_gt_0)
  have r: "unat r < ?b" using assms(2) by (simp add: word_less_nat_alt)
  have acc: "draw_accepted bnd w \<longleftrightarrow> M mod ?b \<le> unat w" for w
    by (simp only: draw_accepted_def word_le_nat_alt unat_reject_band [OF assms(1)] M_def)
  have img: "unat ` ?S = {n. M mod ?b \<le> n \<and> n < M \<and> n mod ?b = unat r}"
  proof (intro set_eqI iffI)
    fix n assume n: "n \<in> {n. M mod ?b \<le> n \<and> n < M \<and> n mod ?b = unat r}"
    then have u: "unat (of_nat n :: u64) = n" unfolding M_def by (intro unat_of_nat_fits) simp
    then have "of_nat n \<in> ?S" using n by (simp add: acc word_unat_eq_iff unat_mod)
    then show "n \<in> unat ` ?S" by (rule image_eqI [of n unat, OF u [symmetric]])
  next
    fix n assume "n \<in> unat ` ?S"
    then obtain w where w: "n = unat w" "draw_accepted bnd w" "w mod bnd = r" by blast
    then show "n \<in> {n. M mod ?b \<le> n \<and> n < M \<and> n mod ?b = unat r}"
      using unat_bound [of w] by (auto simp: acc unat_mod M_def)
  qed
  have "card ?S = card (unat ` ?S)" by (rule card_image [symmetric]) (simp add: inj_on_def word_unat_eq_iff)
  also have "\<dots> = card {n. M mod ?b \<le> n \<and> n < M mod ?b + M div ?b * ?b \<and> n mod ?b = unat r}"
    unfolding img mod_div_mult_eq by (rule refl)
  also have "\<dots> = M div ?b" by (rule residues_in_band) (use b r in simp_all)
  finally show ?thesis by (simp only: M_def)
qed

abbreviation stream_word :: "(bytes \<Rightarrow> bytes) \<Rightarrow> bytes \<Rightarrow> bytes \<Rightarrow> u64 \<Rightarrow> u64" where
  "stream_word H prev beacon c \<equiv> fst (committee_draw_word H prev beacon c)"

lemma large_word_accepted: "bnd \<noteq> 0 \<Longrightarrow> bnd \<le> w \<Longrightarrow> draw_accepted bnd w"
  unfolding draw_accepted_def word_le_nat_alt unat_reject_band
  by (meson less_imp_le mod_less_divisor order_trans unat_gt_0)

text \<open>The counter runs through all its values, so one acceptable word is enough.\<close>

lemma uniform_returns:
  assumes "draw_accepted bnd (stream_word H prev beacon c)"
  shows "\<exists>t ctr'. committee_uniform H prev beacon bnd ctr = Some (t, ctr')"
proof -
  have "draw_accepted bnd (stream_word H prev beacon (ctr + of_nat n)) \<Longrightarrow> \<exists>t ctr'. committee_uniform H prev beacon bnd ctr = Some (t, ctr')" for n
  proof (induction n arbitrary: ctr)
    case 0
    then show ?case by (subst committee_uniform.simps) simp
  next
    case (Suc n)
    have "snd (committee_draw_word H prev beacon ctr) = ctr + 1" by (simp add: committee_draw_word_def)
    with Suc.IH [of "ctr + 1"] Suc.prems show ?case by (subst committee_uniform.simps) (simp add: add.assoc)
  qed
  from this [of "unat (c - ctr)"] assms show ?thesis by simp
qed

lemma uniform_accepted:
  assumes "committee_uniform H prev beacon bnd ctr = Some y"
  shows "\<exists>w. draw_accepted bnd w \<and> fst y = w mod bnd"
  using _ assms
proof (rule committee_uniform.raw_induct [where P = "\<lambda>H prev beacon bnd ctr y. \<exists>w. draw_accepted bnd w \<and> fst y = w mod bnd"])
  fix uni H prev beacon bnd ctr y
  assume IH: "\<And>H prev beacon bnd ctr y. uni H prev beacon bnd ctr = Some y \<Longrightarrow> \<exists>w. draw_accepted bnd w \<and> fst y = w mod bnd"
    and step: "(if draw_accepted bnd (stream_word H prev beacon ctr)
      then Some (stream_word H prev beacon ctr mod bnd, snd (committee_draw_word H prev beacon ctr))
      else uni H prev beacon bnd (snd (committee_draw_word H prev beacon ctr))) = Some y"
  show "\<exists>w. draw_accepted bnd w \<and> fst y = w mod bnd"
  proof (cases "draw_accepted bnd (stream_word H prev beacon ctr)")
    case True
    with step have "fst y = stream_word H prev beacon ctr mod bnd" by auto
    with True show ?thesis by blast
  next
    case False
    with step have "uni H prev beacon bnd (snd (committee_draw_word H prev beacon ctr)) = Some y" by simp
    then show ?thesis by (rule IH)
  qed
qed

lemma uniform_less: "bnd \<noteq> 0 \<Longrightarrow> committee_uniform H prev beacon bnd ctr = Some (t, ctr') \<Longrightarrow> t < bnd"
  using uniform_accepted [of H prev beacon bnd ctr "(t, ctr')"] by (auto simp: word_mod_less_divisor word_gt_0)

section \<open>Floyd's algorithm\<close>

text \<open>The members that a sequence of draws selects, and the sequences that can be drawn.\<close>

definition floyd :: "nat \<Rightarrow> nat \<Rightarrow> nat list \<Rightarrow> nat list" where
  "floyd n k ts = foldl (select_step n k) [] ts"

fun draws :: "nat \<Rightarrow> nat \<Rightarrow> nat list set" where
  "draws base 0 = {[]}"
| "draws base (Suc s) = {ts @ [t] | ts t. ts \<in> draws base s \<and> t \<le> base + s}"

lemma draws_length: "ts \<in> draws base s \<Longrightarrow> length ts = s"
  by (induction s arbitrary: ts) auto

lemma select_step_eq: "select_step n k out t = out @ [if t \<in> set out then n - k + length out else t]"
proof -
  have "list_ex (\<lambda>m. m = t) out \<longleftrightarrow> t \<in> set out" by (auto simp: list_ex_iff)
  then show ?thesis by (simp add: select_step_def Let_def)
qed

lemma floyd_snoc: "floyd n k (ts @ [t]) = floyd n k ts @ [if t \<in> set (floyd n k ts) then n - k + length (floyd n k ts) else t]"
  by (simp add: floyd_def select_step_eq)

lemma floyd_length [simp]: "length (floyd n k ts) = length ts"
  by (induction ts rule: rev_induct) (simp_all add: floyd_def select_step_eq)

lemma floyd_distinct:
  "ts \<in> draws (n - k) s \<Longrightarrow> distinct (floyd n k ts) \<and> set (floyd n k ts) \<subseteq> {..<n - k + s}"
proof (induction s arbitrary: ts)
  case (Suc s)
  then obtain us t where ts: "ts = us @ [t]" "us \<in> draws (n - k) s" "t \<le> n - k + s" by auto
  with Suc.IH [of us] draws_length [OF ts(2)] show ?case by (auto simp: floyd_snoc)
qed (simp add: floyd_def)

text \<open>Every set of the right size is selected by the same number of sequences of draws.\<close>

lemma draws_finite: "finite (draws base s)"
proof (induction s)
  case (Suc s)
  have "draws base (Suc s) = (\<lambda>(ts, t). ts @ [t]) ` (draws base s \<times> {..base + s})" by auto
  then show ?case using Suc by (simp del: draws.simps)
qed simp

lemma floyd_snoc_set:
  assumes "ts \<in> draws base s" "t \<le> base + s" "base = n - k"
  shows "set (floyd n k (ts @ [t])) = S \<longleftrightarrow>
    (base + s \<in> S \<and> set (floyd n k ts) = S - {base + s} \<and> (t \<in> S - {base + s} \<or> t = base + s)) \<or>
    (base + s \<notin> S \<and> t \<in> S \<and> set (floyd n k ts) = S - {t})"
proof -
  let ?F = "set (floyd n k ts)"
  have F: "base + s \<notin> ?F" using floyd_distinct [of ts n k s] assms by auto
  have len: "length ts = s" by (rule draws_length [OF assms(1)])
  have eq: "set (floyd n k (ts @ [t])) = insert (if t \<in> ?F then base + s else t) ?F" using len assms(3) by (simp add: floyd_snoc)
  show ?thesis unfolding eq using F by auto
qed

lemma floyd_fair:
  assumes "base = n - k"
  shows "S \<subseteq> {..<base + s} \<Longrightarrow> card S = s \<Longrightarrow> card {ts \<in> draws base s. set (floyd n k ts) = S} = fact s"
proof (induction s arbitrary: S)
  case 0
  then have "S = {}" using finite_subset [OF 0(1)] by simp
  then have "{ts \<in> draws base 0. set (floyd n k ts) = S} = {[]}" by (auto simp: floyd_def)
  then show ?case by simp
next
  case (Suc s)
  let ?A = "\<lambda>S s. {ts \<in> draws base s. set (floyd n k ts) = S}" and ?m = "base + s" and ?app = "\<lambda>(ts, t). ts @ [t]"
  have fin: "finite S" using Suc.prems(1) finite_subset by blast
  have inj: "inj_on ?app X" for X :: "(nat list \<times> nat) set" by (auto simp: inj_on_def)
  let ?P = "{(ts, t). ts \<in> draws base s \<and> t \<le> ?m \<and> set (floyd n k (ts @ [t])) = S}"
  have "?A S (Suc s) = ?app ` ?P" by (auto simp: image_iff)
  then have card: "card (?A S (Suc s)) = card ?P" by (simp only: card_image [OF inj])
  have le: "t \<le> ?m" if "t \<in> S" for t using that Suc.prems(1) by auto
  have pair: "(ts, t) \<in> ?P \<longleftrightarrow> ts \<in> draws base s \<and> t \<in> S \<and> set (floyd n k ts) = S - {if ?m \<in> S then ?m else t}" for ts t
  proof (cases "ts \<in> draws base s \<and> t \<le> ?m")
    case True
    then show ?thesis using floyd_snoc_set [of ts base s t n k S, OF _ _ assms] by auto
  next
    case False
    then show ?thesis using le by auto
  qed
  show ?case
  proof (cases "?m \<in> S")
    case True
    then have "?P = ?A (S - {?m}) s \<times> S" using pair by auto
    moreover have "card (?A (S - {?m}) s) = fact s"
      using Suc.prems True fin le by (intro Suc.IH) (auto simp: less_le)
    ultimately show ?thesis unfolding card using Suc.prems(2) by (simp add: card_cartesian_product)
  next
    case False
    then have "?P = (SIGMA t : S. ?A (S - {t}) s)\<inverse>" using pair by auto
    moreover have "card (?A (S - {t}) s) = fact s" if "t \<in> S" for t
      using Suc.prems False that fin le by (intro Suc.IH) (auto simp: less_le)
    ultimately show ?thesis unfolding card using Suc.prems(2) fin draws_finite
      by (simp add: card_inverse card_SigmaI)
  qed
qed

section \<open>Selection\<close>

lemma position_bound:
  assumes "n < 2 ^ 64" "m < n"
  shows "unat (of_nat m + 1 :: u64) = m + 1" "of_nat m + 1 \<noteq> (0 :: u64)"
proof -
  have "unat (of_nat (m + 1) :: u64) = m + 1" using assms by (intro unat_of_nat_fits) simp
  then show u: "unat (of_nat m + 1 :: u64) = m + 1" by (simp add: add.commute)
  show "of_nat m + 1 \<noteq> (0 :: u64)" using u by (auto simp del: of_nat_Suc)
qed

lemma select_loop_draws:
  assumes "n < 2 ^ 64" "k \<le> n"
  shows "select_loop H prev beacon n k s ctr (floyd n k us) = Some out \<Longrightarrow> us \<in> draws (n - k) (length us) \<Longrightarrow>
    length us + s = k \<Longrightarrow> \<exists>ts \<in> draws (n - k) k. out = floyd n k ts"
proof (induction s arbitrary: ctr us)
  case (Suc s)
  let ?j = "n - k + length us"
  have j: "?j < n" using Suc.prems(3) assms(2) by simp
  obtain t ctr' where u: "committee_uniform H prev beacon (of_nat ?j + 1) ctr = Some (t, ctr')"
    and loop: "select_loop H prev beacon n k s ctr' (select_step n k (floyd n k us) (unat t)) = Some out"
    using Suc.prems(1) by (auto simp: Let_def bind_eq_Some_conv)
  have "unat t \<le> ?j" using uniform_less [OF position_bound(2) [OF assms(1) j] u] position_bound(1) [OF assms(1) j]
    by (simp add: word_less_nat_alt)
  then have "us @ [unat t] \<in> draws (n - k) (length (us @ [unat t]))" using Suc.prems(2) by auto
  moreover have "select_step n k (floyd n k us) (unat t) = floyd n k (us @ [unat t])" by (simp add: floyd_def)
  ultimately show ?case using Suc.IH [of ctr' "us @ [unat t]"] loop Suc.prems(3) by simp
qed auto

lemma select_loop_returns:
  assumes "n < 2 ^ 64" "k \<le> n" "of_nat n \<le> stream_word H prev beacon c"
  shows "length out + s = k \<Longrightarrow> \<exists>res. select_loop H prev beacon n k s ctr out = Some res"
proof (induction s arbitrary: ctr out)
  case (Suc s)
  let ?j = "n - k + length out"
  have j: "?j < n" using Suc.prems assms(2) by simp
  have "of_nat ?j + 1 \<le> (of_nat n :: u64)"
    unfolding word_le_nat_alt position_bound(1) [OF assms(1) j] unat_of_nat_fits [OF assms(1)] using j by simp
  then have "draw_accepted (of_nat ?j + 1) (stream_word H prev beacon c)"
    using assms(3) position_bound(2) [OF assms(1) j] by (intro large_word_accepted) auto
  then obtain t ctr' where "committee_uniform H prev beacon (of_nat ?j + 1) ctr = Some (t, ctr')"
    using uniform_returns by blast
  moreover have "length (select_step n k out (unat t)) + s = k" using Suc.prems by (simp add: select_step_eq)
  ultimately show ?case using Suc.IH by (simp add: Let_def)
qed simp

interpretation by_index: shift_order "\<lambda>x y :: nat. x > y" UNIV
  by unfold_locales auto

lemma select_ok:
  assumes "0 < k" "k \<le> n" "n < 2 ^ 64" "k \<le> cap" "ants_chain_committee_select H prev beacon n k cap = Some (r, m)"
  obtains idx ts where "r = Inr idx" "m = Some k" "sorted_wrt (<) idx" "length idx = k" "set idx \<subseteq> {..<n}"
    "ts \<in> draws (n - k) k" "set idx = set (floyd n k ts)"
proof -
  obtain out where out: "select_loop H prev beacon n k k 0 [] = Some out" "r = Inr (insertion_sort (\<lambda>x y. x > y) out)" "m = Some k"
    using assms by (auto simp: ants_chain_committee_select_def bind_eq_Some_conv)
  obtain ts where ts: "ts \<in> draws (n - k) k" "out = floyd n k ts"
    using select_loop_draws [OF assms(3,2), of H prev beacon k 0 "[]" out] out(1) by (auto simp: floyd_def)
  note d = floyd_distinct [OF ts(1), folded ts(2)]
  let ?idx = "insertion_sort (\<lambda>x y. x > y) out"
  have "sorted_wrt (\<lambda>x y. \<not> x > y) ?idx" by (rule by_index.sorts) simp
  moreover have "distinct ?idx" using d mset_eq_imp_distinct_iff [OF mset_insertion_sort, of "\<lambda>x y. x > y" out] by simp
  ultimately have "sorted_wrt (<) ?idx" by (simp only: not_less strict_sorted_iff)
  then show ?thesis using that [of ?idx ts] out d ts draws_length [OF ts(1)] assms(2) by simp
qed

section \<open>Properties\<close>

text \<open>C34. Committee selection returns a committee: as soon as one counter value yields a keystream word
  that is not below the population size, the call returns, with \<open>k\<close> different members of the
  population in ascending order.\<close>

theorem chain_committee_selects:
  assumes "0 < k" "k \<le> n" "n < 2 ^ 64" "k \<le> cap" "of_nat n \<le> fst (committee_draw_word H prev beacon c)"
  shows "\<exists>idx. ants_chain_committee_select H prev beacon n k cap = Some (Inr idx, Some k) \<and>
    sorted_wrt (<) idx \<and> length idx = k \<and> set idx \<subseteq> {..<n}"
proof -
  obtain out where "select_loop H prev beacon n k k 0 [] = Some out"
    using select_loop_returns [OF assms(3,2,5), of "[]" k 0] by auto
  then obtain r m where "ants_chain_committee_select H prev beacon n k cap = Some (r, m)"
    using assms by (simp add: ants_chain_committee_select_def)
  then show ?thesis using select_ok [OF assms(1-4)] by metis
qed

text \<open>A draw is unbiased: of the words that the rejection test lets pass, each result below the bound
  has the same number.\<close>

theorem chain_draw_unbiased:
  assumes "bnd \<noteq> 0" "r < bnd"
  shows "card {w. draw_accepted bnd w \<and> w mod bnd = r} = 2 ^ 64 div unat bnd"
  by (rule draw_residues [OF assms])


section \<open>Witnesses\<close>

definition ones_hash :: "bytes \<Rightarrow> bytes" where "ones_hash bs = replicate 32 0xff"

theorem chain_committee_selects_witness:
  "\<exists>idx. ants_chain_committee_select ones_hash [1] [2] 7 3 64 = Some (Inr idx, Some 3) \<and>
    sorted_wrt (<) idx \<and> length idx = 3 \<and> set idx \<subseteq> {..<7}"
proof (rule chain_committee_selects [where c = 0])
  show "of_nat 7 \<le> fst (committee_draw_word ones_hash [1] [2] 0)" by code_simp
qed simp_all

theorem chain_draw_unbiased_witness: "card {w :: u64. draw_accepted 10 w \<and> w mod 10 = 3} = 2 ^ 64 div unat (10 :: u64)"
  by (rule chain_draw_unbiased) simp_all


end
