(* ===== verification/Fixed_Point.thy ===== *)
theory Fixed_Point
  imports Complex_Main Ants_Prelude
begin

text \<open>
  The deterministic arithmetic of \<^verbatim>\<open>reputation/identity/src/reputation.c\<close>: fixed-point numbers
  with 32 fractional bits, decay by repeated multiplication, and the saturating transform
  from tenure to fork-choice weight, which evaluates an exponential with integers only. The
  operations are related to exact arithmetic on naturals and to the real functions they
  approximate.
\<close>

section \<open>The operations\<close>

definition ANTS_REP_FP_BITS :: nat where "ANTS_REP_FP_BITS = 32"
definition ANTS_REP_FP_ONE :: u64 where "ANTS_REP_FP_ONE = push_bit ANTS_REP_FP_BITS 1"
definition ANTS_REP_EXP_NEG1_Q32 :: u64 where "ANTS_REP_EXP_NEG1_Q32 = 1580030169"
definition ANTS_REP_TAYLOR_TERMS :: nat where "ANTS_REP_TAYLOR_TERMS = 16"
definition ANTS_REP_T_FORK_CHOICE_CAP :: u64 where "ANTS_REP_T_FORK_CHOICE_CAP = 2000000000"

definition ants_reputation_fp_mul :: "u64 \<Rightarrow> u64 \<Rightarrow> u64" where
  "ants_reputation_fp_mul a_q32 b_q32 =
    (if a_q32 \<ge> ANTS_REP_FP_ONE then b_q32
     else if b_q32 \<ge> ANTS_REP_FP_ONE then a_q32
     else drop_bit ANTS_REP_FP_BITS (a_q32 * b_q32))"

fun decay_loop :: "u64 \<Rightarrow> nat \<Rightarrow> u64 \<Rightarrow> u64" where
  "decay_loop ratio_q32 0 acc = acc"
| "decay_loop ratio_q32 (Suc k) acc =
    (let acc' = ants_reputation_fp_mul acc ratio_q32 in
     if acc' = 0 then acc' else decay_loop ratio_q32 k acc')"

definition ants_reputation_decay_factor :: "u64 \<Rightarrow> u64 \<Rightarrow> u64" where
  "ants_reputation_decay_factor ratio_q32 age_bins =
    (if ratio_q32 \<ge> ANTS_REP_FP_ONE \<or> age_bins = 0 then ANTS_REP_FP_ONE
     else decay_loop ratio_q32 (unat age_bins) ANTS_REP_FP_ONE)"

definition apply_decay :: "u64 \<Rightarrow> u64 \<Rightarrow> u64" where
  "apply_decay val factor_q32 =
    (if factor_q32 \<ge> ANTS_REP_FP_ONE then val
     else
       let hi = drop_bit 32 val; lo = val AND 0xFFFFFFFF;
           lo_term = drop_bit ANTS_REP_FP_BITS (lo * factor_q32) in
       if hi \<noteq> 0 \<and> factor_q32 > UINT64_MAX div hi then UINT64_MAX
       else
         let hi_term = hi * factor_q32; r = hi_term + lo_term in
         if r < hi_term then UINT64_MAX else r)"

text \<open>One round of the long division, on the pair of remainder and quotient.\<close>

definition muldiv_step :: "u64 \<Rightarrow> u64 \<times> u64 \<Rightarrow> u64 \<times> u64" where
  "muldiv_step d s = (case s of (rm, q) \<Rightarrow>
    if rm \<ge> d - rm then (rm - (d - rm), push_bit 1 q OR 1) else (rm + rm, push_bit 1 q))"

definition muldiv_q32 :: "u64 \<Rightarrow> u64 \<Rightarrow> u64" where
  "muldiv_q32 a d = snd ((muldiv_step d ^^ 32) (a, 0))"

fun taylor_loop :: "u64 \<Rightarrow> nat \<Rightarrow> u64 \<Rightarrow> u64" where
  "taylor_loop f_q32 0 s = s"
| "taylor_loop f_q32 (Suc k) s =
    (let trm = ants_reputation_fp_mul f_q32 s div of_nat (Suc k) in taylor_loop f_q32 k (ANTS_REP_FP_ONE - trm))"

definition taylor_expneg_q32 :: "u64 \<Rightarrow> u64" where
  "taylor_expneg_q32 f_q32 = taylor_loop f_q32 ANTS_REP_TAYLOR_TERMS ANTS_REP_FP_ONE"

definition expneg_ratio_q32 :: "u64 \<Rightarrow> u64 \<Rightarrow> u64" where
  "expneg_ratio_q32 t t_cap =
    (let n = t div t_cap; rm = t mod t_cap; f_q32 = muldiv_q32 rm t_cap;
         int_part = ants_reputation_decay_factor ANTS_REP_EXP_NEG1_Q32 n;
         frac_part = taylor_expneg_q32 f_q32 in
     ants_reputation_fp_mul int_part frac_part)"

definition ants_reputation_t_eff :: "u64 \<Rightarrow> u64 \<Rightarrow> u64 res" where
  "ants_reputation_t_eff t t_cap =
    (if t_cap = 0 then Inl ANTS_ERROR_INVALID_ARG
     else
       let expx = expneg_ratio_q32 t t_cap; one_minus = ANTS_REP_FP_ONE - expx in
       Inr (apply_decay t_cap one_minus))"

section \<open>Exact meaning on naturals\<close>

named_theorems fp_simps \<open>fixed-point operations read on natural numbers\<close>

lemma unat_FP_ONE [fp_simps]: "unat ANTS_REP_FP_ONE = 2 ^ 32"
  by (simp add: ANTS_REP_FP_ONE_def ANTS_REP_FP_BITS_def push_bit_eq_mult)

lemma fp_one_le [fp_simps]: "a \<ge> ANTS_REP_FP_ONE \<longleftrightarrow> 2 ^ 32 \<le> unat a"
  by (simp add: word_le_nat_alt unat_FP_ONE)

lemma unat_drop_bit_32: "unat (drop_bit 32 (a :: u64)) = unat a div 2 ^ 32"
  by (simp add: drop_bit_eq_div unat_div)

lemma prod_lt:
  fixes a b :: nat
  assumes "a < 2 ^ 32" "b < 2 ^ 32"
  shows "a * b < 2 ^ 64"
  using mult_strict_mono [OF assms] by simp

lemma fp_mul_exact [fp_simps]:
  assumes "unat a \<le> 2 ^ 32" "unat b \<le> 2 ^ 32"
  shows "unat (ants_reputation_fp_mul a b) = unat a * unat b div 2 ^ 32"
proof -
  consider "unat a = 2 ^ 32" | "unat a < 2 ^ 32" "unat b = 2 ^ 32" | "unat a < 2 ^ 32" "unat b < 2 ^ 32"
    using assms by linarith
  then show ?thesis
  proof cases
    case 3
    then show ?thesis using prod_lt [OF 3]
      by (simp add: ants_reputation_fp_mul_def fp_one_le not_le ANTS_REP_FP_BITS_def unat_drop_bit_32 unat_mult_fits)
  qed (simp_all add: ants_reputation_fp_mul_def fp_one_le)
qed

lemma mul_floor_le:
  fixes a b :: nat
  assumes "b \<le> 2 ^ 32"
  shows "a * b div 2 ^ 32 \<le> a"
proof -
  have "a * b div 2 ^ 32 \<le> a * 2 ^ 32 div 2 ^ 32" using assms by (intro div_le_mono mult_le_mono2)
  then show ?thesis by simp
qed

text \<open>Repeated truncated multiplication, without the early exit.\<close>

definition decay_steps :: "nat \<Rightarrow> nat \<Rightarrow> nat" where
  "decay_steps r n = ((\<lambda>x. x * r div 2 ^ 32) ^^ n) (2 ^ 32)"

lemma decay_steps_0 [simp]: "decay_steps r 0 = 2 ^ 32"
  by (simp add: decay_steps_def)

lemma decay_steps_Suc: "decay_steps r (Suc n) = decay_steps r n * r div 2 ^ 32"
  by (simp add: decay_steps_def)

lemma decay_loop_steps:
  assumes "unat r \<le> 2 ^ 32" "unat acc \<le> 2 ^ 32"
  shows "unat (decay_loop r n acc) = ((\<lambda>x. x * unat r div 2 ^ 32) ^^ n) (unat acc)"
  using assms(2)
proof (induction n arbitrary: acc)
  case (Suc n)
  let ?acc = "ants_reputation_fp_mul acc r" and ?f = "\<lambda>x. x * unat r div 2 ^ 32"
  have acc: "unat ?acc = ?f (unat acc)" using assms(1) Suc.prems by (simp add: fp_mul_exact)
  moreover have "unat ?acc \<le> 2 ^ 32" unfolding acc using mul_floor_le [OF assms(1), of "unat acc"] Suc.prems by linarith
  moreover have "(?f ^^ n) 0 = 0" by (induction n) simp_all
  ultimately show ?case using Suc.IH [of ?acc]
    by (simp del: funpow.simps add: Let_def funpow_Suc_right unat_eq_0 [symmetric])
qed simp

lemma decay_factor_steps [fp_simps]:
  assumes "unat r \<le> 2 ^ 32"
  shows "unat (ants_reputation_decay_factor r n) = decay_steps (unat r) (unat n)"
proof -
  have "((\<lambda>x :: nat. x) ^^ k) y = y" for k y by (induction k) simp_all
  then show ?thesis using assms
    by (auto simp: ants_reputation_decay_factor_def fp_one_le decay_loop_steps unat_FP_ONE decay_steps_def)
qed

lemma decay_steps_le: "r \<le> 2 ^ 32 \<Longrightarrow> decay_steps r n \<le> 2 ^ 32"
proof (induction n)
  case (Suc n)
  then show ?case using mul_floor_le [OF Suc.prems, of "decay_steps r n"] unfolding decay_steps_Suc by linarith
qed simp

lemma decay_steps_antimono: "r \<le> 2 ^ 32 \<Longrightarrow> m \<le> n \<Longrightarrow> decay_steps r n \<le> decay_steps r m"
  using lift_Suc_antimono_le [of "decay_steps r" m n] mul_floor_le [of r] unfolding decay_steps_Suc by blast

text \<open>Scaling never saturates: the two halves of the product add up without overflow.\<close>

lemma split_product:
  fixes v f :: nat
  shows "v div 2 ^ 32 * f + v mod 2 ^ 32 * f div 2 ^ 32 = v * f div 2 ^ 32"
proof -
  have "v * f = (v mod 2 ^ 32 + v div 2 ^ 32 * 2 ^ 32) * f" by (simp only: mod_div_mult_eq)
  also have "\<dots> = (v mod 2 ^ 32) * f + (v div 2 ^ 32 * f) * 2 ^ 32" by (simp only: distrib_left distrib_right ac_simps)
  finally have "v * f = (v mod 2 ^ 32) * f + (v div 2 ^ 32 * f) * 2 ^ 32" .
  then show ?thesis by simp
qed

lemma apply_decay_exact [fp_simps]:
  assumes "unat f \<le> 2 ^ 32"
  shows "unat (apply_decay v f) = unat v * unat f div 2 ^ 32"
proof (cases "unat f = 2 ^ 32")
  case False
  let ?hi = "drop_bit 32 v" and ?lo = "v AND 0xFFFFFFFF"
  have f: "unat f < 2 ^ 32" using assms False by linarith
  have hi: "unat ?hi = unat v div 2 ^ 32" "unat ?hi < 2 ^ 32"
    using unat_bound [of v] by (simp_all add: unat_drop_bit_32 less_mult_imp_div_less)
  have "(0xFFFFFFFF :: u64) = mask 32" by (simp add: mask_eq_exp_minus_1)
  then have "?lo = take_bit 32 v" by (simp add: take_bit_eq_mask)
  then have lo: "unat ?lo = unat v mod 2 ^ 32" by (simp add: take_bit_eq_mod unat_mod)
  have lo_term: "unat (drop_bit 32 (?lo * f)) = unat v mod 2 ^ 32 * unat f div 2 ^ 32"
    using prod_lt [OF _ f, of "unat v mod 2 ^ 32"] by (simp add: unat_drop_bit_32 unat_mult_fits lo)
  have hi_term: "unat (?hi * f) = unat v div 2 ^ 32 * unat f"
    using prod_lt [OF hi(2) f] by (simp add: unat_mult_fits hi(1))
  have fits: "\<not> (?hi \<noteq> 0 \<and> f > UINT64_MAX div ?hi)"
    using prod_lt [OF hi(2) f] by (auto simp: mult_overflow_iff mult.commute)
  have r: "unat v * unat f div 2 ^ 32 < 2 ^ 64"
    using order_le_less_trans [OF mul_floor_le [OF less_imp_le [OF f], of "unat v"] unat_bound [of v]] .
  have sum: "unat (?hi * f + drop_bit 32 (?lo * f)) = unat v * unat f div 2 ^ 32"
    using r by (subst unat_add_fits) (simp_all only: hi_term lo_term split_product)
  have "\<not> ?hi * f + drop_bit 32 (?lo * f) < ?hi * f"
    unfolding word_less_nat_alt sum using split_product [of "unat v" "unat f"] hi_term by linarith
  then show ?thesis using fits f sum
    by (simp only: apply_decay_def fp_one_le not_le if_False Let_def ANTS_REP_FP_BITS_def if_not_P)
next
  case True
  then have "ANTS_REP_FP_ONE \<le> f" by (simp only: fp_one_le)
  then have "apply_decay v f = v" by (simp only: apply_decay_def if_True)
  then show ?thesis unfolding True by simp
qed

section \<open>Long division and the series\<close>

text \<open>After \<open>i\<close> rounds the quotient and the remainder are those of \<open>a * 2 ^ i\<close> divided by \<open>d\<close>.\<close>

lemma double_divmod:
  fixes q rm d x :: nat
  assumes "x = q * d + rm" "rm < d"
  shows "2 * x = (if d \<le> 2 * rm then (2 * q + 1) * d + (2 * rm - d) else 2 * q * d + 2 * rm)"
  using assms by (simp add: algebra_simps)

lemma shift_in_bit: "unat q < 2 ^ 63 \<Longrightarrow> unat (push_bit 1 q OR 1 :: u64) = 2 * unat q + 1"
  "unat q < 2 ^ 63 \<Longrightarrow> unat (push_bit 1 q :: u64) = 2 * unat q"
proof -
  assume q: "unat q < 2 ^ 63"
  have p: "push_bit 1 q = 2 * q" by (simp add: push_bit_eq_mult)
  show d: "unat (push_bit 1 q :: u64) = 2 * unat q" unfolding p using q by (subst unat_mult_fits) simp_all
  have "push_bit 1 q OR 1 = push_bit 1 q + 1"
    unfolding p by (simp add: or_one_eq)
  then show "unat (push_bit 1 q OR 1 :: u64) = 2 * unat q + 1"
    using q d by (simp add: unat_add_fits)
qed

lemma muldiv_rounds:
  assumes "a < d" "i \<le> 32"
  shows "(muldiv_step d ^^ i) (a, 0) = (rm, q) \<Longrightarrow>
    unat a * 2 ^ i = unat q * unat d + unat rm \<and> unat rm < unat d \<and> unat q < 2 ^ i"
  using assms(2)
proof (induction i arbitrary: rm q)
  case 0
  then show ?case using assms(1) by (simp add: word_less_nat_alt)
next
  case (Suc i)
  obtain rm0 q0 where s0: "(muldiv_step d ^^ i) (a, 0) = (rm0, q0)" by fastforce
  with Suc have inv: "unat a * 2 ^ i = unat q0 * unat d + unat rm0" "unat rm0 < unat d" "unat q0 < 2 ^ i" by simp_all
  have "(2 :: nat) ^ i \<le> 2 ^ 32" using Suc.prems(2) by (intro power_increasing) simp_all
  then have q63: "unat q0 < 2 ^ 63" using inv(3) by simp
  have diff: "unat (d - rm0) = unat d - unat rm0" using inv(2) by (simp add: unat_diff word_le_nat_alt)
  have dbl: "unat a * 2 ^ Suc i = 2 * (unat a * 2 ^ i)" "(2 :: nat) ^ Suc i = 2 * 2 ^ i" by simp_all
  have step: "(rm, q) = muldiv_step d (rm0, q0)" using Suc.prems(1) by (simp add: s0)
  show ?case
  proof (cases "rm0 \<ge> d - rm0")
    case True
    then have le: "unat d \<le> 2 * unat rm0" using diff by (simp add: word_le_nat_alt)
    have rm: "unat rm = 2 * unat rm0 - unat d"
      using step True unat_diff [OF True] le inv(2) diff by (simp add: muldiv_step_def)
    have q: "unat q = 2 * unat q0 + 1" using step True shift_in_bit(1) [OF q63] by (simp add: muldiv_step_def)
    show ?thesis unfolding dbl rm q using double_divmod [OF inv(1,2)] le inv(2,3) by simp
  next
    case False
    then have lt: "2 * unat rm0 < unat d" using diff inv(2) by (simp add: word_le_nat_alt not_le)
    then have "unat (rm0 + rm0) = 2 * unat rm0" using unat_bound [of d] by (subst unat_add_fits) simp_all
    then have rm: "unat rm = 2 * unat rm0" using step False by (simp add: muldiv_step_def)
    have q: "unat q = 2 * unat q0" using step False shift_in_bit(2) [OF q63] by (simp add: muldiv_step_def)
    show ?thesis unfolding dbl rm q using double_divmod [OF inv(1,2)] lt inv(3) by simp
  qed
qed

lemma muldiv_exact [fp_simps]:
  assumes "a < d"
  shows "unat (muldiv_q32 a d) = unat a * 2 ^ 32 div unat d"
proof -
  obtain rm q where s: "(muldiv_step d ^^ 32) (a, 0) = (rm, q)" by (rule prod.exhaust)
  have q: "muldiv_q32 a d = q" unfolding muldiv_q32_def s by simp
  show ?thesis unfolding q using muldiv_rounds [OF assms order_refl s] by (intro div_nat_eqI [symmetric]) auto
qed

text \<open>The Horner scheme on naturals; the subtraction never underflows.\<close>

fun horner_nat :: "nat \<Rightarrow> nat \<Rightarrow> nat \<Rightarrow> nat" where
  "horner_nat f 0 s = s"
| "horner_nat f (Suc k) s = horner_nat f k (2 ^ 32 - f * s div 2 ^ 32 div Suc k)"

lemma taylor_loop_nat:
  assumes f: "unat f \<le> 2 ^ 32"
  shows "unat s \<le> 2 ^ 32 \<Longrightarrow> n \<le> 16 \<Longrightarrow> unat (taylor_loop f n s) = horner_nat (unat f) n (unat s)"
proof (induction n arbitrary: s)
  case (Suc k)
  let ?trm = "ants_reputation_fp_mul f s div of_nat (Suc k)"
  have k: "unat (of_nat (Suc k) :: u64) = Suc k"
    using Suc.prems(2) by (simp add: unsigned_of_nat take_bit_nat_eq_self_iff del: of_nat_Suc)
  have trm: "unat ?trm = unat f * unat s div 2 ^ 32 div Suc k"
    unfolding unat_div k using fp_mul_exact [OF f Suc.prems(1)] by simp
  have "unat ?trm \<le> unat f * unat s div 2 ^ 32" unfolding trm by (rule div_le_dividend)
  then have le: "unat ?trm \<le> 2 ^ 32" using mul_floor_le [OF Suc.prems(1), of "unat f"] f by linarith
  then have "unat (ANTS_REP_FP_ONE - ?trm) = 2 ^ 32 - unat ?trm"
    by (simp add: unat_diff word_le_nat_alt unat_FP_ONE)
  with Suc le trm show ?case by (simp add: Let_def del: of_nat_Suc)
qed simp

lemma horner_nat_le: "f \<le> 2 ^ 32 \<Longrightarrow> s \<le> 2 ^ 32 \<Longrightarrow> horner_nat f n s \<le> 2 ^ 32"
  by (induction n arbitrary: s) simp_all

section \<open>The real functions behind the integers\<close>

text \<open>The unit of the last place, and the value of a fixed-point number.\<close>

definition ulp :: real where "ulp = 1 / 2 ^ 32"
definition fpv :: "nat \<Rightarrow> real" where "fpv x = real x * ulp"

lemma fpv_one [simp]: "fpv (2 ^ 32) = 1" "fpv 4294967296 = 1"
  by (simp_all add: fpv_def ulp_def)

lemma fpv_nonneg [simp]: "0 \<le> fpv x"
  by (simp add: fpv_def ulp_def)

lemma fpv_le_one: "x \<le> 2 ^ 32 \<Longrightarrow> fpv x \<le> 1"
  by (simp add: fpv_def ulp_def)

lemma fpv_diff: "x \<le> 2 ^ 32 \<Longrightarrow> fpv (2 ^ 32 - x) = 1 - fpv x"
  by (simp add: fpv_def ulp_def of_nat_diff field_simps)

lemma div_real_floor:
  assumes "0 < k"
  shows "real x / real k - 1 \<le> real (x div k) \<and> real (x div k) \<le> real x / real k"
proof -
  have "real x = real (x div k) * real k + real (x mod k)" by (metis div_mult_mod_eq of_nat_add of_nat_mult)
  moreover have "real (x mod k) < real k" using assms by simp
  ultimately show ?thesis using assms by (simp add: field_simps)
qed

text \<open>One truncated multiplication and division loses less than one unit.\<close>

lemma fpv_mul_div:
  assumes "0 < k"
  shows "\<bar>fpv (a * b div 2 ^ 32 div k) - fpv a * fpv b / real k\<bar> \<le> ulp"
proof -
  have eq: "a * b div 2 ^ 32 div k = a * b div (2 ^ 32 * k)" by (simp only: div_mult2_eq)
  have "real (a * b) / real (2 ^ 32 * k) = fpv a * fpv b / real k / ulp"
    using assms by (simp add: fpv_def ulp_def field_simps)
  then have "\<bar>real (a * b div (2 ^ 32 * k)) - fpv a * fpv b / real k / ulp\<bar> \<le> 1"
    using div_real_floor [of "2 ^ 32 * k" "a * b"] assms by (simp add: abs_le_iff)
  then have "\<bar>real (a * b div (2 ^ 32 * k)) - fpv a * fpv b / real k / ulp\<bar> * ulp \<le> 1 * ulp"
    by (rule mult_right_mono) (simp add: ulp_def)
  moreover have "\<bar>real (a * b div (2 ^ 32 * k)) - fpv a * fpv b / real k / ulp\<bar> * ulp =
      \<bar>real (a * b div (2 ^ 32 * k)) * ulp - fpv a * fpv b / real k\<bar>"
    by (simp add: ulp_def abs_if field_simps)
  ultimately show ?thesis unfolding eq by (simp add: fpv_def [of "_ div _"])
qed

lemma fpv_mul: "\<bar>fpv (a * b div 2 ^ 32) - fpv a * fpv b\<bar> \<le> ulp"
  using fpv_mul_div [of 1 a b] by simp

lemma ulp_pos [simp]: "0 < ulp" "0 \<le> ulp"
  by (simp_all add: ulp_def)

text \<open>Replacing a factor in a product of numbers of the unit interval.\<close>

lemma product_error:
  fixes x y x' y' :: real
  assumes "0 \<le> x" "x \<le> 1" "\<bar>y - y'\<bar> \<le> e" "\<bar>x - x'\<bar> \<le> d" "0 \<le> y'" "y' \<le> c"
  shows "\<bar>x * y - x' * y'\<bar> \<le> e + d * c"
proof -
  have "x * y - x' * y' = x * (y - y') + (x - x') * y'" by (simp add: algebra_simps)
  then have "\<bar>x * y - x' * y'\<bar> \<le> \<bar>x * (y - y')\<bar> + \<bar>(x - x') * y'\<bar>" by (simp only: abs_triangle_ineq)
  also have "\<dots> \<le> 1 * e + d * c"
    unfolding abs_mult using assms by (intro add_mono mult_mono) (auto intro: order_trans [OF abs_ge_zero])
  finally show ?thesis by simp
qed

subsection \<open>The series\<close>

fun horner_real :: "real \<Rightarrow> nat \<Rightarrow> real \<Rightarrow> real" where
  "horner_real f 0 s = s"
| "horner_real f (Suc k) s = horner_real f k (1 - f * s / real (Suc k))"

lemma horner_real_sum: "horner_real f n s = (\<Sum>m<n. (- f) ^ m / fact m) + (- f) ^ n / fact n * s"
proof (induction n arbitrary: s)
  case (Suc n)
  have eq: "(- f) ^ Suc n / fact (Suc n) * s = - ((- f) ^ n / fact n * (f * s / real (Suc n)))"
    unfolding fact_Suc by (simp add: ac_simps del: of_nat_Suc)
  show ?case unfolding horner_real.simps Suc.IH sum.lessThan_Suc eq by (simp only: right_diff_distrib mult_1_right)
qed simp

lemma horner_error:
  assumes f: "f \<le> 2 ^ 32"
  shows "s \<le> 2 ^ 32 \<Longrightarrow> \<bar>fpv s - r\<bar> \<le> 2 * ulp \<Longrightarrow> \<bar>fpv (horner_nat f n s) - horner_real (fpv f) n r\<bar> \<le> 3 * ulp"
proof (induction n arbitrary: s r)
  case (Suc k)
  let ?s = "2 ^ 32 - f * s div 2 ^ 32 div Suc k" and ?r = "1 - fpv f * r / real (Suc k)"
  have le: "f * s div 2 ^ 32 div Suc k \<le> 2 ^ 32"
    using div_le_dividend [of "f * s div 2 ^ 32" "Suc k"] mul_floor_le [OF Suc.prems(1), of f] f by linarith
  have "\<bar>fpv f * fpv s / real (Suc k) - fpv f * r / real (Suc k)\<bar> = fpv f * \<bar>fpv s - r\<bar> / real (Suc k)"
    by (simp add: abs_mult diff_divide_distrib [symmetric] right_diff_distrib [symmetric])
  also have "\<dots> \<le> 1 * (2 * ulp) / real (Suc k)"
    using Suc.prems(2) fpv_le_one [OF f] by (intro divide_right_mono mult_mono) simp_all
  finally have step: "\<bar>fpv ?s - ?r\<bar> \<le> ulp + 2 * ulp / real (Suc k)"
    using fpv_mul_div [of "Suc k" f s] unfolding fpv_diff [OF le] by linarith
  show ?case
  proof (cases k)
    case 0
    with step show ?thesis by simp
  next
    case (Suc j)
    have "2 * ulp / real (Suc k) \<le> 2 * ulp / 2" using Suc by (intro divide_left_mono) simp_all
    then show ?thesis using step Suc.IH [of ?s ?r] by simp
  qed
qed simp

lemma exp_series_error:
  fixes x :: real
  assumes "0 \<le> x" "x \<le> 1"
  shows "\<bar>exp (- x) - (\<Sum>m<n. (- x) ^ m / fact m)\<bar> \<le> 3 / fact n"
proof -
  obtain t where t: "\<bar>t\<bar> \<le> \<bar>- x\<bar>" "exp (- x) = (\<Sum>m<n. (- x) ^ m / fact m) + exp t / fact n * (- x) ^ n"
    using Maclaurin_exp_le [of "- x" n] by blast
  have "exp t \<le> 3" using t(1) assms exp_le order_trans [of "exp t" "exp 1" 3] by simp
  moreover have "\<bar>(- x) ^ n\<bar> \<le> 1" using assms by (simp add: power_abs power_le_one)
  ultimately have "\<bar>exp t / fact n * (- x) ^ n\<bar> \<le> 3 / fact n * 1"
    unfolding abs_mult by (intro mult_mono) (simp_all add: divide_right_mono)
  then show ?thesis unfolding t(2) by simp
qed

lemma taylor_error:
  assumes "unat f \<le> 2 ^ 32"
  shows "\<bar>fpv (unat (taylor_expneg_q32 f)) - exp (- fpv (unat f))\<bar> \<le> 4 * ulp" "unat (taylor_expneg_q32 f) \<le> 2 ^ 32"
proof -
  let ?x = "fpv (unat f)"
  have nat: "unat (taylor_expneg_q32 f) = horner_nat (unat f) 16 (2 ^ 32)"
    unfolding taylor_expneg_q32_def ANTS_REP_TAYLOR_TERMS_def using taylor_loop_nat [OF assms, of ANTS_REP_FP_ONE 16] unat_FP_ONE by simp
  then show "unat (taylor_expneg_q32 f) \<le> 2 ^ 32" using horner_nat_le [OF assms] by simp
  have "horner_real ?x 16 1 = (\<Sum>m<17. (- ?x) ^ m / fact m)"
    unfolding horner_real_sum using sum.lessThan_Suc [of "\<lambda>m. (- ?x) ^ m / fact m" 16] by simp
  moreover have "(3 :: real) / fact 17 \<le> ulp" by (simp add: ulp_def fact_numeral)
  ultimately have "\<bar>exp (- ?x) - horner_real ?x 16 1\<bar> \<le> ulp"
    using exp_series_error [OF fpv_nonneg fpv_le_one [OF assms], of 17] by simp
  moreover have "\<bar>fpv (horner_nat (unat f) 16 (2 ^ 32)) - horner_real ?x 16 1\<bar> \<le> 3 * ulp"
    by (rule horner_error [OF assms]) (simp_all del: power_numeral)
  ultimately show "\<bar>fpv (unat (taylor_expneg_q32 f)) - exp (- ?x)\<bar> \<le> 4 * ulp" unfolding nat by linarith
qed

subsection \<open>The exponential\<close>

lemma exp_neg1_error: "\<bar>fpv (unat ANTS_REP_EXP_NEG1_Q32) - exp (- 1)\<bar> \<le> ulp"
proof -
  have sum: "(\<Sum>m<16. (- 1 :: real) ^ m / fact m) = 34361893981 / 93405312000"
    by (simp add: eval_nat_numeral)
  have "(3 :: real) / fact 16 \<le> 1 / 17179869184" by (simp add: fact_numeral)
  then have "\<bar>exp (- 1) - 34361893981 / 93405312000\<bar> \<le> (1 / 17179869184 :: real)"
    using exp_series_error [of 1 16] unfolding sum by linarith
  moreover have "\<bar>fpv 1580030169 - 34361893981 / 93405312000\<bar> \<le> 1 / 8589934592" by (simp add: fpv_def ulp_def)
  moreover have "unat ANTS_REP_EXP_NEG1_Q32 = 1580030169" by (simp add: ANTS_REP_EXP_NEG1_Q32_def)
  moreover have "ulp = 1 / 4294967296" by (simp add: ulp_def)
  ultimately show ?thesis by (simp only:)
qed

lemma exp_minus_half: "exp (- 1 :: real) \<le> 1 / 2"
  using exp_ge_add_one_self [of 1] by (simp add: exp_minus inverse_eq_divide divide_le_eq)

lemma decay_exp_error: "\<bar>fpv (decay_steps (unat ANTS_REP_EXP_NEG1_Q32) n) - exp (- real n)\<bar> \<le> 4 * ulp"
proof (induction n)
  case (Suc n)
  let ?r = "unat ANTS_REP_EXP_NEG1_Q32"
  have r: "?r \<le> 2 ^ 32" by (simp add: ANTS_REP_EXP_NEG1_Q32_def)
  have "exp (- real (Suc n)) = exp (- real n) * exp (- 1)" by (simp add: exp_add [symmetric])
  moreover have "\<bar>fpv (decay_steps ?r n) * fpv ?r - exp (- real n) * exp (- 1)\<bar> \<le> ulp + 4 * ulp * (1 / 2)"
    by (rule product_error [OF fpv_nonneg fpv_le_one [OF decay_steps_le [OF r]] exp_neg1_error Suc.IH exp_ge_zero exp_minus_half])
  ultimately show ?case using fpv_mul [of "decay_steps ?r n" ?r] unfolding decay_steps_Suc by linarith
qed simp

lemma exp_lipschitz:
  fixes x y :: real
  assumes "0 \<le> x" "x \<le> y"
  shows "\<bar>exp (- x) - exp (- y)\<bar> \<le> y - x"
proof -
  have eq: "exp (- x) - exp (- y) = exp (- x) * (1 - exp (- (y - x)))" by (simp add: right_diff_distrib exp_add [symmetric])
  have b: "1 - exp (- (y - x)) \<le> y - x" "0 \<le> 1 - exp (- (y - x))" using exp_ge_add_one_self [of "x - y"] assms unfolding minus_diff_eq by (linarith, simp)
  have "exp (- x) * (1 - exp (- (y - x))) \<le> 1 * (y - x)" using assms b by (intro mult_mono) simp_all
  then show ?thesis unfolding eq using b by simp
qed

lemma muldiv_real:
  assumes "a < d"
  shows "fpv (unat (muldiv_q32 a d)) \<le> real (unat a) / real (unat d)"
    "real (unat a) / real (unat d) \<le> fpv (unat (muldiv_q32 a d)) + ulp" "unat (muldiv_q32 a d) \<le> 2 ^ 32"
proof -
  have lt: "unat a < unat d" using assms by (simp add: word_less_nat_alt)
  have "real (unat a * 2 ^ 32) / real (unat d) * ulp = real (unat a) / real (unat d)" by (simp add: ulp_def)
  moreover have fl: "real (unat a * 2 ^ 32) / real (unat d) - 1 \<le> real (unat a * 2 ^ 32 div unat d)"
    "real (unat a * 2 ^ 32 div unat d) \<le> real (unat a * 2 ^ 32) / real (unat d)"
    using div_real_floor [of "unat d" "unat a * 2 ^ 32"] lt by linarith+
  note mult_right_mono [OF fl(1) ulp_pos(2)] mult_right_mono [OF fl(2) ulp_pos(2)]
  ultimately show "fpv (unat (muldiv_q32 a d)) \<le> real (unat a) / real (unat d)"
    "real (unat a) / real (unat d) \<le> fpv (unat (muldiv_q32 a d)) + ulp"
    unfolding fpv_def muldiv_exact [OF assms] by (simp_all only: left_diff_distrib mult_1)
  have "unat a * 2 ^ 32 div unat d \<le> unat d * 2 ^ 32 div unat d" using lt by (intro div_le_mono mult_le_mono1) simp
  then show "unat (muldiv_q32 a d) \<le> 2 ^ 32" unfolding muldiv_exact [OF assms] using lt by simp
qed

lemma quotient_split: "x = n * c + r \<Longrightarrow> 0 < c \<Longrightarrow> x / c = n + r / (c :: real)"
  by (simp add: add_divide_distrib)

lemma scaled_difference: "0 \<le> c \<Longrightarrow> c * \<bar>a - b\<bar> = \<bar>c * (1 - a) - c * (1 - b :: real)\<bar>"
  by (metis abs_minus_commute abs_mult abs_of_nonneg diff_diff_eq2 diff_add_cancel right_diff_distrib add_diff_cancel_left)

lemma expneg_error:
  assumes "t_cap \<noteq> 0"
  shows "\<bar>fpv (unat (expneg_ratio_q32 t t_cap)) - exp (- (real (unat t) / real (unat t_cap)))\<bar> \<le> 10 * ulp"
    "unat (expneg_ratio_q32 t t_cap) \<le> 2 ^ 32"
proof -
  let ?n = "t div t_cap" and ?f = "muldiv_q32 (t mod t_cap) t_cap"
  let ?e = "decay_steps (unat ANTS_REP_EXP_NEG1_Q32) (unat ?n)" and ?x = "real (unat (t mod t_cap)) / real (unat t_cap)"
  have r: "unat ANTS_REP_EXP_NEG1_Q32 \<le> 2 ^ 32" by (simp add: ANTS_REP_EXP_NEG1_Q32_def)
  have cap: "0 < unat t_cap" using assms by (simp add: unat_gt_0)
  have lt: "t mod t_cap < t_cap" using cap by (simp add: word_less_nat_alt unat_mod)
  note f = muldiv_real [OF lt]
  note e = decay_steps_le [OF r, of "unat ?n"] and fr = taylor_error [OF f(3)]
  have x: "0 \<le> ?x" by (intro divide_nonneg_nonneg of_nat_0_le_iff)
  have frac: "\<bar>fpv (unat (taylor_expneg_q32 ?f)) - exp (- ?x)\<bar> \<le> 5 * ulp"
    using fr(1) exp_lipschitz [OF fpv_nonneg f(1)] f(2) by linarith
  have eq: "unat (expneg_ratio_q32 t t_cap) = ?e * unat (taylor_expneg_q32 ?f) div 2 ^ 32"
    unfolding expneg_ratio_q32_def Let_def using decay_factor_steps [OF r, of ?n] e fr(2) by (simp add: fp_mul_exact)
  show "unat (expneg_ratio_q32 t t_cap) \<le> 2 ^ 32" unfolding eq using mul_floor_le [OF fr(2), of ?e] e by linarith
  have "real (unat t) = real (unat ?n) * real (unat t_cap) + real (unat (t mod t_cap))"
    unfolding unat_div unat_mod by (metis div_mult_mod_eq of_nat_add of_nat_mult)
  then have "real (unat t) / real (unat t_cap) = real (unat ?n) + ?x"
    by (rule quotient_split) (simp only: of_nat_0_less_iff cap)
  then have exact: "exp (- (real (unat t) / real (unat t_cap))) = exp (- real (unat ?n)) * exp (- ?x)"
    by (simp only: minus_add_distrib exp_add)
  have "\<bar>fpv ?e * fpv (unat (taylor_expneg_q32 ?f)) - exp (- real (unat ?n)) * exp (- ?x)\<bar> \<le> 5 * ulp + 4 * ulp * 1"
    by (rule product_error [OF fpv_nonneg fpv_le_one [OF e] frac decay_exp_error exp_ge_zero]) (use x in simp)
  then show "\<bar>fpv (unat (expneg_ratio_q32 t t_cap)) - exp (- (real (unat t) / real (unat t_cap)))\<bar> \<le> 10 * ulp"
    unfolding exact eq using fpv_mul [of ?e "unat (taylor_expneg_q32 ?f)"] by linarith
qed

lemma t_eff_eq:
  assumes "t_cap \<noteq> 0"
  obtains w where "ants_reputation_t_eff t t_cap = Inr w"
    "unat w = unat t_cap * (2 ^ 32 - unat (expneg_ratio_q32 t t_cap)) div 2 ^ 32"
proof -
  let ?x = "expneg_ratio_q32 t t_cap"
  have "unat (ANTS_REP_FP_ONE - ?x) = 2 ^ 32 - unat ?x"
    using expneg_error(2) [OF assms, of t] by (simp add: unat_diff word_le_nat_alt unat_FP_ONE)
  then have "unat (apply_decay t_cap (ANTS_REP_FP_ONE - ?x)) = unat t_cap * (2 ^ 32 - unat ?x) div 2 ^ 32"
    using apply_decay_exact [of "ANTS_REP_FP_ONE - ?x" t_cap] by simp
  then show ?thesis using that assms by (simp add: ants_reputation_t_eff_def Let_def)
qed

lemma t_eff_le_cap: "ants_reputation_t_eff t t_cap = Inr w \<Longrightarrow> w \<le> t_cap"
proof -
  assume w: "ants_reputation_t_eff t t_cap = Inr w"
  then have "t_cap \<noteq> 0" by (auto simp: ants_reputation_t_eff_def)
  then show ?thesis using t_eff_eq [of t_cap t] w mul_floor_le [of "2 ^ 32 - unat (expneg_ratio_q32 t t_cap)" "unat t_cap"]
    by (metis diff_le_self sum.inject(2) word_le_nat_alt)
qed

section \<open>Properties\<close>

text \<open>C39. The fork-choice weight is the saturating function of the tenure, up to rounding: for every
  tenure and every positive cap the integer recipe returns a weight that is at most the cap and
  differs from \<open>t_cap * (1 - exp (- t / t_cap))\<close> by at most one plus ten units in the 32nd
  fractional bit of the cap. No intermediate step overflows.\<close>

theorem t_eff_accurate:
  assumes "t_cap \<noteq> 0"
  shows "\<exists>w. ants_reputation_t_eff t t_cap = Inr w \<and> w \<le> t_cap \<and>
    \<bar>real (unat w) - real (unat t_cap) * (1 - exp (- (real (unat t) / real (unat t_cap))))\<bar>
      \<le> 1 + 10 * real (unat t_cap) / 2 ^ 32"
proof -
  let ?x = "unat (expneg_ratio_q32 t t_cap)" and ?c = "real (unat t_cap)" and ?e = "exp (- (real (unat t) / real (unat t_cap)))"
  obtain w where w: "ants_reputation_t_eff t t_cap = Inr w" "unat w = unat t_cap * (2 ^ 32 - ?x) div 2 ^ 32"
    using t_eff_eq [OF assms] by blast
  have "real (unat t_cap * (2 ^ 32 - ?x)) / real (2 ^ 32) = ?c * (1 - fpv ?x)"
    using fpv_diff [OF expneg_error(2) [OF assms], of t] by (simp add: fpv_def ulp_def)
  moreover have "0 < (2 :: nat) ^ 32" by simp
  ultimately have "\<bar>real (unat w) - ?c * (1 - fpv ?x)\<bar> \<le> 1"
    using div_real_floor [of "2 ^ 32" "unat t_cap * (2 ^ 32 - ?x)"] unfolding w(2) by linarith
  moreover have "?c * \<bar>fpv ?x - ?e\<bar> \<le> ?c * (10 * ulp)" by (intro mult_left_mono expneg_error(1) [OF assms] of_nat_0_le_iff)
  moreover have "?c * \<bar>fpv ?x - ?e\<bar> = \<bar>?c * (1 - fpv ?x) - ?c * (1 - ?e)\<bar>"
    by (rule scaled_difference) (rule of_nat_0_le_iff)
  moreover have "?c * (10 * ulp) = 10 * ?c / 2 ^ 32" by (simp add: ulp_def)
  ultimately have "\<bar>real (unat w) - ?c * (1 - ?e)\<bar> \<le> 1 + 10 * ?c / 2 ^ 32" by linarith
  then show ?thesis using w(1) t_eff_le_cap by blast
qed

theorem t_eff_accurate_witness:
  "\<exists>w. ants_reputation_t_eff 2000000000 2000000000 = Inr w \<and> w \<le> 2000000000 \<and>
    \<bar>real (unat w) - real (unat (2000000000 :: u64)) * (1 - exp (- (real (unat (2000000000 :: u64)) / real (unat (2000000000 :: u64)))))\<bar>
      \<le> 1 + 10 * real (unat (2000000000 :: u64)) / 2 ^ 32"
  by (rule t_eff_accurate) simp


end
