(* ===== verification/Chain_Rules.thy ===== *)
theory Chain_Rules
  imports Chain_Scan Chain_Committee Fixed_Point
begin

text \<open>
  The remaining rules of \<^verbatim>\<open>reputation/chain/src/chain.c\<close>: finality of a block by two thirds of its
  committee, the weight of a fork and the choice between two forks, the verification of a public
  randomness beacon, the seeds derived from it, the proposer of a height, and the composition of a
  block from what a member sees. Signature checks, SHA-256, the BLS check and key derivation are
  parameters.
\<close>

section \<open>Finality\<close>

definition ANTS_CHAIN_COMMITTEE_K_MAX :: nat where "ANTS_CHAIN_COMMITTEE_K_MAX = 64"
definition ANTS_CHAIN_SIG_SIZE :: nat where "ANTS_CHAIN_SIG_SIZE = 64"
definition ANTS_CHAIN_FINALITY_NUM :: nat where "ANTS_CHAIN_FINALITY_NUM = 2"
definition ANTS_CHAIN_FINALITY_DEN :: nat where "ANTS_CHAIN_FINALITY_DEN = 3"

text \<open>One round of the count, on the valid signatures so far and the index of the next signature.\<close>

definition finality_step :: "(bytes \<Rightarrow> bytes \<Rightarrow> bytes \<Rightarrow> bool) \<Rightarrow> bytes \<Rightarrow> bytes list \<Rightarrow> bytes \<Rightarrow> bool list \<Rightarrow> nat \<Rightarrow> nat \<times> nat \<Rightarrow> nat \<times> nat" where
  "finality_step sig_ok block_hash committee_pubkeys attestations signed_mask i s = (case s of (valid, sig_idx) \<Rightarrow>
    if \<not> signed_mask ! i then (valid, sig_idx)
    else (if sig_ok (committee_pubkeys ! i) block_hash (take ANTS_CHAIN_SIG_SIZE (drop (sig_idx * ANTS_CHAIN_SIG_SIZE) attestations))
          then valid + 1 else valid, sig_idx + 1))"

definition ants_chain_finality_verify :: "(bytes \<Rightarrow> bytes \<Rightarrow> bytes \<Rightarrow> bool) \<Rightarrow> bytes \<Rightarrow> bytes list \<Rightarrow> nat \<Rightarrow> bytes \<Rightarrow> bool list \<Rightarrow> bool res" where
  "ants_chain_finality_verify sig_ok block_hash committee_pubkeys k attestations signed_mask =
    (if k = 0 \<or> k > ANTS_CHAIN_COMMITTEE_K_MAX then Inl ANTS_ERROR_INVALID_ARG
     else
       let n_signers = length (filter (\<lambda>i. signed_mask ! i) [0..<k]) in
       if length attestations \<noteq> n_signers * ANTS_CHAIN_SIG_SIZE then Inl ANTS_ERROR_INVALID_ARG
       else
         let threshold = (ANTS_CHAIN_FINALITY_NUM * k + (ANTS_CHAIN_FINALITY_DEN - 1)) div ANTS_CHAIN_FINALITY_DEN;
             valid = fst (fold (finality_step sig_ok block_hash committee_pubkeys attestations signed_mask) [0..<k] (0, 0)) in
         Inr (valid \<ge> threshold))"

section \<open>Fork choice\<close>

definition ANTS_CHAIN_FORK_A :: int where "ANTS_CHAIN_FORK_A = 0"
definition ANTS_CHAIN_FORK_B :: int where "ANTS_CHAIN_FORK_B = 1"
definition ANTS_CHAIN_FORK_SOCIAL_SCHELLING :: int where "ANTS_CHAIN_FORK_SOCIAL_SCHELLING = 2"

fun fork_sum :: "u64 \<Rightarrow> u64 list \<Rightarrow> u64 \<Rightarrow> u64 res" where
  "fork_sum t_cap [] acc = Inr acc"
| "fork_sum t_cap (t # ts) acc =
    (case ants_reputation_t_eff t t_cap of Inl e \<Rightarrow> Inl e
     | Inr te \<Rightarrow> if acc > UINT64_MAX - te then Inl ANTS_ERROR_OVERFLOW else fork_sum t_cap ts (acc + te))"

definition ants_chain_fork_weight :: "u64 list \<Rightarrow> u64 \<Rightarrow> u64 res" where
  "ants_chain_fork_weight validator_tenures t_cap =
    (if t_cap = 0 then Inl ANTS_ERROR_INVALID_ARG else fork_sum t_cap validator_tenures 0)"

definition ants_chain_fork_choice :: "u64 \<Rightarrow> u64 \<Rightarrow> u64 \<Rightarrow> u64 \<Rightarrow> u64 \<Rightarrow> int res" where
  "ants_chain_fork_choice weight_a weight_b total_t_eff theta_num theta_den =
    (if theta_den = 0 then Inl ANTS_ERROR_INVALID_ARG
     else if weight_a > total_t_eff \<or> weight_b > total_t_eff then Inl ANTS_ERROR_INVALID_ARG
     else
       let q = total_t_eff div theta_den; r = total_t_eff mod theta_den;
           thresh = q * theta_num + (r * theta_num) div theta_den;
           a_clears = weight_a > thresh; b_clears = weight_b > thresh in
       Inr (if a_clears \<and> b_clears then ANTS_CHAIN_FORK_SOCIAL_SCHELLING
            else if weight_a \<ge> weight_b then ANTS_CHAIN_FORK_A else ANTS_CHAIN_FORK_B))"

section \<open>Beacon and seeds\<close>

definition ANTS_CHAIN_BEACON_RANDOMNESS_SIZE :: nat where "ANTS_CHAIN_BEACON_RANDOMNESS_SIZE = 32"

record ants_chain_beacon =
  bc_round :: u64
  bc_randomness :: bytes
  bc_signature :: bytes
  bc_previous_signature :: bytes

definition write_be64 :: "u64 \<Rightarrow> bytes" where
  "write_be64 v = [ucast (drop_bit 56 v), ucast (drop_bit 48 v), ucast (drop_bit 40 v), ucast (drop_bit 32 v),
    ucast (drop_bit 24 v), ucast (drop_bit 16 v), ucast (drop_bit 8 v), ucast v]"

text \<open>\<open>bls_verify\<close> is the return code of \<^verbatim>\<open>ants_bls_verify\<close> on public key, message and signature.\<close>

definition ants_chain_beacon_verify ::
    "(bytes \<Rightarrow> bytes) \<Rightarrow> (bytes \<Rightarrow> bytes \<Rightarrow> bytes \<Rightarrow> ants_error) \<Rightarrow> ants_chain_beacon \<Rightarrow> bytes \<Rightarrow> bool res" where
  "ants_chain_beacon_verify sha256 bls_verify beacon drand_pubkey =
    (if bc_round beacon < 2 then Inl ANTS_ERROR_INVALID_ARG
     else
       let digest = sha256 (bc_previous_signature beacon @ write_be64 (bc_round beacon));
           err = bls_verify drand_pubkey digest (bc_signature beacon) in
       if err = ANTS_ERROR_MALFORMED then Inr False
       else if err \<noteq> ANTS_OK then Inl err
       else if memcmp (sha256 (bc_signature beacon)) (bc_randomness beacon) ANTS_CHAIN_BEACON_RANDOMNESS_SIZE \<noteq> 0 then Inr False
       else Inr True)"

definition vrf_seed_derive :: "(string \<Rightarrow> bytes \<Rightarrow> bytes) \<Rightarrow> string \<Rightarrow> bytes \<Rightarrow> u64 \<Rightarrow> bytes option \<Rightarrow> bytes" where
  "vrf_seed_derive derive_key ctx prev_block_hash height randomness =
    derive_key ctx (prev_block_hash @ write_be64 height @ (case randomness of None \<Rightarrow> [] | Some r \<Rightarrow> r))"

definition ants_chain_vrf_seed :: "(string \<Rightarrow> bytes \<Rightarrow> bytes) \<Rightarrow> bytes \<Rightarrow> u64 \<Rightarrow> bytes \<Rightarrow> bytes" where
  "ants_chain_vrf_seed derive_key prev_block_hash height randomness =
    vrf_seed_derive derive_key ''ants-v1-vrf-seed'' prev_block_hash height (Some randomness)"

definition ants_chain_vrf_seed_degraded :: "(string \<Rightarrow> bytes \<Rightarrow> bytes) \<Rightarrow> bytes \<Rightarrow> u64 \<Rightarrow> bytes" where
  "ants_chain_vrf_seed_degraded derive_key prev_block_hash height =
    vrf_seed_derive derive_key ''ants-v1-vrf-seed-degraded'' prev_block_hash height None"

section \<open>Proposals\<close>

definition ants_chain_proposer :: "u64 \<Rightarrow> nat \<Rightarrow> nat res" where
  "ants_chain_proposer height k =
    (if k = 0 \<or> k > ANTS_CHAIN_COMMITTEE_K_MAX then Inl ANTS_ERROR_INVALID_ARG else Inr (unat (height mod of_nat k)))"

text \<open>The second component is \<^verbatim>\<open>*out_n_findings\<close>, when it is written.\<close>

definition ants_chain_block_propose :: "(bytes \<Rightarrow> bytes) \<Rightarrow> u64 \<Rightarrow> bytes \<Rightarrow> u64 \<Rightarrow> u64 \<Rightarrow> bool \<Rightarrow> bytes list \<Rightarrow> ants_chain_event list \<Rightarrow> nat \<Rightarrow>
    ants_chain_block res \<times> nat option" where
  "ants_chain_block_propose H height prev_block_hash epoch cutoff_time degraded_seed content_ids events findings_cap =
    (case ants_chain_confirmed_root H content_ids of Inl e \<Rightarrow> (Inl e, None)
     | Inr mroot \<Rightarrow>
       (case ants_chain_pattern_scan events cutoff_time findings_cap of
          (Inl e, n) \<Rightarrow> (Inl e, Some n)
        | (Inr findings, n) \<Rightarrow>
          if n > ANTS_CHAIN_MAX_PATTERN_FINDINGS then (Inl ANTS_ERROR_INVALID_ARG, Some n)
          else (Inr \<lparr>bk_height = height, bk_prev_block_hash = prev_block_hash, bk_degraded_seed = degraded_seed,
                 bk_summary = \<lparr>es_epoch = epoch, es_cutoff_time = cutoff_time, es_confirmed_proofs = mroot, es_findings = findings\<rparr>\<rparr>, Some n)))"

section \<open>Quorums\<close>

text \<open>The signature of member \<open>i\<close> among the packed ones, and the members whose signature is valid.\<close>

definition packed_sig :: "bytes \<Rightarrow> bool list \<Rightarrow> nat \<Rightarrow> bytes" where
  "packed_sig atts msk i = take ANTS_CHAIN_SIG_SIZE (drop (length (filter (\<lambda>j. msk ! j) [0..<i]) * ANTS_CHAIN_SIG_SIZE) atts)"

definition attesters :: "(bytes \<Rightarrow> bytes \<Rightarrow> bytes \<Rightarrow> bool) \<Rightarrow> bytes \<Rightarrow> bytes list \<Rightarrow> nat \<Rightarrow> bytes \<Rightarrow> bool list \<Rightarrow> nat set" where
  "attesters sig_ok h pks k atts msk = {i. i < k \<and> msk ! i \<and> sig_ok (pks ! i) h (packed_sig atts msk i)}"

lemma finality_count:
  "fold (finality_step sig_ok h pks atts msk) [0..<n] (0, 0) = (card (attesters sig_ok h pks n atts msk), length (filter (\<lambda>j. msk ! j) [0..<n]))"
proof (induction n)
  case (Suc n)
  let ?ok = "msk ! n \<and> sig_ok (pks ! n) h (packed_sig atts msk n)"
  have sub: "attesters sig_ok h pks (Suc n) atts msk = (if ?ok then insert n (attesters sig_ok h pks n atts msk) else attesters sig_ok h pks n atts msk)"
    by (auto simp: attesters_def less_Suc_eq)
  have "n \<notin> attesters sig_ok h pks n atts msk" "finite (attesters sig_ok h pks n atts msk)" by (simp_all add: attesters_def)
  then have "finality_step sig_ok h pks atts msk n (card (attesters sig_ok h pks n atts msk), length (filter (\<lambda>j. msk ! j) [0..<n])) =
      (card (attesters sig_ok h pks (Suc n) atts msk), length (filter (\<lambda>j. msk ! j) [0..<Suc n]))"
    by (simp add: finality_step_def sub packed_sig_def)
  then show ?case by (simp add: Suc)
qed (simp add: attesters_def)

lemma finality_exact:
  "ants_chain_finality_verify sig_ok h pks k atts msk = Inr True \<longleftrightarrow>
    0 < k \<and> k \<le> ANTS_CHAIN_COMMITTEE_K_MAX \<and> length atts = length (filter (\<lambda>j. msk ! j) [0..<k]) * ANTS_CHAIN_SIG_SIZE \<and>
    2 * k \<le> 3 * card (attesters sig_ok h pks k atts msk)"
proof -
  have "(2 * k + 2) div 3 \<le> v \<longleftrightarrow> 2 * k \<le> 3 * v" for v by linarith
  then show ?thesis
    by (auto simp: ants_chain_finality_verify_def Let_def finality_count ANTS_CHAIN_FINALITY_NUM_def ANTS_CHAIN_FINALITY_DEN_def)
qed

lemma quorum_overlap:
  assumes "A \<subseteq> {..<k}" "B \<subseteq> {..<k}" "2 * k \<le> 3 * card A" "2 * k \<le> 3 * card (B :: nat set)"
  shows "k \<le> 3 * card (A \<inter> B)"
proof -
  have "finite A" "finite B" using assms finite_subset by blast+
  then have "card A + card B = card (A \<union> B) + card (A \<inter> B)" by (rule card_Un_Int)
  moreover have "card (A \<union> B) \<le> card {..<k}" using assms by (intro card_mono) auto
  ultimately show ?thesis using assms by simp
qed

section \<open>Forks\<close>

definition weights :: "u64 \<Rightarrow> u64 list \<Rightarrow> nat" where
  "weights t_cap ts = (\<Sum>t \<leftarrow> ts. case ants_reputation_t_eff t t_cap of Inl _ \<Rightarrow> 0 | Inr w \<Rightarrow> unat w)"

lemma fork_sum_exact:
  assumes "t_cap \<noteq> 0"
  shows "fork_sum t_cap ts acc =
    (if unat acc + weights t_cap ts < 2 ^ 64 then Inr (of_nat (unat acc + weights t_cap ts)) else Inl ANTS_ERROR_OVERFLOW)"
proof (induction ts arbitrary: acc)
  case Nil
  then show ?case using unat_bound [of acc] by (simp add: weights_def)
next
  case (Cons t ts)
  obtain w where w: "ants_reputation_t_eff t t_cap = Inr w" using t_eff_eq [OF assms] by blast
  have ws: "weights t_cap (t # ts) = unat w + weights t_cap ts" by (simp add: weights_def w)
  show ?case
  proof (cases "acc > UINT64_MAX - w")
    case True
    then show ?thesis by (simp add: w ws add_overflow_iff)
  next
    case False
    then have "unat (acc + w) = unat acc + unat w" by (simp add: add_overflow_iff unat_add_fits add.commute)
    with False show ?thesis using Cons.IH [of "acc + w"] by (simp add: w ws add.assoc)
  qed
qed

lemma threshold_exact:
  assumes "num < den" "den \<le> 2 ^ 32"
  shows "unat (tot div den * num + tot mod den * num div den :: u64) = unat tot * unat num div unat den"
proof -
  let ?T = "unat tot" and ?n = "unat num" and ?d = "unat den"
  have d: "0 < ?d" "?n < ?d" "?d \<le> 2 ^ 32" using assms by (simp_all add: word_less_nat_alt word_le_nat_alt)
  have "?T * ?n = ?T div ?d * ?n * ?d + ?T mod ?d * ?n"
    using arg_cong [OF div_mult_mod_eq [of ?T ?d], of "\<lambda>x. x * ?n"] by (simp only: distrib_left distrib_right ac_simps)
  then have split: "?T * ?n div ?d = ?T div ?d * ?n + ?T mod ?d * ?n div ?d" using d by simp
  have le: "?T * ?n div ?d < 2 ^ 64"
  proof -
    have "?T * ?n div ?d \<le> ?T * ?d div ?d" using d by (intro div_le_mono mult_le_mono2) simp
    then show ?thesis using d unat_bound [of tot] by simp
  qed
  have "?T mod ?d * ?n < ?d * ?d" using d by (intro mult_strict_mono) simp_all
  also have "\<dots> \<le> 2 ^ 32 * 2 ^ 32" using d by (intro mult_le_mono) simp_all
  finally have "unat (tot mod den * num) = ?T mod ?d * ?n" by (subst unat_mult_fits) (simp_all add: unat_mod)
  moreover have "unat (tot div den * num) = ?T div ?d * ?n" using le split by (subst unat_mult_fits) (simp_all add: unat_div)
  ultimately show ?thesis using le by (subst unat_add_fits) (simp_all add: unat_div split)
qed

lemma clears_iff:
  assumes "num < den" "den \<le> 2 ^ 32"
  shows "w > (tot div den * num + tot mod den * num div den :: u64) \<longleftrightarrow> unat num * unat tot < unat den * unat w"
proof -
  have "0 < unat den" using assms by (simp add: word_less_nat_alt)
  then show ?thesis unfolding word_less_nat_alt threshold_exact [OF assms] by (simp add: div_less_iff_less_mult ac_simps)
qed

lemma shift_mod_inj: "inj_on (\<lambda>i. (a + i) mod k) {..<k :: nat}"
proof (rule linorder_inj_onI)
  fix i j assume "i < j" "i \<in> {..<k}" "j \<in> {..<k}"
  then have "\<not> k dvd (a + j) - (a + i)" by (auto dest: dvd_imp_le)
  then show "(a + i) mod k \<noteq> (a + j) mod k" using \<open>i < j\<close> mod_eq_dvd_iff_nat [of "a + i" "a + j" k] by auto
qed auto

section \<open>Proposals are valid blocks\<close>

lemma confirmed_root_size:
  assumes "\<And>x. length (H x) = ANTS_CHAIN_HASH_SIZE" "ants_chain_confirmed_root H ids = Inr r"
  shows "length r = ANTS_CHAIN_HASH_SIZE"
proof (cases "ids = []")
  case True
  then show ?thesis using assms by (auto simp: ants_chain_confirmed_root_def empty_root_def)
next
  case False
  then have "r = level_root (node_hash H) (map (leaf_hash H) ids)"
    using assms(2) range_root [of 0 "length ids" ids H] by (auto simp: ants_chain_confirmed_root_def Let_def split: if_splits)
  then show ?thesis using level_root_size [of "node_hash H" ANTS_CHAIN_HASH_SIZE "map (leaf_hash H) ids"] False assms(1)
    by (simp add: node_hash_def leaf_hash_def)
qed

lemma propose_ok:
  assumes "\<And>x. length (H x) = ANTS_CHAIN_HASH_SIZE" "length prev = ANTS_CHAIN_HASH_SIZE" "events_ok events"
    "ants_chain_block_propose H height prev epoch cutoff degraded ids events cap = (Inr b, n)"
  shows "block_ok ANTS_CHAIN_MAX_PATTERN_FINDINGS b" "bk_height b = height" "bk_prev_block_hash b = prev"
    "bk_degraded_seed b = degraded" "es_cutoff_time (bk_summary b) = cutoff" "es_epoch (bk_summary b) = epoch"
proof -
  obtain r fs m where r: "ants_chain_confirmed_root H ids = Inr r" and s: "ants_chain_pattern_scan events cutoff cap = (Inr fs, m)"
    "m \<le> ANTS_CHAIN_MAX_PATTERN_FINDINGS"
    and b: "b = \<lparr>bk_height = height, bk_prev_block_hash = prev, bk_degraded_seed = degraded,
      bk_summary = \<lparr>es_epoch = epoch, es_cutoff_time = cutoff, es_confirmed_proofs = r, es_findings = fs\<rparr>\<rparr>"
    using assms(4) by (auto simp: ants_chain_block_propose_def split: sum.splits prod.splits if_splits)
  show "block_ok ANTS_CHAIN_MAX_PATTERN_FINDINGS b"
    using scan_findings_ok [OF assms(3) s(1)] s(2) confirmed_root_size [OF assms(1) r] assms(2) by (simp add: b block_ok_def summary_ok_def)
qed (use assms(4) in \<open>auto simp: ants_chain_block_propose_def split: sum.splits prod.splits if_splits\<close>)

section \<open>Properties\<close>

text \<open>C33. Quorums intersect: when the same committee finalises two blocks, at least a third of its members
  have a valid signature in both certificates.\<close>

theorem chain_finality_intersects:
  assumes "ants_chain_finality_verify sig_ok h pks k atts msk = Inr True"
    "ants_chain_finality_verify sig_ok h' pks k atts' msk' = Inr True"
  shows "k \<le> 3 * card {i. i < k \<and> (msk ! i \<and> sig_ok (pks ! i) h (packed_sig atts msk i)) \<and> (msk' ! i \<and> sig_ok (pks ! i) h' (packed_sig atts' msk' i))}"
proof -
  have "attesters sig_ok h pks k atts msk \<inter> attesters sig_ok h' pks k atts' msk' =
      {i. i < k \<and> (msk ! i \<and> sig_ok (pks ! i) h (packed_sig atts msk i)) \<and> (msk' ! i \<and> sig_ok (pks ! i) h' (packed_sig atts' msk' i))}"
    by (auto simp: attesters_def)
  moreover have "attesters sig_ok x pks k as m \<subseteq> {..<k}" for x as m by (auto simp: attesters_def)
  ultimately show ?thesis using assms [unfolded finality_exact] quorum_overlap by metis
qed

text \<open>The weight of a fork is the exact sum of its validators' weights, or the overflow is reported.\<close>

theorem chain_fork_weight_exact:
  assumes "t_cap \<noteq> 0"
  shows "ants_chain_fork_weight ts t_cap =
    (if weights t_cap ts < 2 ^ 64 then Inr (of_nat (weights t_cap ts)) else Inl ANTS_ERROR_OVERFLOW)"
  using assms fork_sum_exact [OF assms, of ts 0] by (simp add: ants_chain_fork_weight_def)

text \<open>C38. The choice between two forks compares exactly with the fraction of the total, for a proper
  fraction with a denominator of at most \<open>2 ^ 32\<close>: both forks above it go to the social layer, and
  otherwise the heavier fork wins.\<close>

theorem chain_fork_choice_exact:
  assumes "num < den" "den \<le> 2 ^ 32" "wa \<le> tot" "wb \<le> tot"
  shows "ants_chain_fork_choice wa wb tot num den = Inr
    (if unat num * unat tot < unat den * unat wa \<and> unat num * unat tot < unat den * unat wb then ANTS_CHAIN_FORK_SOCIAL_SCHELLING
     else if wa \<ge> wb then ANTS_CHAIN_FORK_A else ANTS_CHAIN_FORK_B)"
proof -
  have "den \<noteq> 0" using assms(1) by auto
  then show ?thesis using assms(3,4)
    by (simp add: ants_chain_fork_choice_def Let_def clears_iff [OF assms(1,2)] not_less)
qed

text \<open>C37. What a member proposes is what the others check: the proposed block encodes, the frame decodes to
  the same block and hashes to the block's hash, and a member that sees the same proofs and the
  same events, in any order, proposes the same block.\<close>

theorem chain_proposal_agreed:
  assumes "\<And>x. length (H x) = ANTS_CHAIN_HASH_SIZE" "length prev = ANTS_CHAIN_HASH_SIZE" "events_ok events"
    "ants_chain_block_propose H height prev epoch cutoff degraded ids events cap = (Inr b, n)"
    "mset events' = mset events"
  shows "\<exists>bs. ants_chain_block_encode b (replicate ANTS_CHAIN_BLOCK_ENCODED_MAX 0) = Inr bs \<and>
    ants_chain_block_hash H b = Inr (H bs) \<and> fst (ants_chain_block_decode bs ANTS_CHAIN_MAX_PATTERN_FINDINGS) = Inr b \<and>
    ants_chain_block_propose H height prev epoch cutoff degraded ids events' cap = (Inr b, n)"
proof -
  note ok = propose_ok(1) [OF assms(1-4)]
  have "length (enc_item (block_item b)) \<le> ANTS_CHAIN_BLOCK_ENCODED_MAX"
    using block_size [OF ok] ok by (simp add: ants_chain_block_bound_def ants_chain_epoch_summary_bound_def chain_sizes block_ok_def summary_ok_def)
  moreover have "ants_chain_block_propose H height prev epoch cutoff degraded ids events' cap = (Inr b, n)"
    using assms(4) unfolding ants_chain_block_propose_def scan_mset [OF assms(3,5)] .
  moreover have "fst (ants_chain_block_decode (enc_item (block_item b)) ANTS_CHAIN_MAX_PATTERN_FINDINGS) = Inr b"
    using ok by (simp add: block_decode)
  ultimately show ?thesis using ok by (simp add: block_encode fits_def ants_chain_block_hash_def chain_sizes)
qed

text \<open>Proposing rotates: over any \<open>k\<close> consecutive heights every member of a committee of \<open>k\<close> is the
  proposer exactly once.\<close>

theorem chain_proposer_rotates:
  assumes "0 < k" "k \<le> ANTS_CHAIN_COMMITTEE_K_MAX" "m < k" "unat h + k \<le> 2 ^ 64"
  shows "\<exists>!i. i < k \<and> ants_chain_proposer (h + of_nat i) k = Inr m"
proof -
  have k64: "k < 2 ^ 64" using assms(2) by (simp add: ANTS_CHAIN_COMMITTEE_K_MAX_def)
  have "ants_chain_proposer (h + of_nat i) k = Inr ((unat h + i) mod k)" if "i < k" for i
  proof -
    have "unat (of_nat i :: u64) = i" using that k64 by (intro unat_of_nat_fits) simp
    then have "unat (h + of_nat i) = unat h + i" using that assms(4) by (subst unat_add_fits) simp_all
    then show ?thesis using assms(1,2) unat_of_nat_fits [OF k64] by (simp add: ants_chain_proposer_def unat_mod)
  qed
  then have eq: "i < k \<and> ants_chain_proposer (h + of_nat i) k = Inr m \<longleftrightarrow> i < k \<and> (unat h + i) mod k = m" for i by auto
  have inj: "inj_on (\<lambda>i. (unat h + i) mod k) {..<k}" by (rule shift_mod_inj)
  have "(\<lambda>i. (unat h + i) mod k) ` {..<k} = {..<k}"
    by (rule endo_inj_surj [OF _ _ inj]) (use assms(1) in auto)
  then obtain i where "i < k" "(unat h + i) mod k = m" using assms(3) by (metis (mono_tags, lifting) imageE lessThan_iff)
  then show ?thesis unfolding eq using inj by (auto dest: inj_onD)
qed

section \<open>Witnesses and corner cases\<close>

definition head_signer :: "bytes \<Rightarrow> bytes \<Rightarrow> bytes \<Rightarrow> bool" where
  "head_signer pk m sg \<longleftrightarrow> take 1 sg = take 1 pk"

definition sample_keys :: "bytes list" where "sample_keys = [[1], [2], [3]]"

theorem chain_finality_intersects_witness:
  "3 \<le> 3 * card {i. i < 3 \<and> ([True, True, False] ! i \<and> head_signer (sample_keys ! i) [7] (packed_sig (replicate 64 1 @ replicate 64 2) [True, True, False] i)) \<and>
    ([False, True, True] ! i \<and> head_signer (sample_keys ! i) [8] (packed_sig (replicate 64 2 @ replicate 64 3) [False, True, True] i))}"
proof (rule chain_finality_intersects)
  show "ants_chain_finality_verify head_signer [7] sample_keys 3 (replicate 64 1 @ replicate 64 2) [True, True, False] = Inr True" by code_simp
  show "ants_chain_finality_verify head_signer [8] sample_keys 3 (replicate 64 2 @ replicate 64 3) [False, True, True] = Inr True" by code_simp
qed

theorem chain_fork_weight_exact_witness:
  "ants_chain_fork_weight [100, 2000000000] 2000000000 =
    (if weights 2000000000 [100, 2000000000] < 2 ^ 64 then Inr (of_nat (weights 2000000000 [100, 2000000000])) else Inl ANTS_ERROR_OVERFLOW)"
  by (rule chain_fork_weight_exact) simp

theorem chain_fork_choice_exact_witness:
  "ants_chain_fork_choice 50 40 100 1 3 = Inr
    (if unat (1 :: u64) * unat (100 :: u64) < unat (3 :: u64) * unat (50 :: u64) \<and> unat (1 :: u64) * unat (100 :: u64) < unat (3 :: u64) * unat (40 :: u64)
     then ANTS_CHAIN_FORK_SOCIAL_SCHELLING else if (50 :: u64) \<ge> 40 then ANTS_CHAIN_FORK_A else ANTS_CHAIN_FORK_B)"
  by (rule chain_fork_choice_exact) simp_all

theorem chain_proposal_agreed_witness:
  "\<exists>b n bs. ants_chain_block_propose ends_hash 5 (replicate 32 1) 2 250 True [] sample_events 256 = (Inr b, n) \<and>
    ants_chain_block_encode b (replicate ANTS_CHAIN_BLOCK_ENCODED_MAX 0) = Inr bs \<and>
    ants_chain_block_hash ends_hash b = Inr (ends_hash bs) \<and> fst (ants_chain_block_decode bs ANTS_CHAIN_MAX_PATTERN_FINDINGS) = Inr b \<and>
    ants_chain_block_propose ends_hash 5 (replicate 32 1) 2 250 True [] (rev sample_events) 256 = (Inr b, n)"
proof -
  have ev: "events_ok sample_events" by (simp add: events_ok_def sample_events_def chain_sizes)
  have "card (offenders sample_events 250) \<le> length sample_events" by (rule offenders_le)
  then have "card (offenders sample_events 250) \<le> 256" by (simp add: sample_events_def)
  then obtain fs where "ants_chain_pattern_scan sample_events 250 256 = (Inr fs, card (offenders sample_events 250))"
    by (simp add: scan_result [OF ev])
  moreover have "ants_chain_confirmed_root ends_hash [] = Inr (empty_root ends_hash)" by (simp add: ants_chain_confirmed_root_def)
  ultimately obtain b n where b: "ants_chain_block_propose ends_hash 5 (replicate 32 1) 2 250 True [] sample_events 256 = (Inr b, n)"
    using \<open>card (offenders sample_events 250) \<le> 256\<close> by (simp add: ants_chain_block_propose_def chain_sizes)
  then show ?thesis
    using chain_proposal_agreed [OF _ _ ev b, of "rev sample_events"] ends_hash_length by (auto simp: chain_sizes)
qed

theorem chain_proposer_rotates_witness: "\<exists>!i. i < 5 \<and> ants_chain_proposer (12 + of_nat i) 5 = Inr 3"
  by (rule chain_proposer_rotates) (simp_all add: ANTS_CHAIN_COMMITTEE_K_MAX_def)

text \<open>An invalid signature does not make the verdict false: it is only not counted.\<close>

lemma finality_despite_invalid:
  "ants_chain_finality_verify head_signer [7] sample_keys 3 (replicate 64 1 @ replicate 64 2 @ replicate 64 99) [True, True, True] = Inr True"
  by code_simp

text \<open>With a larger denominator the product in the threshold wraps: here the fraction is above one half of the
  total, both forks have less than half of it, and yet both are taken to be above the fraction.\<close>

lemma fork_choice_wraps:
  "ants_chain_fork_choice 4294967296 4294967296 12884901888 8589934592 12884901889 = Inr ANTS_CHAIN_FORK_SOCIAL_SCHELLING"
  by code_simp

end
