(* ===== verification/Chain_Runtime.thy ===== *)
theory Chain_Runtime
  imports Chain_Rules
begin

text \<open>
  The block-production state machine of \<^verbatim>\<open>reputation/chain/src/chain_runtime.c\<close>, one per node: it is fed the
  time, the proposals and the attestations that arrive, and decides when the node proposes,
  whether it signs a proposal, when a block is final and when an attempt is skipped. The callbacks
  of the configuration are an environment of functions; what the code hands to its output callbacks, and
  the blocks it has signed, are a list of outputs. A committee draw may not return, so the handlers are
  partial: \<open>None\<close> is a call that does not return.
\<close>

section \<open>State\<close>

definition RT_MAX_PROPOSALS :: nat where "RT_MAX_PROPOSALS = 4"
definition RT_MAX_ATTESTATIONS :: nat where "RT_MAX_ATTESTATIONS = 2 * ANTS_CHAIN_COMMITTEE_K_MAX"
definition ANTS_CHAIN_BLOCK_TIME_S :: u64 where "ANTS_CHAIN_BLOCK_TIME_S = 30"
definition ANTS_CHAIN_FINALITY_TIMEOUT_S :: u64 where "ANTS_CHAIN_FINALITY_TIMEOUT_S = 120"
definition ANTS_CHAIN_RT_DRAND_FLOOR_S :: u64 where "ANTS_CHAIN_RT_DRAND_FLOOR_S = 30"
definition ANTS_CHAIN_RT_EPOCH_DURATION_S :: u64 where "ANTS_CHAIN_RT_EPOCH_DURATION_S = 86400"
definition ANTS_CHAIN_RT_VIEW_WINDOW_EPOCHS :: u64 where "ANTS_CHAIN_RT_VIEW_WINDOW_EPOCHS = 30"
definition ANTS_CHAIN_RT_CLOCK_SKEW_S :: u64 where "ANTS_CHAIN_RT_CLOCK_SKEW_S = 10"
definition ANTS_CHAIN_RT_REBROADCAST_S :: u64 where "ANTS_CHAIN_RT_REBROADCAST_S = 10"

record ants_chain_attestation =
  at_height :: u64
  at_block_hash :: bytes
  at_signer :: bytes
  at_sig :: bytes

record ants_chain_head =
  hd_height :: u64
  hd_hash :: bytes
  hd_cutoff_time :: u64
  hd_epoch :: u64
  hd_degraded_seed :: bool

record rt_proposal =
  rp_used :: bool
  rp_degraded :: bool
  rp_height :: u64
  rp_cutoff :: u64
  rp_epoch :: u64
  rp_prev :: bytes
  rp_hash :: bytes
  rp_bytes :: bytes

record rt_state =
  rs_trustees :: "bytes list"
  rs_genesis_time :: u64
  rs_k_phase :: nat
  rs_self :: bytes
  rs_is_trustee :: bool
  rs_head :: ants_chain_head
  rs_h :: u64
  rs_attempt_start :: u64
  rs_k :: nat
  rs_committee :: "nat list"
  rs_member :: bool
  rs_my_pos :: nat
  rs_proposer_pos :: nat
  rs_cur :: int
  rs_last_emit :: u64
  rs_last_signed_height :: u64
  rs_props :: "rt_proposal list"
  rs_att_used :: "bool list"
  rs_att_seq :: "u64 list"
  rs_next_att_seq :: u64
  rs_atts :: "ants_chain_attestation list"

text \<open>The primitives and callbacks: hash, key derivation, signature check, the node's signature on a hash and
  its view of the fault proofs at a cutoff.\<close>

record rt_env =
  en_hash :: "bytes \<Rightarrow> bytes"
  en_derive :: "string \<Rightarrow> bytes \<Rightarrow> bytes"
  en_sig_ok :: "bytes \<Rightarrow> bytes \<Rightarrow> bytes \<Rightarrow> bool"
  en_sign :: "bytes \<Rightarrow> bytes res"
  en_view :: "u64 \<Rightarrow> (bytes list \<times> ants_chain_event list) res"

record ants_chain_rt_config =
  cf_trustees :: "bytes list"
  cf_genesis_time :: u64
  cf_genesis_hash :: bytes
  cf_k_phase :: nat
  cf_self :: bytes

datatype rt_output =
    Signed u64 bytes
  | Attestation ants_chain_attestation
  | Proposal bytes
  | Final ants_chain_head

definition empty_proposal :: rt_proposal where
  "empty_proposal = \<lparr>rp_used = False, rp_degraded = False, rp_height = 0, rp_cutoff = 0, rp_epoch = 0,
    rp_prev = replicate ANTS_CHAIN_HASH_SIZE 0, rp_hash = replicate ANTS_CHAIN_HASH_SIZE 0, rp_bytes = []\<rparr>"

section \<open>Helpers\<close>

definition trustee_index :: "rt_state \<Rightarrow> bytes \<Rightarrow> nat option" where
  "trustee_index s peer = find (\<lambda>i. memcmp (rs_trustees s ! i) peer ANTS_CHAIN_PEER_ID_SIZE = 0) [0..<length (rs_trustees s)]"

definition committee_for :: "rt_env \<Rightarrow> rt_state \<Rightarrow> bytes \<Rightarrow> u64 \<Rightarrow> nat list res option" where
  "committee_for e s prev height =
    (let n = length (rs_trustees s); k = (if n < rs_k_phase s then n else rs_k_phase s);
         seed = ants_chain_vrf_seed_degraded (en_derive e) prev height in
     map_option fst (ants_chain_committee_select (en_hash e) prev seed n k ANTS_CHAIN_COMMITTEE_K_MAX))"

definition epoch_of :: "rt_state \<Rightarrow> u64 \<Rightarrow> u64" where
  "epoch_of s cutoff = (cutoff - rs_genesis_time s) div ANTS_CHAIN_RT_EPOCH_DURATION_S"

definition compose :: "rt_env \<Rightarrow> rt_state \<Rightarrow> u64 \<Rightarrow> bytes \<Rightarrow> u64 \<Rightarrow> rt_proposal res" where
  "compose e s height prev cutoff =
    (case en_view e cutoff of Inl err \<Rightarrow> Inl err
     | Inr (ids, events) \<Rightarrow>
       (case fst (ants_chain_block_propose (en_hash e) height prev (epoch_of s cutoff) cutoff True ids events ANTS_CHAIN_MAX_PATTERN_FINDINGS) of
          Inl err \<Rightarrow> Inl err
        | Inr b \<Rightarrow>
          (case ants_chain_block_encode b (replicate ANTS_CHAIN_BLOCK_ENCODED_MAX 0) of Inl err \<Rightarrow> Inl err
           | Inr bs \<Rightarrow>
             (case ants_chain_block_hash (en_hash e) b of Inl err \<Rightarrow> Inl err
              | Inr hash \<Rightarrow> Inr \<lparr>rp_used = False, rp_degraded = True, rp_height = height, rp_cutoff = cutoff,
                  rp_epoch = es_epoch (bk_summary b), rp_prev = prev, rp_hash = hash, rp_bytes = bs\<rparr>))))"

definition prop_find :: "rt_state \<Rightarrow> bytes \<Rightarrow> nat option" where
  "prop_find s hash = find (\<lambda>i. rp_used (rs_props s ! i) \<and> memcmp (rp_hash (rs_props s ! i)) hash ANTS_CHAIN_HASH_SIZE = 0) [0..<RT_MAX_PROPOSALS]"

text \<open>The slot that the scan finds, and whether it is the victim of an eviction.\<close>

fun prop_alloc_scan :: "rt_state \<Rightarrow> nat list \<Rightarrow> nat option \<Rightarrow> (nat \<times> bool) option" where
  "prop_alloc_scan s [] victim = map_option (\<lambda>v. (v, True)) victim"
| "prop_alloc_scan s (i # is) victim =
    (if \<not> rp_used (rs_props s ! i) then Some (i, False)
     else if int i = rs_cur s then prop_alloc_scan s is victim
     else if (case victim of None \<Rightarrow> True | Some v \<Rightarrow> rp_height (rs_props s ! i) < rp_height (rs_props s ! v)) then prop_alloc_scan s is (Some i)
     else prop_alloc_scan s is victim)"

definition prop_alloc :: "rt_state \<Rightarrow> nat option \<times> rt_state" where
  "prop_alloc s =
    (case prop_alloc_scan s [0..<RT_MAX_PROPOSALS] None of None \<Rightarrow> (None, s)
     | Some (i, evict) \<Rightarrow> (Some i, if evict then s\<lparr>rs_props := (rs_props s)[i := empty_proposal]\<rparr> else s))"

definition att_find :: "rt_state \<Rightarrow> bytes \<Rightarrow> bytes \<Rightarrow> nat option" where
  "att_find s hash signer = find (\<lambda>i. rs_att_used s ! i \<and> memcmp (at_block_hash (rs_atts s ! i)) hash ANTS_CHAIN_HASH_SIZE = 0 \<and>
    memcmp (at_signer (rs_atts s ! i)) signer ANTS_CHAIN_PEER_ID_SIZE = 0) [0..<RT_MAX_ATTESTATIONS]"

fun att_slot :: "rt_state \<Rightarrow> nat list \<Rightarrow> nat \<Rightarrow> nat" where
  "att_slot s [] slot = slot"
| "att_slot s (i # is) slot =
    (if \<not> rs_att_used s ! i then i
     else if slot = RT_MAX_ATTESTATIONS \<or> rs_att_seq s ! i < rs_att_seq s ! slot then att_slot s is i
     else att_slot s is slot)"

definition att_file :: "rt_state \<Rightarrow> ants_chain_attestation \<Rightarrow> bool \<times> rt_state" where
  "att_file s a =
    (if att_find s (at_block_hash a) (at_signer a) \<noteq> None then (False, s)
     else
       let slot = att_slot s [0..<RT_MAX_ATTESTATIONS] RT_MAX_ATTESTATIONS in
       (True, s\<lparr>rs_att_used := (rs_att_used s)[slot := True], rs_atts := (rs_atts s)[slot := a],
         rs_next_att_seq := rs_next_att_seq s + 1, rs_att_seq := (rs_att_seq s)[slot := rs_next_att_seq s + 1]\<rparr>))"

definition att_any_for :: "rt_state \<Rightarrow> bytes \<Rightarrow> bool" where
  "att_any_for s hash = list_ex (\<lambda>i. rs_att_used s ! i \<and> memcmp (at_block_hash (rs_atts s ! i)) hash ANTS_CHAIN_HASH_SIZE = 0) [0..<RT_MAX_ATTESTATIONS]"

definition purge_below_head :: "rt_state \<Rightarrow> rt_state" where
  "purge_below_head s = s\<lparr>
    rs_props := map (\<lambda>p. if rp_used p \<and> rp_height p \<le> hd_height (rs_head s) then empty_proposal else p) (rs_props s),
    rs_att_used := map2 (\<lambda>used a. if used \<and> at_height a \<le> hd_height (rs_head s) then False else used) (rs_att_used s) (rs_atts s)\<rparr>"

section \<open>Attempts\<close>

text \<open>The error codes of \<open>committee_for\<close> leave \<^verbatim>\<open>s->k\<close> at zero: the one that would write it needs more than
  64 members, which \<^verbatim>\<open>ants_chain_rt_init\<close> excludes.\<close>

definition open_attempt :: "rt_state \<Rightarrow> u64 \<Rightarrow> u64 \<Rightarrow> rt_state" where
  "open_attempt s height now = s\<lparr>rs_h := height, rs_attempt_start := now, rs_cur := -1, rs_last_emit := 0, rs_member := False, rs_k := 0\<rparr>"

text \<open>The position of this node in the committee: the last match, if any.\<close>

definition seat_self :: "rt_state \<Rightarrow> rt_state" where
  "seat_self s =
    (case (if rs_is_trustee s then trustee_index s (rs_self s) else None) of None \<Rightarrow> s
     | Some mine \<Rightarrow>
       fold (\<lambda>i s. if rs_committee s ! i = mine then s\<lparr>rs_member := True, rs_my_pos := i\<rparr> else s) [0..<rs_k s] s)"

definition start_attempt :: "rt_env \<Rightarrow> rt_state \<Rightarrow> u64 \<Rightarrow> u64 \<Rightarrow> rt_state option" where
  "start_attempt e s height now =
    (let s0 = open_attempt s height now in
     do { r \<leftarrow> committee_for e s0 (hd_hash (rs_head s0)) height;
          Some (case r of Inl _ \<Rightarrow> s0
            | Inr idx \<Rightarrow>
              if length idx = 0 then s0
              else
                let s1 = seat_self (s0\<lparr>rs_committee := idx, rs_k := length idx\<rparr>);
                    s2 = (case ants_chain_proposer height (rs_k s1) of Inl _ \<Rightarrow> s1 | Inr pos \<Rightarrow> s1\<lparr>rs_proposer_pos := pos\<rparr>) in
                purge_below_head s2) })"

definition sign_and_emit :: "rt_env \<Rightarrow> rt_state \<Rightarrow> nat \<Rightarrow> bool \<Rightarrow> u64 \<Rightarrow> rt_state \<times> rt_output list" where
  "sign_and_emit e s i emit_proposal now =
    (let p = rs_props s ! i in
     case en_sign e (rp_hash p) of Inl _ \<Rightarrow> (s, [])
     | Inr sg \<Rightarrow>
       let a = \<lparr>at_height = rp_height p, at_block_hash = rp_hash p, at_signer = rs_self s, at_sig = sg\<rparr>;
           s1 = snd (att_file (s\<lparr>rs_last_signed_height := rp_height p, rs_cur := int i\<rparr>) a) in
       (s1\<lparr>rs_last_emit := now\<rparr>,
        [Signed (rp_height p) (rp_hash p), Attestation a] @ (if emit_proposal then [Proposal (rp_bytes p)] else [])))"

section \<open>Finality\<close>

text \<open>The packed signatures and the mask of a committee for a block hash.\<close>

definition member_att :: "rt_state \<Rightarrow> bytes \<Rightarrow> bytes \<Rightarrow> nat option" where
  "member_att s hash key = find (\<lambda>i. rs_att_used s ! i \<and> memcmp (at_block_hash (rs_atts s ! i)) hash ANTS_CHAIN_HASH_SIZE = 0 \<and>
    memcmp (at_signer (rs_atts s ! i)) key ANTS_CHAIN_PEER_ID_SIZE = 0) [0..<RT_MAX_ATTESTATIONS]"

definition is_final :: "rt_env \<Rightarrow> rt_state \<Rightarrow> rt_proposal \<Rightarrow> bool option" where
  "is_final e s p =
    (if \<not> rp_degraded p then Some False
     else do { r \<leftarrow> committee_for e s (rp_prev p) (rp_height p);
       Some (case r of Inl _ \<Rightarrow> False
         | Inr committee \<Rightarrow>
           let pubkeys = map (\<lambda>c. rs_trustees s ! c) committee;
               found = map (member_att s (rp_hash p)) pubkeys;
               signed = map (\<lambda>f. f \<noteq> None) found;
               sigs = concat (map (\<lambda>f. case f of None \<Rightarrow> [] | Some i \<Rightarrow> at_sig (rs_atts s ! i)) found) in
           ants_chain_finality_verify (en_sig_ok e) (rp_hash p) pubkeys (length committee) sigs signed = Inr True) })"

fun finalize_scan :: "rt_env \<Rightarrow> rt_state \<Rightarrow> nat list \<Rightarrow> nat option \<Rightarrow> nat option option" where
  "finalize_scan e s [] best = Some best"
| "finalize_scan e s (i # is) best =
    (let p = rs_props s ! i in
     if \<not> rp_used p \<or> rp_height p \<le> hd_height (rs_head s) then finalize_scan e s is best
     else if (case best of None \<Rightarrow> True | Some b \<Rightarrow> rp_height p > rp_height (rs_props s ! b))
     then do { f \<leftarrow> is_final e s p; finalize_scan e s is (if f then Some i else best) }
     else finalize_scan e s is best)"

definition try_finalize :: "rt_env \<Rightarrow> rt_state \<Rightarrow> u64 \<Rightarrow> (rt_state \<times> rt_output list) option" where
  "try_finalize e s now =
    do { best \<leftarrow> finalize_scan e s [0..<RT_MAX_PROPOSALS] None;
         case best of None \<Rightarrow> Some (s, [])
         | Some i \<Rightarrow>
           let p = rs_props s ! i;
               head = \<lparr>hd_height = rp_height p, hd_hash = rp_hash p, hd_cutoff_time = rp_cutoff p, hd_epoch = rp_epoch p, hd_degraded_seed = rp_degraded p\<rparr> in
           do { s' \<leftarrow> start_attempt e (s\<lparr>rs_head := head\<rparr>) (hd_height head + 1) now; Some (s', [Final head]) } }"

section \<open>Handlers\<close>

definition blank_state :: "ants_chain_rt_config \<Rightarrow> rt_state" where
  "blank_state cfg = \<lparr>rs_trustees = cf_trustees cfg, rs_genesis_time = cf_genesis_time cfg, rs_k_phase = cf_k_phase cfg, rs_self = cf_self cfg,
    rs_is_trustee = False,
    rs_head = \<lparr>hd_height = 0, hd_hash = cf_genesis_hash cfg, hd_cutoff_time = cf_genesis_time cfg, hd_epoch = 0, hd_degraded_seed = False\<rparr>,
    rs_h = 0, rs_attempt_start = 0, rs_k = 0, rs_committee = [], rs_member = False, rs_my_pos = 0, rs_proposer_pos = 0, rs_cur = 0,
    rs_last_emit = 0, rs_last_signed_height = 0, rs_props = replicate RT_MAX_PROPOSALS empty_proposal,
    rs_att_used = replicate RT_MAX_ATTESTATIONS False, rs_att_seq = replicate RT_MAX_ATTESTATIONS 0, rs_next_att_seq = 0,
    rs_atts = replicate RT_MAX_ATTESTATIONS \<lparr>at_height = 0, at_block_hash = replicate ANTS_CHAIN_HASH_SIZE 0,
      at_signer = replicate ANTS_CHAIN_PEER_ID_SIZE 0, at_sig = replicate ANTS_CHAIN_SIG_SIZE 0\<rparr>\<rparr>"

definition ants_chain_rt_init :: "rt_env \<Rightarrow> ants_chain_rt_config \<Rightarrow> u64 \<Rightarrow> rt_state res option" where
  "ants_chain_rt_init e cfg now =
    (if cf_trustees cfg = [] \<or> length (cf_trustees cfg) > ANTS_CHAIN_COMMITTEE_K_MAX \<or> cf_k_phase cfg = 0 \<or> now < cf_genesis_time cfg
     then Some (Inl ANTS_ERROR_INVALID_ARG)
     else if list_ex (\<lambda>i. memcmp (cf_trustees cfg ! (i - 1)) (cf_trustees cfg ! i) ANTS_CHAIN_PEER_ID_SIZE \<ge> 0) [1..<length (cf_trustees cfg)]
     then Some (Inl ANTS_ERROR_INVALID_ARG)
     else
       let s = blank_state cfg; s1 = s\<lparr>rs_is_trustee := trustee_index s (rs_self s) \<noteq> None\<rparr> in
       map_option Inr (start_attempt e s1 1 now))"

definition propose_due :: "rt_state \<Rightarrow> u64 \<Rightarrow> bool" where
  "propose_due s now \<longleftrightarrow> rs_member s \<and> rs_my_pos s = rs_proposer_pos s \<and> rs_cur s < 0 \<and> rs_last_signed_height s < rs_h s \<and>
    now \<ge> rs_attempt_start s + ANTS_CHAIN_RT_DRAND_FLOOR_S \<and> now \<ge> hd_cutoff_time (rs_head s) + ANTS_CHAIN_BLOCK_TIME_S"

definition propose_now :: "rt_env \<Rightarrow> rt_state \<Rightarrow> u64 \<Rightarrow> (rt_state \<times> rt_output list) option" where
  "propose_now e s now =
    (case prop_alloc s of (None, s1) \<Rightarrow> Some (s1, [])
     | (Some i, s1) \<Rightarrow>
       (case compose e s1 (rs_h s1) (hd_hash (rs_head s1)) now of
          Inl _ \<Rightarrow> Some (s1\<lparr>rs_props := (rs_props s1)[i := empty_proposal]\<rparr>, [])
        | Inr p \<Rightarrow>
          (case sign_and_emit e (s1\<lparr>rs_props := (rs_props s1)[i := p\<lparr>rp_used := True\<rparr>]\<rparr>) i True now of (s2, o1) \<Rightarrow>
           do { (s3, o2) \<leftarrow> try_finalize e s2 now; Some (s3, o1 @ o2) })))"

definition rebroadcast :: "rt_state \<Rightarrow> u64 \<Rightarrow> rt_state \<times> rt_output list" where
  "rebroadcast s now =
    (let p = rs_props s ! nat (rs_cur s) in
     (s\<lparr>rs_last_emit := now\<rparr>,
      (case att_find s (rp_hash p) (rs_self s) of None \<Rightarrow> [] | Some j \<Rightarrow> [Attestation (rs_atts s ! j)]) @ [Proposal (rp_bytes p)]))"

definition ants_chain_rt_tick :: "rt_env \<Rightarrow> rt_state \<Rightarrow> u64 \<Rightarrow> (rt_state \<times> rt_output list) option" where
  "ants_chain_rt_tick e s now =
    do { s1 \<leftarrow> (if now \<ge> rs_attempt_start s + ANTS_CHAIN_FINALITY_TIMEOUT_S then start_attempt e s (rs_h s + 1) now else Some s);
         if propose_due s1 now then propose_now e s1 now
         else if rs_cur s1 \<ge> 0 \<and> now \<ge> rs_last_emit s1 + ANTS_CHAIN_RT_REBROADCAST_S then Some (rebroadcast s1 now)
         else Some (s1, []) }"

text \<open>The part of \<^verbatim>\<open>ants_chain_rt_on_proposal\<close> after the proposal is on file in slot \<open>i\<close>.\<close>

definition sign_due :: "rt_state \<Rightarrow> ants_chain_block \<Rightarrow> rt_proposal \<Rightarrow> u64 \<Rightarrow> bool" where
  "sign_due s b p now \<longleftrightarrow> rs_member s \<and> bk_height b = rs_h s \<and> rs_last_signed_height s < rs_h s \<and>
    memcmp (bk_prev_block_hash b) (hd_hash (rs_head s)) ANTS_CHAIN_HASH_SIZE = 0 \<and>
    rp_cutoff p \<ge> hd_cutoff_time (rs_head s) + ANTS_CHAIN_BLOCK_TIME_S \<and> rp_cutoff p \<le> now + ANTS_CHAIN_RT_CLOCK_SKEW_S"

definition consider_block :: "rt_env \<Rightarrow> rt_state \<Rightarrow> ants_chain_block \<Rightarrow> nat \<Rightarrow> u64 \<Rightarrow> (rt_state \<times> rt_output list) option" where
  "consider_block e s b i now =
    (let p = rs_props s ! i;
         agreed = (case compose e s (rs_h s) (hd_hash (rs_head s)) (rp_cutoff p) of Inl _ \<Rightarrow> False
           | Inr mine \<Rightarrow> memcmp (rp_hash mine) (rp_hash p) ANTS_CHAIN_HASH_SIZE = 0) in
     case (if sign_due s b p now \<and> agreed then sign_and_emit e s i False now else (s, [])) of (s1, o1) \<Rightarrow>
       do { (s2, o2) \<leftarrow> try_finalize e s1 now; Some (s2, o1 @ o2) })"

definition ants_chain_rt_on_proposal :: "rt_env \<Rightarrow> rt_state \<Rightarrow> bytes \<Rightarrow> u64 \<Rightarrow> (ants_error \<times> rt_state \<times> rt_output list) option" where
  "ants_chain_rt_on_proposal e s block now =
    (if length block > ANTS_CHAIN_BLOCK_ENCODED_MAX then Some (ANTS_ERROR_INVALID_ARG, s, [])
     else case fst (ants_chain_block_decode block ANTS_CHAIN_MAX_PATTERN_FINDINGS) of Inl err \<Rightarrow> Some (err, s, [])
     | Inr b \<Rightarrow>
       if \<not> bk_degraded_seed b then Some (ANTS_ERROR_UNSUPPORTED_TYPE, s, [])
       else if bk_height b \<le> hd_height (rs_head s) \<or> es_cutoff_time (bk_summary b) < rs_genesis_time s then Some (ANTS_OK, s, [])
       else case ants_chain_block_hash (en_hash e) b of Inl err \<Rightarrow> Some (err, s, [])
       | Inr hash \<Rightarrow>
         (case prop_find s hash of
            Some i \<Rightarrow> map_option (\<lambda>r. (ANTS_OK, r)) (consider_block e s b i now)
          | None \<Rightarrow>
            if \<not> att_any_for s hash then Some (ANTS_ERROR_UNSUPPORTED_TYPE, s, [])
            else case prop_alloc s of (None, s1) \<Rightarrow> Some (ANTS_OK, s1, [])
            | (Some i, s1) \<Rightarrow>
              let p = \<lparr>rp_used = True, rp_degraded = True, rp_height = bk_height b, rp_cutoff = es_cutoff_time (bk_summary b),
                    rp_epoch = es_epoch (bk_summary b), rp_prev = bk_prev_block_hash b, rp_hash = hash, rp_bytes = block\<rparr> in
              map_option (\<lambda>r. (ANTS_OK, r)) (consider_block e (s1\<lparr>rs_props := (rs_props s1)[i := p]\<rparr>) b i now)))"

definition ants_chain_rt_on_attestation :: "rt_env \<Rightarrow> rt_state \<Rightarrow> ants_chain_attestation \<Rightarrow> u64 \<Rightarrow> (ants_error \<times> rt_state \<times> rt_output list) option" where
  "ants_chain_rt_on_attestation e s att now =
    (if trustee_index s (at_signer att) = None \<or> \<not> en_sig_ok e (at_signer att) (at_block_hash att) (at_sig att)
     then Some (ANTS_ERROR_MALFORMED, s, [])
     else case att_find s (at_block_hash att) (at_signer att) of
       Some j \<Rightarrow> Some (if at_height (rs_atts s ! j) = at_height att then ANTS_OK else ANTS_ERROR_UNSUPPORTED_TYPE, s, [])
     | None \<Rightarrow>
       if at_height att \<le> hd_height (rs_head s) then Some (ANTS_ERROR_UNSUPPORTED_TYPE, s, [])
       else map_option (\<lambda>r. (ANTS_OK, r)) (try_finalize e (snd (att_file s att)) now))"

definition ants_chain_rt_head :: "rt_state \<Rightarrow> ants_chain_head" where
  "ants_chain_rt_head s = rs_head s"

definition ants_chain_rt_attempt_height :: "rt_state \<Rightarrow> u64" where
  "ants_chain_rt_attempt_height s = rs_h s"

definition ants_chain_rt_view_epochs :: "u64 \<Rightarrow> u64 \<Rightarrow> (u64 \<times> u64) option" where
  "ants_chain_rt_view_epochs genesis_time cutoff =
    (if cutoff < genesis_time then None
     else
       let ep = (cutoff - genesis_time) div ANTS_CHAIN_RT_EPOCH_DURATION_S in
       Some (if ep \<ge> ANTS_CHAIN_RT_VIEW_WINDOW_EPOCHS - 1 then ep - (ANTS_CHAIN_RT_VIEW_WINDOW_EPOCHS - 1) else 0, ep))"

end
