(* ===== verification/Spec2Isabelle.thy ===== *)
theory Spec2Isabelle
  imports Bond Ledger Payment Gset_Replica Chain_Fault Chain_Runtime
begin

text \<open>
  \<^bold>\<open>ants-client: verification of its deterministic core\<close>

  The client is a peer-to-peer inference node written in C. Everything two peers must agree
  on byte for byte (signed records, content addresses, votes) passes through one canonical
  CBOR codec; on top of it stand the accounting between peers, the bonds that secure acts,
  the replicated set of fault proofs, and the chain that confirms them. This library models that core function by function and proves what its callers rely
  on.

  \<^bold>\<open>Theories and sources\<close>

  \<^item> \<open>Ants_Prelude\<close>: error codes (\<^verbatim>\<open>foundation/common\<close>), the result, step and reader types for
    fallible calls, byte-string order (\<^verbatim>\<open>memcmp\<close>) and 64-bit overflow lemmas.
  \<^item> \<open>Cbor_Codec\<close>: the whole of \<^verbatim>\<open>foundation/cbor/src/cbor.c\<close>: heads, the frame stack that
    tracks open containers, the encoder and decoder calls, the depth-bounded validator.
  \<^item> \<open>Cbor_Head\<close>, \<open>Cbor_Track\<close>, \<open>Cbor_Item\<close>: what a head is, the abstract frame stack that the
    arrays of the C state represent (locale \<open>cursor\<close>, interpreted for encoder and decoder),
    and the data items with their one canonical encoding.
  \<^item> \<open>Cbor_Encode\<close>, \<open>Cbor_Decode\<close>: every encoder call simulates a step on the abstract stack;
    every decoder call reads back exactly one encoder call (locale \<open>call_reader\<close>, interpreted
    for the nine decoder functions).
  \<^item> \<open>Cbor_Canonical\<close>: the validator accepts exactly the canonical encodings.
  \<^item> \<open>Cbor_Parser\<close>, \<open>Cbor_Fields\<close>: how the \<^verbatim>\<open>*_decode\<close> functions compose decoder calls (locale
    \<open>parser\<close>), the contract of a message format (locale \<open>record_codec\<close>), and the key/value
    helpers each message file repeats.
  \<^item> \<open>Bond\<close>: \<^verbatim>\<open>economy/bond/src/bond.c\<close>. \<open>Ledger\<close>: \<^verbatim>\<open>economy/ledger/src/ledger.c\<close>.
    \<open>Payment\<close>: \<^verbatim>\<open>economy/ledger/src/payment.c\<close>.
  \<^item> \<open>Fault_Proof\<close>: the fault proofs of \<^verbatim>\<open>reputation/crdt/src/crdt.c\<close>: encoders, decoders and the
    verdict \<^verbatim>\<open>ants_crdt_verify\<close> with its Merkle path check.
  \<^item> \<open>Gset\<close>: the set of fault proofs in the same file: two hash tables with linear probing
    (locale \<open>probe_table\<close>, interpreted for both), insertion, growth, pruning, merge, snapshot.
    \<open>Gset_Replica\<close>: its reachable states and their convergence.
  \<^item> \<open>Merkle\<close>, \<open>Chain_Merkle\<close>: the Merkle commitment to the confirmed proofs in
    \<^verbatim>\<open>reputation/chain/src/chain.c\<close>, over an arbitrary node function and for the chain's hashes.
    \<open>Chain_Block\<close>: epoch summaries and blocks. \<open>Chain_Fault\<close>: a fabricated block against the verdict of
    \<open>Fault_Proof\<close>.
  \<^item> \<open>Insertion\<close>, \<open>Chain_Scan\<close>, \<open>Chain_Committee\<close>, \<open>Chain_Rules\<close>: the rest of \<^verbatim>\<open>chain.c\<close>: the array sort (locale
    \<open>shift_order\<close>, interpreted for findings and for committee indices), the pattern rules, committee
    selection, and finality, fork choice, beacon, seeds and proposals.
  \<^item> \<open>Chain_Runtime\<close>: the block-production state machine of \<^verbatim>\<open>reputation/chain/src/chain_runtime.c\<close>, its
    callbacks as an environment and its messages as outputs.
  \<^item> \<open>Fixed_Point\<close>: the integer arithmetic of \<^verbatim>\<open>reputation/identity/src/reputation.c\<close>.

  \<^bold>\<open>Conventions\<close>

  A pointer and a length are a byte list, and the \<^verbatim>\<open>NULL\<close> checks on them are not modelled. A
  \<^verbatim>\<open>uint64_t\<close> or \<^verbatim>\<open>uint16_t\<close> value is a word of that width and wraps as in C; sizes, counts and
  array indices are naturals. A function that fails returns \<open>Inl\<close> of an error code; a
  function that updates a struct takes and returns a record. The idiom \<^verbatim>\<open>rc = f(); if (rc !=
  ANTS_OK) return rc;\<close> is \<open>run_steps\<close> for encoder calls and \<open>then_read\<close> for decoder calls.
  The C fields of a struct carry a short prefix as record selectors. Hash functions are
  parameters.

  \<^bold>\<open>What is shown\<close>

  \<^item> The codec: the validator accepts a byte string iff it is the canonical encoding of a
    well-formed item within the depth limit; encodings are unique; whatever a sequence of
    encoder calls completes is canonical; a failed call leaves the cursor where it was.
  \<^item> Message formats: for bond admissions, ledger records and payment terms, what is encoded
    decodes back, and accepted documents are canonical. For the first two the document is
    determined by the record; for payment terms it is not, because a text may hold a NUL.
  \<^item> Bonds: the ledger refines a finite map with a headroom test; its invariant holds in
    every reachable state; slashing takes the amount frozen at admission; the formulas are
    exact or report an overflow in characterised cases.
  \<^item> The peer ledger: totals and balance are exact or report an overflow; the ring of receipts
    refines a queue of the last 32; generosity is their saturated windowed sum; a round
    fills its slots, serves the best ranked and lets no peer starve.
  \<^item> Fault proofs: exactly which byte strings verify, for both kinds of fault; conflicting
    statements can always be proved; an honest peer cannot be framed.
  \<^item> The set of proofs: each operation on the hash tables implements an operation on an
    abstract set; on reachable sets every operation returns, members are verified,
    slashing is permanent and never hits an honest peer, the state is a function of the
    proofs seen and the prune floor, and a snapshot reproduces the set.
  \<^item> The chain: the online Merkle root is the level-by-level tree, inclusion proofs are complete
    and binding, blocks round trip, a fabricated confirmation convicts its signer; findings are exact and
    independent of the order of events; committees are well formed and unbiased; quorums intersect; fork
    choice is exact; a proposal is what every member recomputes.
  \<^item> Fork-choice weights: the integer recipe stays within a stated distance of the real exponential
    function, and is not monotone.
  \<^item> Payment terms: validity is kept and re-established by decoding, and the documented
    buffer size suffices.

  \<^bold>\<open>Bounds and fuel\<close>

  The validator recurses with the depth and item budget of the C code, and is shown to
  return on every input (\<open>walk_always_returns\<close>), so its fuel is the length of the input and
  never runs out. A probe of a hash table has the capacity as fuel; running out is \<open>None\<close>, and
  \<open>crdt_set_operations_return\<close> shows that it does not happen. The rejection loop of a committee draw
  is a partial function, and \<open>chain_committee_selects\<close> shows when it returns. All other loops are structural
  recursions, folds over the array they scan, or have a termination proof.

  \<^bold>\<open>What is not modelled\<close>

  Sockets, files, threads and the vendored cryptography and QUIC code; the floating-point
  inference kernels and embedding model; and the protocol layers above the core
  (distributed hash table, gossip, attestation, the cache and the inference exchange). Memory allocation is taken to succeed.
\<close>

end
